(* ===== verification/Prelude.thy ===== *)
theory Prelude
  imports Main "HOL-Library.Word"
begin

text \<open>
  What every component of the development shares: the names of the C integer types, C strings,
  the ways a C program can go wrong as values of a fault type, the result type of operations that
  can go wrong, and the allocator that the key-value store is built on
  (\<open>kvstore_malloc\<close> and \<open>kvstore_free\<close> of \<open>src/kv_store/kv_store.c\<close>).
\<close>

section \<open>Integers, strings and faults\<close>

type_synonym u8 = "8 word"
type_synonym u16 = "16 word"
type_synonym u32 = "32 word"
type_synonym u64 = "64 word"
type_synonym bytes = "u8 list"

text \<open>A \<open>char *\<close> argument: \<^term>\<open>None\<close> is the NULL pointer; the characters before the NUL.\<close>

type_synonym cstr = "string option"

abbreviation NUL :: char where "NUL \<equiv> CHR 0x00"

abbreviation INT_MAX :: int where "INT_MAX \<equiv> 2147483647"

text \<open>
  How an operation can fail to return: a NULL dereference, a failed \<open>assert\<close> (or \<open>abort\<close>),
  locking a mutex that the same thread holds, an access outside an array, a read of memory that was
  never written or was freed, a signed overflow, a division by zero, a loop that never ends.
\<close>

datatype fault =
    Null_Deref | Assert_Fail | Deadlock | Out_Of_Bounds | Uninit_Read | Use_After_Free
  | Int_Overflow | Div_By_Zero | Diverges

type_synonym 'a res = "fault + 'a"

named_theorems res_simps \<open>unfolding of results and of the allocator\<close>
named_theorems wire_simps \<open>lengths and round trips of encoders\<close>

fun rbind :: "'a res \<Rightarrow> ('a \<Rightarrow> 'b res) \<Rightarrow> 'b res" where
  "rbind (Inl e) k = Inl e"
| "rbind (Inr x) k = k x"

lemma rbind_Inr_iff [res_simps]: "rbind r k = Inr y \<longleftrightarrow> (\<exists>x. r = Inr x \<and> k x = Inr y)"
  by (cases r) auto

lemma rbind_Inl_iff [res_simps]: "rbind r k = Inl e \<longleftrightarrow> r = Inl e \<or> (\<exists>x. r = Inr x \<and> k x = Inl e)"
  by (cases r) auto

lemma rbind_assoc: "rbind (rbind r f) h = rbind r (\<lambda>x. rbind (f x) h)"
  by (cases r) simp_all

lemma rbind_if: "rbind (if P then r else s) k = (if P then rbind r k else rbind s k)"
  by simp

text \<open>The run ends in a state with \<open>P\<close>, or in a signed overflow.\<close>

definition safe :: "('a \<Rightarrow> bool) \<Rightarrow> 'a res \<Rightarrow> bool" where
  "safe P r \<longleftrightarrow> (case r of Inl e \<Rightarrow> e = Int_Overflow | Inr x \<Rightarrow> P x)"

lemma safe_simps [simp]: "safe P (Inr x) = P x" "safe P (Inl e) \<longleftrightarrow> e = Int_Overflow"
  by (simp_all add: safe_def)

lemma safe_rbind: "safe Q r \<Longrightarrow> (\<And>x. r = Inr x \<Longrightarrow> Q x \<Longrightarrow> safe P (f x)) \<Longrightarrow> safe P (rbind r f)"
  by (cases r) simp_all

lemma safe_mono: "safe Q r \<Longrightarrow> (\<And>x. Q x \<Longrightarrow> P x) \<Longrightarrow> safe P r"
  by (cases r) simp_all

lemma safe_ex: "\<exists>x. r = Inr x \<and> P x \<Longrightarrow> safe P r"
  by auto

section \<open>The allocator\<close>

text \<open>
  The C library's allocator is the environment's: which call succeeds (\<open>mem_ok\<close>, from the number
  of the call and the size asked for) and whether the block it returns happens to be zero-filled
  (\<open>mem_zero\<close>) are its choice. \<open>mem_next\<close> numbers the calls, \<open>mem_live\<close> counts the blocks that
  were allocated and not freed.
\<close>

record mem =
  mem_ok :: "nat \<Rightarrow> nat \<Rightarrow> bool"
  mem_zero :: "nat \<Rightarrow> bool"
  mem_next :: nat
  mem_live :: int

definition kvstore_malloc :: "nat \<Rightarrow> mem \<Rightarrow> bool \<times> mem" where
  "kvstore_malloc sz m =
     (let ok = mem_ok m (mem_next m) sz
      in (ok, m\<lparr>mem_next := Suc (mem_next m),
                mem_live := (if ok then mem_live m + 1 else mem_live m)\<rparr>))"

definition kvstore_free :: "'a option \<Rightarrow> mem \<Rightarrow> mem" where
  "kvstore_free ptr m =
     (case ptr of None \<Rightarrow> m | Some _ \<Rightarrow> m\<lparr>mem_live := mem_live m - 1\<rparr>)"

text \<open>An allocator that never runs out of memory.\<close>

definition mem_good :: "mem \<Rightarrow> bool" where
  "mem_good m \<longleftrightarrow> (\<forall>n sz. mem_ok m n sz)"

text \<open>A fresh process: no call has failed or will, memory comes zeroed, nothing is allocated.\<close>

definition good_mem :: mem where
  "good_mem = \<lparr>mem_ok = (\<lambda>_ _. True), mem_zero = (\<lambda>_. True), mem_next = 0, mem_live = 0\<rparr>"

lemma good_mem_good [simp]: "mem_good good_mem"
  by (simp add: good_mem_def mem_good_def)

lemma mem_good_ok [simp]: "mem_good m \<Longrightarrow> mem_ok m n sz"
  by (simp add: mem_good_def)

lemma mem_good_update [simp]:
  "mem_good (m\<lparr>mem_next := a\<rparr>) = mem_good m" "mem_good (m\<lparr>mem_live := b\<rparr>) = mem_good m"
  by (simp_all add: mem_good_def)

lemma kvstore_malloc_good [res_simps]:
  "mem_good m \<Longrightarrow> kvstore_malloc sz m =
     (True, m\<lparr>mem_next := Suc (mem_next m), mem_live := mem_live m + 1\<rparr>)"
  by (simp add: kvstore_malloc_def Let_def)

lemma kvstore_malloc_keeps [simp]:
  "mem_ok (snd (kvstore_malloc sz m)) = mem_ok m"
  "mem_zero (snd (kvstore_malloc sz m)) = mem_zero m"
  "mem_good (snd (kvstore_malloc sz m)) = mem_good m"
  by (simp_all add: kvstore_malloc_def Let_def mem_good_def)

lemma kvstore_free_simps [res_simps]:
  "kvstore_free None m = m"
  "kvstore_free (Some x) m = m\<lparr>mem_live := mem_live m - 1\<rparr>"
  by (simp_all add: kvstore_free_def)

lemma kvstore_free_keeps [simp]:
  "mem_ok (kvstore_free p m) = mem_ok m"
  "mem_zero (kvstore_free p m) = mem_zero m"
  "mem_next (kvstore_free p m) = mem_next m"
  "mem_good (kvstore_free p m) = mem_good m"
  by (auto simp: kvstore_free_def mem_good_def split: option.splits)

lemma kvstore_free_live: "mem_live (kvstore_free p m) = mem_live m - (if p = None then 0 else 1)"
  by (auto simp: kvstore_free_def split: option.splits)

section \<open>Lists\<close>

lemma nth_list_update_cases:
  "i < length xs \<Longrightarrow> xs[j := y] ! i = (if i = j then y else xs ! i)"
  by (simp add: nth_list_update)

lemma sum_list_update_nat:
  fixes xs :: "nat list"
  assumes "i < length xs"
  shows "int (sum_list (xs[i := y])) = int (sum_list xs) - int (xs ! i) + int y"
  using assms by (induction xs arbitrary: i) (auto split: nat.splits)

section \<open>32-bit words\<close>

lemma uint_u32_less: "uint (w :: u32) < 4294967296"
  using unsigned_less [of w, where ?'a = int] by simp

lemma unat_u32_less: "unat (w :: u32) < 4294967296"
  using unsigned_less [of w, where ?'a = nat] by simp

lemma unat_word_of_nat_u32 [simp]: "n < 4294967296 \<Longrightarrow> unat (word_of_nat n :: u32) = n"
  by (simp add: unsigned_of_nat take_bit_nat_eq_self)

lemma uint_word_of_nat_u32 [simp]: "n < 4294967296 \<Longrightarrow> uint (word_of_nat n :: u32) = int n"
  by (simp add: unsigned_of_nat take_bit_nat_eq_self)

lemma sint_u32: "sint (w :: u32) = (if uint w < 2147483648 then uint w else uint w - 4294967296)"
proof -
  have s: "sint w = (uint w + 2147483648) mod 4294967296 - 2147483648"
    using signed_take_bit_eq_take_bit_shift [of 31 "uint w"] by (simp add: sint_uint take_bit_eq_mod)
  show ?thesis
  proof (cases "uint w < 2147483648")
    case True
    then show ?thesis using s by simp
  next
    case False
    have "(uint w + 2147483648) mod 4294967296 = uint w + 2147483648 - 4294967296"
      using False uint_u32_less [of w] by (simp add: mod_pos_geq)
    then show ?thesis using s False by simp
  qed
qed

lemma sint_word_of_nat_u32 [simp]: "n < 2147483648 \<Longrightarrow> sint (word_of_nat n :: u32) = int n"
  by (simp add: sint_u32)

lemma uint_u32_sub: "uint (a - b :: u32) = (uint a - uint b) mod 4294967296"
  by (simp add: uint_word_ariths)

lemma uint_u32_add: "uint (a + b :: u32) = (uint a + uint b) mod 4294967296"
  by (simp add: uint_word_ariths)

lemma unat_less_uint: "unat w < n \<longleftrightarrow> uint w < int n"
proof -
  have "int (unat w) = uint w" by simp
  then show ?thesis by linarith
qed

lemma unat_le_uint: "n \<le> unat w \<longleftrightarrow> int n \<le> uint w"
  using unat_less_uint [of w n] by linarith

end
