(* ===== verification/KvEngine.thy ===== *)
theory KvEngine
  imports Prelude
begin

text \<open>
  The interface between the key-value store's engines (\<open>hash.c\<close>, \<open>kvstore_array.c\<close>,
  \<open>kvstore_rbtree.c\<close>) and the protocol layer that calls one of them through \<open>kvstore_set\<close>,
  \<open>kvstore_get\<close>, \<open>kvstore_delete\<close> and \<open>kvstore_modify\<close> of \<open>src/kv_store/kv_store.c\<close>.
  What the protocol layer may rely on from every engine is less than a map: the engines disagree on
  setting a key that is already stored, and on deleting one that is not, so the contract below
  speaks of setting new keys and of deleting stored ones. \<open>miss\<close> is what the engine returns for
  modifying a key that is not stored.
\<close>

text \<open>The four entry points of an engine over a state of type \<open>'s\<close>.\<close>

record 's engine =
  eng_set :: "'s \<Rightarrow> cstr \<Rightarrow> cstr \<Rightarrow> mem \<Rightarrow> (int \<times> 's \<times> mem) res"
  eng_get :: "'s \<Rightarrow> cstr \<Rightarrow> (cstr \<times> 's) res"
  eng_del :: "'s \<Rightarrow> cstr \<Rightarrow> mem \<Rightarrow> (int \<times> 's \<times> mem) res"
  eng_mod :: "'s \<Rightarrow> cstr \<Rightarrow> cstr \<Rightarrow> mem \<Rightarrow> (int \<times> 's \<times> mem) res"

locale kv_engine =
  fixes eng :: "'s engine"
    and inv :: "'s \<Rightarrow> bool"
    and abs :: "'s \<Rightarrow> string \<Rightarrow> string option"
    and used :: "'s \<Rightarrow> nat"
    and cap :: nat
    and miss :: int
  assumes set_new: "inv s \<Longrightarrow> mem_good m \<Longrightarrow> used s < cap \<Longrightarrow> abs s k = None \<Longrightarrow>
      \<exists>s' m'. eng_set eng s (Some k) (Some v) m = Inr (0, s', m') \<and> inv s' \<and> mem_good m' \<and>
              abs s' = (abs s)(k \<mapsto> v) \<and> used s' = Suc (used s)"
    and get: "inv s \<Longrightarrow> eng_get eng s (Some k) = Inr (abs s k, s)"
    and del_stored: "inv s \<Longrightarrow> mem_good m \<Longrightarrow> abs s k \<noteq> None \<Longrightarrow>
      \<exists>s' m'. eng_del eng s (Some k) m = Inr (0, s', m') \<and> inv s' \<and> mem_good m' \<and>
              abs s' = (abs s)(k := None) \<and> Suc (used s') = used s"
    and mod_stored: "inv s \<Longrightarrow> mem_good m \<Longrightarrow> abs s k \<noteq> None \<Longrightarrow>
      \<exists>s' m'. eng_mod eng s (Some k) (Some v) m = Inr (0, s', m') \<and> inv s' \<and> mem_good m' \<and>
              abs s' = (abs s)(k \<mapsto> v) \<and> used s' = used s"
    and mod_absent: "inv s \<Longrightarrow> abs s k = None \<Longrightarrow> eng_mod eng s (Some k) (Some v) m = Inr (miss, s, m)"
    and miss: "miss \<noteq> 0"

text \<open>The hash engine promises more: setting a stored key replaces its value.\<close>

locale kv_map_engine = kv_engine +
  assumes set_stored: "inv s \<Longrightarrow> mem_good m \<Longrightarrow> used s < cap \<Longrightarrow> abs s k \<noteq> None \<Longrightarrow>
      \<exists>s' m'. eng_set eng s (Some k) (Some v) m = Inr (0, s', m') \<and> inv s' \<and> mem_good m' \<and>
              abs s' = (abs s)(k \<mapsto> v) \<and> used s' = used s"

end
