(* ===== verification/KvHash.thy ===== *)
theory KvHash
  imports Prelude KvEngine
begin

unbundle bit_operations_syntax

text \<open>
  The hash engine of the key-value store, \<open>src/kv_store/hash.c\<close>: a table of slots, each the head of
  a chain of nodes linked by \<open>next\<close>, which doubles when its load passes 0.7. A chain is the list of
  its nodes in \<open>next\<close> order. A slot of \<open>nodes\<close> is \<^term>\<open>None\<close> while its pointer is indeterminate:
  \<open>init_hashtable\<close> does not clear the block that \<open>malloc\<close> returns. The mutex is the flag \<open>lock\<close>;
  the store runs on one thread, so locking a held mutex never returns (\<^const>\<open>Deadlock\<close>).
\<close>

section \<open>Data\<close>

record hashnode =
  hkey :: string
  hvalue :: cstr

type_synonym chain = "hashnode list"

record hashtable =
  nodes :: "chain option list"
  max_slots :: int
  count :: int
  lock :: bool

definition MAX_TABLE_SIZE :: int where "MAX_TABLE_SIZE = 1024"

section \<open>Operations\<close>

text \<open>\<open>_hash\<close>: the multiply-by-33 hash of the key's bytes, modulo the number of slots.\<close>

fun hash_loop :: "u32 \<Rightarrow> string \<Rightarrow> u32" where
  "hash_loop h [] = h"
| "hash_loop h (c # cs) = hash_loop ((push_bit 5 h + h) + of_char c) cs"

definition hash_idx :: "string \<Rightarrow> int \<Rightarrow> nat" where
  "hash_idx k sz = unat (hash_loop 5381 k mod word_of_int sz)"

text \<open>
  The test \<open>hash->count + 1 > hash->max_slots * 0.7\<close> on doubles. The double nearest to 0.7 is
  \<open>6305039478318694 / 2^53\<close>, and its product with a number of slots, always a power of two, is exact.
\<close>

definition load_exceeded :: "int \<Rightarrow> int \<Rightarrow> bool" where
  "load_exceeded cnt slots \<longleftrightarrow> slots * 6305039478318694 < (cnt + 1) * 2 ^ 53"

fun rehash_chain :: "int \<Rightarrow> chain \<Rightarrow> chain list \<Rightarrow> chain list" where
  "rehash_chain n [] new_nodes = new_nodes"
| "rehash_chain n (node # rest) new_nodes =
     (let idx = hash_idx (hkey node) n
      in rehash_chain n rest (new_nodes[idx := node # new_nodes ! idx]))"

fun rehash_slots :: "int \<Rightarrow> chain option list \<Rightarrow> chain list \<Rightarrow> chain list res" where
  "rehash_slots n [] new_nodes = Inr new_nodes"
| "rehash_slots n (None # slots) new_nodes = Inl Uninit_Read"
| "rehash_slots n (Some ch # slots) new_nodes = rehash_slots n slots (rehash_chain n ch new_nodes)"

text \<open>The pointer \<open>hash->nodes\<close>: NULL when \<open>init_hashtable\<close> could not allocate the table.\<close>

definition table_ptr :: "hashtable \<Rightarrow> unit option" where
  "table_ptr h = (if nodes h = [] then None else Some ())"

text \<open>
  \<open>hash->nodes[_hash(key, hash->max_slots)]\<close>: a table that was never created has no slots, and
  \<open>_hash\<close> divides by zero.
\<close>

definition slot :: "hashtable \<Rightarrow> string \<Rightarrow> (nat \<times> chain) res" where
  "slot h k =
     (let idx = hash_idx k (max_slots h)
      in if max_slots h = 0 then Inl Div_By_Zero
         else if length (nodes h) \<le> idx then Inl Null_Deref
         else (case nodes h ! idx of None \<Rightarrow> Inl Uninit_Read | Some ch \<Rightarrow> Inr (idx, ch)))"

definition resize_hashtable :: "hashtable \<Rightarrow> mem \<Rightarrow> (int \<times> hashtable \<times> mem) res" where
  "resize_hashtable h m =
     (let new_size = max_slots h * 2
      in if INT_MAX < new_size then Inl Int_Overflow
         else
           let (ok, m1) = kvstore_malloc (8 * nat new_size) m
           in if \<not> ok then Inr (- 1, h, m1)
              else rbind (rehash_slots new_size (nodes h) (replicate (nat new_size) []))
                (\<lambda>new_nodes. Inr (0, h\<lparr>nodes := map Some new_nodes, max_slots := new_size\<rparr>,
                                  kvstore_free (table_ptr h) m1)))"

definition create_node :: "string \<Rightarrow> string \<Rightarrow> mem \<Rightarrow> hashnode option \<times> mem" where
  "create_node key val m =
     (let (ok, m) = kvstore_malloc 24 m
      in if \<not> ok then (None, m)
         else
           let (ok, m) = kvstore_malloc (length key + 1) m
           in if \<not> ok then (None, kvstore_free (Some ()) m)
              else
                let (ok, m) = kvstore_malloc (length val + 1) m
                in if \<not> ok then (None, kvstore_free (Some ()) (kvstore_free (Some key) m))
                   else (Some \<lparr>hkey = key, hvalue = Some val\<rparr>, m))"

text \<open>\<open>init_hashtable\<close>: the slots hold NULL only if the allocator happened to return zeroed memory.\<close>

definition init_hashtable :: "hashtable \<Rightarrow> mem \<Rightarrow> int \<times> hashtable \<times> mem" where
  "init_hashtable h m =
     (let (ok, m1) = kvstore_malloc (8 * nat MAX_TABLE_SIZE) m
      in if \<not> ok then (- 1, h\<lparr>nodes := []\<rparr>, m1)
         else (0, \<lparr>nodes = replicate (nat MAX_TABLE_SIZE)
                             (if mem_zero m (mem_next m) then Some [] else None),
                   max_slots = MAX_TABLE_SIZE, count = 0, lock = False\<rparr>, m1))"

fun dest_chain :: "chain \<Rightarrow> mem \<Rightarrow> mem" where
  "dest_chain [] m = m"
| "dest_chain (node # rest) m = dest_chain rest (kvstore_free (Some node) m)"

fun dest_slots :: "chain option list \<Rightarrow> mem \<Rightarrow> mem res" where
  "dest_slots [] m = Inr m"
| "dest_slots (None # slots) m = Inl Uninit_Read"
| "dest_slots (Some ch # slots) m = dest_slots slots (dest_chain ch m)"

definition dest_hashtable :: "hashtable \<Rightarrow> mem \<Rightarrow> mem res" where
  "dest_hashtable h m = rbind (dest_slots (nodes h) m) (\<lambda>m. Inr (kvstore_free (table_ptr h) m))"

text \<open>
  The body that \<open>put_kv_hashtable\<close> and \<open>kvs_hash_modify\<close> share: walk the chain to the first node
  with the key and give it a fresh copy of the value. The Boolean tells whether the copy could be
  allocated; a node whose copy could not is left with a NULL value. \<^term>\<open>None\<close>: no such node.
\<close>

fun overwrite :: "string \<Rightarrow> string \<Rightarrow> chain \<Rightarrow> mem \<Rightarrow> (bool \<times> chain \<times> mem) option" where
  "overwrite k v [] m = None"
| "overwrite k v (node # rest) m =
     (if hkey node = k then
        let (ok, m1) = kvstore_malloc (length v + 1) (kvstore_free (hvalue node) m)
        in Some (ok, node\<lparr>hvalue := if ok then Some v else None\<rparr> # rest, m1)
      else map_option (\<lambda>(ok, rest', m1). (ok, node # rest', m1)) (overwrite k v rest m))"

definition put_kv_hashtable ::
  "hashtable \<Rightarrow> cstr \<Rightarrow> cstr \<Rightarrow> mem \<Rightarrow> (int \<times> hashtable \<times> mem) res" where
  "put_kv_hashtable h key val m =
     (case (key, val) of
        (Some k, Some v) \<Rightarrow>
          if lock h then Inl Deadlock
          else
            rbind (if load_exceeded (count h) (max_slots h)
                   then resize_hashtable (h\<lparr>lock := True\<rparr>) m else Inr (0, h\<lparr>lock := True\<rparr>, m))
              (\<lambda>(_, h, m). rbind (slot h k) (\<lambda>(idx, ch).
                 case overwrite k v ch m of
                   Some (ok, ch', m1) \<Rightarrow>
                     Inr (if ok then 0 else - 1,
                          h\<lparr>nodes := (nodes h)[idx := Some ch'], lock := False\<rparr>, m1)
                 | None \<Rightarrow>
                     (case create_node k v m of
                        (None, m1) \<Rightarrow> Inl Null_Deref
                      | (Some new_node, m1) \<Rightarrow>
                          Inr (0, h\<lparr>nodes := (nodes h)[idx := Some (new_node # ch)],
                                    count := count h + 1, lock := False\<rparr>, m1))))
      | _ \<Rightarrow> Inr (- 1, h, m))"

fun chain_get :: "string \<Rightarrow> chain \<Rightarrow> cstr" where
  "chain_get k [] = None"
| "chain_get k (node # rest) = (if hkey node = k then hvalue node else chain_get k rest)"

definition get_kv_hashtable :: "hashtable \<Rightarrow> cstr \<Rightarrow> (cstr \<times> hashtable) res" where
  "get_kv_hashtable h key =
     (case key of
        None \<Rightarrow> Inr (None, h)
      | Some k \<Rightarrow>
          if max_slots h = 0 then Inl Div_By_Zero
          else if lock h then Inl Deadlock
          else rbind (slot h k) (\<lambda>(idx, ch). Inr (chain_get k ch, h)))"

definition count_kv_hashtable :: "hashtable \<Rightarrow> int" where
  "count_kv_hashtable h = count h"

definition free_node :: "hashnode \<Rightarrow> mem \<Rightarrow> mem" where
  "free_node node m =
     kvstore_free (Some node) (kvstore_free (hvalue node) (kvstore_free (Some (hkey node)) m))"

text \<open>The search loop over \<open>cur->next\<close>: unlink and free the first later node with the key.\<close>

fun unlink_next :: "string \<Rightarrow> chain \<Rightarrow> mem \<Rightarrow> (chain \<times> mem) option" where
  "unlink_next k [] m = None"
| "unlink_next k (node # rest) m =
     (if hkey node = k then Some (rest, free_node node m)
      else map_option (\<lambda>(rest', m1). (node # rest', m1)) (unlink_next k rest m))"

text \<open>
  An empty slot returns before the mutex is unlocked; every other path unlocks it.
\<close>

definition delete_kv_hashtable :: "hashtable \<Rightarrow> cstr \<Rightarrow> mem \<Rightarrow> (int \<times> hashtable \<times> mem) res" where
  "delete_kv_hashtable h key m =
     (case key of
        None \<Rightarrow> Inr (- 2, h, m)
      | Some k \<Rightarrow>
          if max_slots h = 0 then Inl Div_By_Zero
          else if lock h then Inl Deadlock
          else rbind (slot h k) (\<lambda>(idx, ch).
            case ch of
              [] \<Rightarrow> Inr (- 1, h\<lparr>lock := True\<rparr>, m)
            | hd_node # rest \<Rightarrow>
                if hkey hd_node = k
                then Inr (0, h\<lparr>nodes := (nodes h)[idx := Some rest], count := count h - 1\<rparr>,
                          free_node hd_node m)
                else (case unlink_next k rest m of
                        None \<Rightarrow> Inr (- 1, h, m)
                      | Some (rest', m1) \<Rightarrow>
                          Inr (0, h\<lparr>nodes := (nodes h)[idx := Some (hd_node # rest')],
                                    count := count h - 1\<rparr>, m1))))"

definition exist_kv_hashtable :: "hashtable \<Rightarrow> cstr \<Rightarrow> (int \<times> hashtable) res" where
  "exist_kv_hashtable h key =
     rbind (get_kv_hashtable h key) (\<lambda>(v, h). Inr (if v \<noteq> None then 1 else 0, h))"

definition kvstore_hash_create :: "hashtable \<Rightarrow> mem \<Rightarrow> int \<times> hashtable \<times> mem" where
  "kvstore_hash_create h m = init_hashtable h m"

definition kvstore_hash_destory :: "hashtable \<Rightarrow> mem \<Rightarrow> mem res" where
  "kvstore_hash_destory h m = dest_hashtable h m"

definition kvs_hash_set :: "hashtable \<Rightarrow> cstr \<Rightarrow> cstr \<Rightarrow> mem \<Rightarrow> (int \<times> hashtable \<times> mem) res" where
  "kvs_hash_set h key val m = put_kv_hashtable h key val m"

definition kvs_hash_get :: "hashtable \<Rightarrow> cstr \<Rightarrow> (cstr \<times> hashtable) res" where
  "kvs_hash_get h key = get_kv_hashtable h key"

definition kvs_hash_delete :: "hashtable \<Rightarrow> cstr \<Rightarrow> mem \<Rightarrow> (int \<times> hashtable \<times> mem) res" where
  "kvs_hash_delete h key m = delete_kv_hashtable h key m"

text \<open>\<open>kvs_hash_modify\<close> takes no lock.\<close>

definition kvs_hash_modify :: "hashtable \<Rightarrow> cstr \<Rightarrow> cstr \<Rightarrow> mem \<Rightarrow> (int \<times> hashtable \<times> mem) res" where
  "kvs_hash_modify h key val m =
     (case (key, val) of
        (Some k, Some v) \<Rightarrow>
          rbind (slot h k) (\<lambda>(idx, ch).
            case overwrite k v ch m of
              None \<Rightarrow> Inr (- 1, h, m)
            | Some (ok, ch', m1) \<Rightarrow>
                if ok then Inr (0, h\<lparr>nodes := (nodes h)[idx := Some ch']\<rparr>, m1)
                else Inl Assert_Fail)
      | _ \<Rightarrow> Inr (- 1, h, m))"

definition kvs_hash_count :: "hashtable \<Rightarrow> int" where
  "kvs_hash_count h = count h"

section \<open>Well-formed tables and what they store\<close>

fun slot_ok :: "int \<Rightarrow> nat \<Rightarrow> chain option \<Rightarrow> bool" where
  "slot_ok n i None = False"
| "slot_ok n i (Some ch) \<longleftrightarrow>
     distinct (map hkey ch) \<and> (\<forall>node \<in> set ch. hash_idx (hkey node) n = i)"

fun slot_len :: "chain option \<Rightarrow> nat" where
  "slot_len None = 0"
| "slot_len (Some ch) = length ch"

definition hash_inv :: "hashtable \<Rightarrow> bool" where
  "hash_inv h \<longleftrightarrow>
     (\<exists>j \<le> 20. max_slots h = 1024 * 2 ^ j) \<and> length (nodes h) = nat (max_slots h) \<and>
     (\<forall>i < length (nodes h). slot_ok (max_slots h) i (nodes h ! i)) \<and>
     count h = int (sum_list (map slot_len (nodes h)))"

lemma hash_inv_slots: "hash_inv h \<Longrightarrow> 0 < max_slots h \<and> max_slots h \<le> 2 ^ 30"
proof -
  assume "hash_inv h"
  then obtain j :: nat where j: "j \<le> 20" "max_slots h = 1024 * 2 ^ j"
    by (auto simp: hash_inv_def)
  have "(2 :: int) ^ j \<le> 2 ^ 20"
    using j(1) by (intro power_increasing) simp_all
  with j(2) show ?thesis by simp
qed

text \<open>No node lost its value to a failed allocation.\<close>

definition hash_full :: "hashtable \<Rightarrow> bool" where
  "hash_full h \<longleftrightarrow>
     (\<forall>slot \<in> set (nodes h). \<forall>ch. slot = Some ch \<longrightarrow> (\<forall>node \<in> set ch. hvalue node \<noteq> None))"

text \<open>The finite map a table stands for.\<close>

definition hash_abs :: "hashtable \<Rightarrow> string \<Rightarrow> string option" where
  "hash_abs h k =
     (case nodes h ! hash_idx k (max_slots h) of None \<Rightarrow> None | Some ch \<Rightarrow> chain_get k ch)"

lemma hash_idx_less:
  assumes "0 < n" and "n \<le> INT_MAX"
  shows "hash_idx k n < nat n"
proof -
  have n: "n mod 4294967296 = n"
    using assms by simp
  then have u: "uint (word_of_int n :: u32) = n"
    by (simp add: uint_word_of_int)
  have "0 \<le> uint (hash_loop 5381 k mod word_of_int n)"
    and "uint (hash_loop 5381 k mod word_of_int n) < n"
    using assms by (simp_all add: uint_mod u)
  then show ?thesis
    unfolding hash_idx_def unat_eq_nat_uint by linarith
qed

lemma hash_inv_idx [intro]:
  "hash_inv h \<Longrightarrow> hash_idx k (max_slots h) < length (nodes h)"
  using hash_idx_less [of "max_slots h" k] hash_inv_slots [of h] by (simp add: hash_inv_def)

lemma hash_inv_slot:
  assumes "hash_inv h"
  obtains ch where "nodes h ! hash_idx k (max_slots h) = Some ch" "distinct (map hkey ch)"
    "\<And>node. node \<in> set ch \<Longrightarrow> hash_idx (hkey node) (max_slots h) = hash_idx k (max_slots h)"
proof -
  have ok: "slot_ok (max_slots h) (hash_idx k (max_slots h)) (nodes h ! hash_idx k (max_slots h))"
    using assms hash_inv_idx [OF assms, of k] by (auto simp: hash_inv_def)
  show thesis
  proof (cases "nodes h ! hash_idx k (max_slots h)")
    case None
    with ok show ?thesis by simp
  next
    case (Some ch)
    with ok show ?thesis by (intro that [of ch]) auto
  qed
qed

subsection \<open>Chains\<close>

definition chain_keys :: "chain \<Rightarrow> string set" where
  "chain_keys ch = hkey ` set ch"

lemma chain_keys_Cons [simp]:
  "chain_keys (node # ch) = insert (hkey node) (chain_keys ch)" "chain_keys [] = {}"
  by (simp_all add: chain_keys_def)

lemma chain_keys_append [simp]: "chain_keys (a @ b) = chain_keys a \<union> chain_keys b"
  by (auto simp: chain_keys_def)

lemma image_hkey [simp]: "hkey ` set ch = chain_keys ch"
  by (simp add: chain_keys_def)

lemma hkey_in_chain_keys [intro]: "node \<in> set ch \<Longrightarrow> hkey node \<in> chain_keys ch"
  by (simp add: chain_keys_def del: image_hkey)

lemma chain_keysE:
  assumes "k \<in> chain_keys ch"
  obtains node where "node \<in> set ch" "k = hkey node"
  using assms by (auto simp: chain_keys_def simp del: image_hkey)

lemma chain_get_absent [simp]: "k \<notin> chain_keys ch \<Longrightarrow> chain_get k ch = None"
  by (induction ch) auto

lemma chain_get_append:
  "chain_get k (a @ b) = (if k \<in> chain_keys a then chain_get k a else chain_get k b)"
  by (induction a) auto

text \<open>What overwriting a node's value does to the chain, with and without memory.\<close>

lemma overwrite_None: "overwrite k v ch m = None \<longleftrightarrow> k \<notin> chain_keys ch"
  by (induction ch) (auto simp: case_prod_unfold Let_def)

lemma overwrite_shape:
  "overwrite k v ch m = Some (ok, ch', m') \<Longrightarrow>
     map hkey ch' = map hkey ch \<and> k \<in> chain_keys ch \<and>
     (\<forall>k'. chain_get k' ch' = (if k' = k then if ok then Some v else None else chain_get k' ch))"
  by (induction ch arbitrary: ch')
     (fastforce simp: case_prod_unfold Let_def split: if_splits)+

lemma overwrite_good:
  "mem_good m \<Longrightarrow> overwrite k v ch m = Some (ok, ch', m') \<Longrightarrow> ok \<and> mem_good m'"
  by (induction ch arbitrary: ch')
     (fastforce simp: case_prod_unfold Let_def kvstore_malloc_good split: if_splits)+

lemma overwrite_live:
  "mem_good m \<Longrightarrow> overwrite k v ch m = Some (ok, ch', m') \<Longrightarrow> \<forall>node \<in> set ch. hvalue node \<noteq> None \<Longrightarrow>
     mem_live m' = mem_live m \<and> (\<forall>node \<in> set ch'. hvalue node \<noteq> None)"
  by (induction ch arbitrary: ch')
     (fastforce simp: case_prod_unfold Let_def kvstore_malloc_good kvstore_free_live split: if_splits)+

lemma unlink_next_None: "unlink_next k ch m = None \<longleftrightarrow> k \<notin> chain_keys ch"
  by (induction ch) auto

lemma chain_keys_mono: "set a \<subseteq> set b \<Longrightarrow> k \<in> chain_keys a \<Longrightarrow> k \<in> chain_keys b"
  by (auto elim!: chain_keysE)

lemma unlink_next_shape:
  "unlink_next k ch m = Some (ch', m') \<Longrightarrow> distinct (map hkey ch) \<Longrightarrow>
     k \<in> chain_keys ch \<and> length ch = Suc (length ch') \<and> set ch' \<subseteq> set ch \<and>
     distinct (map hkey ch') \<and> k \<notin> chain_keys ch' \<and>
     (\<forall>k'. chain_get k' ch' = (if k' = k then None else chain_get k' ch))"
proof (induction ch arbitrary: ch')
  case (Cons node ch)
  show ?case
  proof (cases "hkey node = k")
    case True
    with Cons.prems show ?thesis by auto
  next
    case False
    with Cons.prems obtain r where r: "unlink_next k ch m = Some (r, m')" "ch' = node # r"
      by auto
    with Cons.IH [of r] Cons.prems False show ?thesis
      by (auto dest: chain_keys_mono)
  qed
qed simp

lemma unlink_next_live:
  "unlink_next k ch m = Some (ch', m') \<Longrightarrow> \<forall>node \<in> set ch. hvalue node \<noteq> None \<Longrightarrow>
     mem_live m' = mem_live m - 3 \<and> mem_good m' = mem_good m"
  by (induction ch arbitrary: ch') (auto simp: free_node_def kvstore_free_live split: if_splits)

subsection \<open>Rehashing\<close>

lemma rehash_chain_append:
  "rehash_chain n (a @ b) new_nodes = rehash_chain n b (rehash_chain n a new_nodes)"
  by (induction a arbitrary: new_nodes) (simp_all add: Let_def)

lemma length_rehash_chain [simp]: "length (rehash_chain n ch new_nodes) = length new_nodes"
  by (induction ch arbitrary: new_nodes) (simp_all add: Let_def)

lemma rehash_slots_concat:
  "\<forall>s \<in> set slots. s \<noteq> None \<Longrightarrow>
     rehash_slots n slots new_nodes = Inr (rehash_chain n (concat (map the slots)) new_nodes)"
  by (induction n slots new_nodes rule: rehash_slots.induct) (simp_all add: rehash_chain_append)

lemma rehash_chain_get:
  assumes "0 < n" and "n \<le> INT_MAX" and "length new_nodes = nat n" and "distinct (map hkey ch)"
  shows "chain_get k (rehash_chain n ch new_nodes ! hash_idx k n) =
           (if k \<in> chain_keys ch then chain_get k ch else chain_get k (new_nodes ! hash_idx k n))"
  using assms(3,4)
proof (induction ch arbitrary: new_nodes)
  case (Cons node ch)
  let ?new = "new_nodes[hash_idx (hkey node) n := node # new_nodes ! hash_idx (hkey node) n]"
  have idx: "hash_idx k n < length new_nodes" "hash_idx (hkey node) n < length new_nodes"
    using hash_idx_less [OF assms(1,2)] Cons.prems by simp_all
  have new: "chain_get k (?new ! hash_idx k n) =
      (if k = hkey node then hvalue node else chain_get k (new_nodes ! hash_idx k n))"
    using idx by (simp add: nth_list_update)
  show ?case
    using Cons.IH [of ?new] Cons.prems new by (auto simp: Let_def)
qed simp

lemma slot_ok_push:
  assumes "slot_ok n i (Some ch)" and "hash_idx (hkey node) n = i" and "hkey node \<notin> chain_keys ch"
  shows "slot_ok n i (Some (node # ch))"
  using assms by auto

lemma rehash_chain_ok:
  assumes "0 < n" and "n \<le> INT_MAX" and "length new_nodes = nat n" and "distinct (map hkey ch)"
    and "\<forall>i < length new_nodes. slot_ok n i (Some (new_nodes ! i))"
    and "\<forall>i < length new_nodes. chain_keys ch \<inter> chain_keys (new_nodes ! i) = {}"
  shows "\<forall>i < length new_nodes. slot_ok n i (Some (rehash_chain n ch new_nodes ! i))"
  using assms(3-6)
proof (induction ch arbitrary: new_nodes)
  case (Cons node ch)
  let ?idx = "hash_idx (hkey node) n"
  let ?new = "new_nodes[?idx := node # new_nodes ! ?idx]"
  have idx: "?idx < length new_nodes"
    using hash_idx_less [OF assms(1,2)] Cons.prems by simp
  have ok: "\<forall>i < length ?new. slot_ok n i (Some (?new ! i))"
  proof (intro allI impI)
    fix i assume i: "i < length ?new"
    show "slot_ok n i (Some (?new ! i))"
    proof (cases "i = ?idx")
      case True
      have "slot_ok n i (Some (new_nodes ! i))"
        using Cons.prems(3) i by simp
      moreover have "hkey node \<notin> chain_keys (new_nodes ! i)"
        using Cons.prems(4) [rule_format, of i] i by auto
      ultimately have "slot_ok n i (Some (node # new_nodes ! i))"
        using True by (intro slot_ok_push) simp_all
      then show ?thesis using True i by simp
    next
      case False
      then show ?thesis using Cons.prems(3) i by (simp del: slot_ok.simps)
    qed
  qed
  have disj: "\<forall>i < length ?new. chain_keys ch \<inter> chain_keys (?new ! i) = {}"
  proof (intro allI impI)
    fix i assume "i < length ?new"
    then show "chain_keys ch \<inter> chain_keys (?new ! i) = {}"
      using Cons.prems(2) Cons.prems(4) [rule_format, of i] idx by (auto simp: nth_list_update)
  qed
  show ?case
    using Cons.IH [of ?new] Cons.prems(1,2) ok disj by (simp add: Let_def del: slot_ok.simps)
qed simp

lemma rehash_chain_len:
  assumes "0 < n" and "n \<le> INT_MAX" and "length new_nodes = nat n"
  shows "sum_list (map length (rehash_chain n ch new_nodes)) =
           sum_list (map length new_nodes) + length ch"
  using assms(3)
proof (induction ch arbitrary: new_nodes)
  case (Cons node ch)
  have idx: "hash_idx (hkey node) n < length new_nodes"
    using hash_idx_less [OF assms(1,2)] Cons.prems by simp
  have "int (sum_list (map length (new_nodes[hash_idx (hkey node) n :=
      node # new_nodes ! hash_idx (hkey node) n]))) = int (sum_list (map length new_nodes)) + 1"
    using idx sum_list_update_nat [of "hash_idx (hkey node) n" "map length new_nodes"]
    by (simp add: map_update)
  then show ?case
    using Cons by (simp add: Let_def)
qed simp

text \<open>The chains of the slots, in slot order: no key occurs twice.\<close>

lemma slots_ok_Cons:
  assumes "\<forall>i < length (ch # chs). slot_ok n (off + i) (Some ((ch # chs) ! i))"
  shows "slot_ok n off (Some ch)" and "\<forall>i < length chs. slot_ok n (Suc off + i) (Some (chs ! i))"
  using assms [THEN spec, of 0] assms [THEN spec, of "Suc i" for i] by simp_all

lemma slots_ok_idx:
  assumes "\<forall>i < length chs. slot_ok n (off + i) (Some (chs ! i))" and "k \<in> chain_keys (concat chs)"
  shows "off \<le> hash_idx k n"
proof -
  from assms(2) obtain node where "node \<in> set (concat chs)" and k: "k = hkey node"
    by (rule chain_keysE)
  then obtain i where "i < length chs" "node \<in> set (chs ! i)"
    by (auto simp: set_conv_nth [of chs])
  with assms(1) have "hash_idx k n = off + i"
    by (simp add: k)
  then show ?thesis by simp
qed

lemma distinct_concat_slots:
  assumes "\<forall>i < length chs. slot_ok n (off + i) (Some (chs ! i))"
  shows "distinct (map hkey (concat chs))"
  using assms
proof (induction chs arbitrary: off)
  case (Cons ch chs)
  note ok = slots_ok_Cons [OF Cons.prems]
  have "chain_keys ch \<inter> chain_keys (concat chs) = {}"
  proof (rule ccontr)
    assume "chain_keys ch \<inter> chain_keys (concat chs) \<noteq> {}"
    then obtain k where k: "k \<in> chain_keys ch" "k \<in> chain_keys (concat chs)"
      by blast
    from k(1) ok(1) have "hash_idx k n = off"
      by (auto elim: chain_keysE)
    with slots_ok_idx [OF ok(2) k(2)] show False by simp
  qed
  then show ?case
    using ok(1) Cons.IH [OF ok(2)] by (simp del: set_concat)
qed simp

lemma chain_get_concat_slots:
  assumes "\<forall>i < length chs. slot_ok n (off + i) (Some (chs ! i))"
    and "off \<le> hash_idx k n" and "hash_idx k n < off + length chs"
  shows "chain_get k (concat chs) = chain_get k (chs ! (hash_idx k n - off))"
  using assms
proof (induction chs arbitrary: off)
  case (Cons ch chs)
  note ok = slots_ok_Cons [OF Cons.prems(1)]
  show ?case
  proof (cases "hash_idx k n = off")
    case True
    then have "k \<notin> chain_keys (concat chs)"
      using slots_ok_idx [OF ok(2), of k] by auto
    with True show ?thesis by (simp add: chain_get_append)
  next
    case False
    then have "k \<notin> chain_keys ch"
      using ok(1) by (auto elim: chain_keysE)
    moreover have "hash_idx k n - off = Suc (hash_idx k n - Suc off)"
      using False Cons.prems(2) by simp
    ultimately show ?thesis
      using False Cons.IH [OF ok(2)] Cons.prems(2,3) by (simp add: chain_get_append)
  qed
qed simp

lemma set_list_update_all:
  assumes "\<forall>x \<in> set xs. P x" and "P y"
  shows "\<forall>x \<in> set (xs[i := y]). P x"
  using assms set_update_subset_insert [of xs i y] by blast

lemma rehash_chain_all:
  assumes "\<forall>c \<in> set new_nodes. \<forall>node \<in> set c. P node" and "\<forall>node \<in> set ch. P node"
    and "0 < n" and "n \<le> INT_MAX" and "length new_nodes = nat n"
  shows "\<forall>c \<in> set (rehash_chain n ch new_nodes). \<forall>node \<in> set c. P node"
  using assms(1,2,5)
proof (induction ch arbitrary: new_nodes)
  case (Cons node ch)
  let ?idx = "hash_idx (hkey node) n"
  have "?idx < length new_nodes"
    using hash_idx_less [OF assms(3,4)] Cons.prems(3) by simp
  then have "\<forall>nd \<in> set (node # new_nodes ! ?idx). P nd"
    using Cons.prems(1,2) nth_mem by fastforce
  then have "\<forall>c \<in> set (new_nodes[?idx := node # new_nodes ! ?idx]). \<forall>nd \<in> set c. P nd"
    by (rule set_list_update_all [OF Cons.prems(1)])
  then show ?case
    using Cons.IH Cons.prems(2,3) by (simp add: Let_def)
qed simp

subsection \<open>Replacing one slot\<close>

lemma hash_inv_replace:
  assumes inv: "hash_inv h" and old: "nodes h ! hash_idx k (max_slots h) = Some ch"
    and new: "slot_ok (max_slots h) (hash_idx k (max_slots h)) (Some ch')"
  shows "hash_inv (h\<lparr>nodes := (nodes h)[hash_idx k (max_slots h) := Some ch'],
                     count := count h + int (length ch') - int (length ch), lock := l\<rparr>)"
proof -
  have idx: "hash_idx k (max_slots h) < length (nodes h)"
    using inv by (rule hash_inv_idx)
  have "int (sum_list (map slot_len ((nodes h)[hash_idx k (max_slots h) := Some ch']))) =
      int (sum_list (map slot_len (nodes h))) - int (length ch) + int (length ch')"
    using idx old
      sum_list_update_nat [of "hash_idx k (max_slots h)" "map slot_len (nodes h)" "length ch'"]
    by (simp add: map_update)
  then show ?thesis
    using inv new idx by (auto simp: hash_inv_def nth_list_update simp del: slot_ok.simps)
qed

lemma hash_abs_replace:
  assumes "hash_inv h" and "nodes h ! hash_idx k (max_slots h) = Some ch"
    and "\<And>k'. chain_get k' ch' = (if k' = k then x else chain_get k' ch)"
  shows "hash_abs (h\<lparr>nodes := (nodes h)[hash_idx k (max_slots h) := Some ch'], count := c, lock := l\<rparr>)
           = (hash_abs h)(k := x)"
  using assms hash_inv_idx [OF assms(1), of k]
  by (auto simp: hash_abs_def fun_eq_iff nth_list_update)

lemma hash_full_replace:
  assumes "hash_full h" and "\<forall>node \<in> set ch'. hvalue node \<noteq> None"
  shows "hash_full (h\<lparr>nodes := (nodes h)[i := Some ch'], count := c, lock := l\<rparr>)"
  using assms set_list_update_all [of "nodes h" "\<lambda>slot. \<forall>ch. slot = Some ch \<longrightarrow>
      (\<forall>node \<in> set ch. hvalue node \<noteq> None)" "Some ch'" i]
  by (simp add: hash_full_def)

lemma hash_full_slot:
  assumes "hash_full h" and "hash_inv h" and "nodes h ! hash_idx k (max_slots h) = Some ch"
  shows "\<forall>node \<in> set ch. hvalue node \<noteq> None"
  using assms nth_mem [OF hash_inv_idx [OF assms(2), of k]] by (auto simp: hash_full_def)

lemma chain_get_full:
  "\<forall>node \<in> set ch. hvalue node \<noteq> None \<Longrightarrow> chain_get k ch \<noteq> None \<longleftrightarrow> k \<in> chain_keys ch"
  by (induction ch) auto

lemma hash_full_abs:
  assumes "hash_full h" and "hash_inv h" and "nodes h ! hash_idx k (max_slots h) = Some ch"
  shows "hash_abs h k \<noteq> None \<longleftrightarrow> k \<in> chain_keys ch"
  using assms(3) chain_get_full [OF hash_full_slot [OF assms]] by (simp add: hash_abs_def)

lemma hash_lock_irrelevant [simp]:
  "hash_inv (h\<lparr>lock := l\<rparr>) = hash_inv h" "hash_abs (h\<lparr>lock := l\<rparr>) = hash_abs h"
  "hash_full (h\<lparr>lock := l\<rparr>) = hash_full h"
  by (simp_all add: hash_inv_def hash_abs_def hash_full_def fun_eq_iff)

section \<open>The operations on well-formed tables\<close>

subsection \<open>Doubling\<close>

definition table_chains :: "hashtable \<Rightarrow> chain list" where
  "table_chains h = map the (nodes h)"

definition resized :: "hashtable \<Rightarrow> hashtable" where
  "resized h =
     (let n = max_slots h * 2
      in h\<lparr>nodes := map Some (rehash_chain n (concat (table_chains h)) (replicate (nat n) [])),
           max_slots := n\<rparr>)"

lemma table_chains_ok:
  assumes "hash_inv h"
  shows "nodes h = map Some (table_chains h)"
    and "\<forall>i < length (table_chains h). slot_ok (max_slots h) (0 + i) (Some (table_chains h ! i))"
proof -
  have ok: "nodes h ! i = Some (the (nodes h ! i)) \<and> slot_ok (max_slots h) i (nodes h ! i)"
    if "i < length (nodes h)" for i
  proof -
    have "slot_ok (max_slots h) i (nodes h ! i)"
      using assms that by (simp add: hash_inv_def)
    then show ?thesis by (cases "nodes h ! i") simp_all
  qed
  then show "nodes h = map Some (table_chains h)"
    by (simp add: table_chains_def list_eq_iff_nth_eq)
  show "\<forall>i < length (table_chains h). slot_ok (max_slots h) (0 + i) (Some (table_chains h ! i))"
  proof (intro allI impI)
    fix i assume "i < length (table_chains h)"
    then show "slot_ok (max_slots h) (0 + i) (Some (table_chains h ! i))"
      using ok [of i] by (simp add: table_chains_def del: slot_ok.simps)
  qed
qed

lemma resized_keeps [simp]:
  "count (resized h) = count h" "lock (resized h) = lock h" "max_slots (resized h) = max_slots h * 2"
  by (simp_all add: resized_def Let_def)

lemma double_slots:
  assumes "hash_inv h" and "max_slots h * 2 \<le> INT_MAX"
  shows "\<exists>j \<le> 20. max_slots h * 2 = 1024 * 2 ^ j"
proof -
  obtain j :: nat where j: "j \<le> 20" "max_slots h = 1024 * 2 ^ j"
    using assms(1) by (auto simp: hash_inv_def)
  moreover have "j \<noteq> 20"
    using assms(2) j by auto
  ultimately show ?thesis
    by (intro exI [of _ "Suc j"]) auto
qed

lemma resized_inv:
  assumes inv: "hash_inv h" and room: "max_slots h * 2 \<le> INT_MAX"
  shows "hash_inv (resized h)"
proof -
  let ?n = "max_slots h * 2"
  let ?new = "rehash_chain ?n (concat (table_chains h)) (replicate (nat ?n) [])"
  have n: "0 < ?n"
    using hash_inv_slots [OF inv] by simp
  have len: "length (replicate (nat ?n) ([] :: chain)) = nat ?n"
    by simp
  have "\<forall>i < nat ?n. slot_ok ?n i (Some (?new ! i))"
    using rehash_chain_ok [OF n room len distinct_concat_slots [OF table_chains_ok(2) [OF inv]]]
    by simp
  moreover have "sum_list (map slot_len (map Some ?new)) = length (concat (table_chains h))"
    using rehash_chain_len [OF n room len] by (simp add: comp_def sum_list_replicate)
  moreover have "count h = int (sum_list (map length (table_chains h)))"
    using inv table_chains_ok(1) [OF inv] by (simp add: hash_inv_def comp_def)
  moreover have "\<exists>j \<le> 20. ?n = 1024 * 2 ^ j"
    by (rule double_slots [OF inv room])
  ultimately show ?thesis
    using n room by (simp add: hash_inv_def resized_def Let_def length_concat del: slot_ok.simps)
qed

lemma resized_abs:
  assumes inv: "hash_inv h" and room: "max_slots h * 2 \<le> INT_MAX"
  shows "hash_abs (resized h) = hash_abs h"
proof
  fix k
  let ?n = "max_slots h * 2"
  let ?chs = "table_chains h"
  have n: "0 < ?n"
    using hash_inv_slots [OF inv] by simp
  have len: "length (replicate (nat ?n) ([] :: chain)) = nat ?n"
    by simp
  have idx: "hash_idx k ?n < nat ?n" "hash_idx k (max_slots h) < length ?chs"
    using hash_idx_less [OF n room] hash_inv_idx [OF inv] by (simp_all add: table_chains_def)
  have "hash_abs (resized h) k = chain_get k (concat ?chs)"
    using rehash_chain_get [OF n room len distinct_concat_slots [OF table_chains_ok(2) [OF inv]], of k]
      idx(1) by (simp add: hash_abs_def resized_def Let_def)
  also have "\<dots> = chain_get k (?chs ! hash_idx k (max_slots h))"
    using chain_get_concat_slots [OF table_chains_ok(2) [OF inv], of k] idx(2) by simp
  also have "\<dots> = hash_abs h k"
    using table_chains_ok(1) [OF inv] idx(2) by (simp add: hash_abs_def)
  finally show "hash_abs (resized h) k = hash_abs h k" .
qed

lemma resized_full:
  assumes inv: "hash_inv h" and room: "max_slots h * 2 \<le> INT_MAX" and full: "hash_full h"
  shows "hash_full (resized h)"
proof -
  let ?n = "max_slots h * 2"
  have "\<forall>node \<in> set (concat (table_chains h)). hvalue node \<noteq> None"
    using full table_chains_ok(1) [OF inv] by (auto simp: hash_full_def)
  then have "\<forall>c \<in> set (rehash_chain ?n (concat (table_chains h)) (replicate (nat ?n) [])).
      \<forall>node \<in> set c. hvalue node \<noteq> None"
    using hash_inv_slots [OF inv] room by (intro rehash_chain_all) auto
  then show ?thesis
    by (auto simp: hash_full_def resized_def Let_def)
qed

lemma hash_inv_table: "hash_inv h \<Longrightarrow> table_ptr h = Some ()" "hash_inv h \<Longrightarrow> max_slots h \<noteq> 0"
  using hash_inv_slots [of h] by (auto simp: table_ptr_def hash_inv_def)

lemma slot_inv:
  "hash_inv h \<Longrightarrow> nodes h ! hash_idx k (max_slots h) = Some ch \<Longrightarrow>
     slot h k = Inr (hash_idx k (max_slots h), ch)"
  using hash_inv_idx [of h k] hash_inv_table(2) [of h] by (simp add: slot_def)

lemma slot_lock [simp]: "slot (h\<lparr>lock := l\<rparr>) k = slot h k"
  by (simp add: slot_def Let_def)

lemma resize_hashtable_eq:
  assumes inv: "hash_inv h" and room: "max_slots h * 2 \<le> INT_MAX"
  shows "resize_hashtable h m =
           (let (ok, m1) = kvstore_malloc (8 * nat (max_slots h * 2)) m
            in if ok then Inr (0, resized h, kvstore_free (Some ()) m1) else Inr (- 1, h, m1))"
proof -
  have "\<forall>slot \<in> set (nodes h). slot \<noteq> None"
    using table_chains_ok(1) [OF inv] by (metis ex_map_conv option.distinct(1))
  then show ?thesis
    using room hash_inv_table(1) [OF inv]
    by (simp add: resize_hashtable_def resized_def Let_def rehash_slots_concat table_chains_def
        split: prod.splits)
qed

subsection \<open>Storing, reading, deleting, modifying\<close>

text \<open>A table that can still double, or does not have to.\<close>

definition hash_room :: "hashtable \<Rightarrow> bool" where
  "hash_room h \<longleftrightarrow> load_exceeded (count h) (max_slots h) \<longrightarrow> max_slots h * 2 \<le> INT_MAX"

definition maybe_resize :: "hashtable \<Rightarrow> mem \<Rightarrow> (int \<times> hashtable \<times> mem) res" where
  "maybe_resize h m =
     (if load_exceeded (count h) (max_slots h) then resize_hashtable h m else Inr (0, h, m))"

lemma maybe_resize_ok:
  assumes "hash_inv h" and "hash_room h"
  obtains r h' m' where "maybe_resize h m = Inr (r, h', m')" "hash_inv h'" "hash_abs h' = hash_abs h"
    "count h' = count h" "lock h' = lock h" "hash_full h \<Longrightarrow> hash_full h'"
    "mem_live m' = mem_live m" "mem_good m' = mem_good m"
proof (cases "load_exceeded (count h) (max_slots h)")
  case False
  with assms show thesis by (intro that [of 0 h m]) (simp_all add: maybe_resize_def)
next
  case True
  then have room: "max_slots h * 2 \<le> INT_MAX"
    using assms(2) by (simp add: hash_room_def)
  obtain ok m1 where m1: "kvstore_malloc (8 * nat (max_slots h * 2)) m = (ok, m1)"
    by (metis surj_pair)
  then have live: "mem_live m1 = mem_live m + (if ok then 1 else 0)" "mem_good m1 = mem_good m"
    using kvstore_malloc_keeps(3) [of "8 * nat (max_slots h * 2)" m]
    by (auto simp: kvstore_malloc_def Let_def)
  show thesis
    using True assms resize_hashtable_eq [OF assms(1) room, of m] m1 live room
    by (intro that [of "if ok then 0 else - 1" "if ok then resized h else h"
          "if ok then kvstore_free (Some ()) m1 else m1"])
       (simp_all add: maybe_resize_def resized_inv resized_abs resized_full kvstore_free_live)
qed

lemma create_node_good:
  "mem_good m \<Longrightarrow> create_node k v m =
     (Some \<lparr>hkey = k, hvalue = Some v\<rparr>,
      m\<lparr>mem_next := mem_next m + 3, mem_live := mem_live m + 3\<rparr>)"
  by (simp add: create_node_def kvstore_malloc_good Let_def)

lemma put_kv_hashtable_unfold:
  "\<not> lock h \<Longrightarrow> put_kv_hashtable h (Some k) (Some v) m =
     rbind (maybe_resize (h\<lparr>lock := True\<rparr>) m)
       (\<lambda>(_, h, m). rbind (slot h k) (\<lambda>(idx, ch).
          case overwrite k v ch m of
            Some (ok, ch', m1) \<Rightarrow>
              Inr (if ok then 0 else - 1,
                   h\<lparr>nodes := (nodes h)[idx := Some ch'], lock := False\<rparr>, m1)
          | None \<Rightarrow>
              (case create_node k v m of
                 (None, m1) \<Rightarrow> Inl Null_Deref
               | (Some new_node, m1) \<Rightarrow>
                   Inr (0, h\<lparr>nodes := (nodes h)[idx := Some (new_node # ch)],
                             count := count h + 1, lock := False\<rparr>, m1))))"
  by (simp add: put_kv_hashtable_def maybe_resize_def)

text \<open>Pushing a node with a new key on its chain; giving an existing node another value.\<close>

lemma push_node_ok:
  fixes v :: string and l :: bool
  assumes inv: "hash_inv h" and full: "hash_full h"
    and ch: "nodes h ! hash_idx k (max_slots h) = Some ch" and k: "k \<notin> chain_keys ch"
  defines "h' \<equiv> h\<lparr>nodes := (nodes h)[hash_idx k (max_slots h) := Some (\<lparr>hkey = k, hvalue = Some v\<rparr> # ch)],
                  count := count h + 1, lock := l\<rparr>"
  shows "hash_inv h'" and "hash_full h'" and "hash_abs h' = (hash_abs h)(k \<mapsto> v)" and "hash_abs h k = None"
proof -
  let ?ch = "\<lparr>hkey = k, hvalue = Some v\<rparr> # ch"
  have ok: "slot_ok (max_slots h) (hash_idx k (max_slots h)) (Some ?ch)"
    using hash_inv_slot [OF inv, of k] ch k by (metis slot_ok_push slot_ok.simps(2) hashnode.select_convs(1) option.inject)
  show "hash_inv h'"
    using hash_inv_replace [OF inv ch ok] by (simp add: h'_def)
  show "hash_full h'"
    using hash_full_slot [OF full inv ch] unfolding h'_def by (intro hash_full_replace [OF full]) simp
  show "hash_abs h' = (hash_abs h)(k \<mapsto> v)"
    unfolding h'_def by (rule hash_abs_replace [OF inv ch]) simp
  show "hash_abs h k = None"
    using hash_full_abs [OF full inv ch] k by simp
qed

lemma overwrite_ok:
  fixes l :: bool
  assumes inv: "hash_inv h" and full: "hash_full h" and mem: "mem_good m"
    and ch: "nodes h ! hash_idx k (max_slots h) = Some ch"
    and ow: "overwrite k v ch m = Some (ok, ch', m')"
  defines "h' \<equiv> h\<lparr>nodes := (nodes h)[hash_idx k (max_slots h) := Some ch'], lock := l\<rparr>"
  shows "hash_inv h'" and "hash_full h'" and "hash_abs h' = (hash_abs h)(k \<mapsto> v)" and "hash_abs h k \<noteq> None"
    and "ok" and "mem_good m'" and "mem_live m' = mem_live m"
proof -
  note shape = overwrite_shape [OF ow] and good = overwrite_good [OF mem ow]
    and live = overwrite_live [OF mem ow hash_full_slot [OF full inv ch]]
  have len: "length ch' = length ch"
    using shape by (metis length_map)
  have "slot_ok (max_slots h) (hash_idx k (max_slots h)) (Some ch)"
    using hash_inv_slot [OF inv, of k] ch by (metis slot_ok.simps(2) option.inject)
  then have ok: "slot_ok (max_slots h) (hash_idx k (max_slots h)) (Some ch')"
    using shape by (auto simp del: image_hkey) (metis image_iff list.set_map)
  show "hash_inv h'"
    using hash_inv_replace [OF inv ch ok, of l] len by (simp add: h'_def)
  show "hash_full h'"
    using hash_full_replace [OF full, where ch' = ch' and c = "count h"] live by (simp add: h'_def)
  show "hash_abs h' = (hash_abs h)(k \<mapsto> v)"
    using hash_abs_replace [OF inv ch, where ch' = ch' and x = "Some v" and c = "count h"] shape good by (simp add: h'_def)
  show "hash_abs h k \<noteq> None"
    using hash_full_abs [OF full inv ch] shape by simp
  show "ok" "mem_good m'" "mem_live m' = mem_live m"
    using good live by auto
qed

lemma put_ok:
  assumes inv: "hash_inv h" and full: "hash_full h" and unlocked: "\<not> lock h"
    and room: "hash_room h" and mem: "mem_good m"
  obtains h' m' where "put_kv_hashtable h (Some k) (Some v) m = Inr (0, h', m')"
    "hash_inv h'" "hash_full h'" "\<not> lock h'" "mem_good m'" "hash_abs h' = (hash_abs h)(k \<mapsto> v)"
    "count h' = count h + (if hash_abs h k = None then 1 else 0)"
    "mem_live m' = mem_live m + (if hash_abs h k = None then 3 else 0)"
proof -
  have "hash_inv (h\<lparr>lock := True\<rparr>)" "hash_room (h\<lparr>lock := True\<rparr>)"
    using inv room by (simp_all add: hash_room_def)
  then obtain r h1 m1 where s1: "maybe_resize (h\<lparr>lock := True\<rparr>) m = Inr (r, h1, m1)"
    and h1: "hash_inv h1" "hash_full h1" "hash_abs h1 = hash_abs h" "count h1 = count h"
    and m1: "mem_live m1 = mem_live m" "mem_good m1"
    using full mem by (elim maybe_resize_ok [of "h\<lparr>lock := True\<rparr>" m]) simp_all
  obtain ch where ch: "nodes h1 ! hash_idx k (max_slots h1) = Some ch"
    using hash_inv_slot [OF h1(1)] by metis
  show thesis
  proof (cases "overwrite k v ch m1")
    case None
    then have k: "k \<notin> chain_keys ch"
      by (simp add: overwrite_None)
    note push = push_node_ok(1-3) [OF h1(1,2) ch k, where v = v and l = False]
      push_node_ok(4) [OF h1(1,2) ch k]
    show ?thesis
      by (rule that [of _ "m1\<lparr>mem_next := mem_next m1 + 3, mem_live := mem_live m1 + 3\<rparr>", OF _ push(1,2)])
         (use None s1 h1 m1 slot_inv [OF h1(1) ch] unlocked push in
           \<open>simp_all add: put_kv_hashtable_unfold create_node_good Let_def\<close>)
  next
    case (Some x)
    then obtain ok ch' m2 where x: "overwrite k v ch m1 = Some (ok, ch', m2)"
      by (cases x) auto
    note ow = overwrite_ok(1-3) [OF h1(1,2) m1(2) ch x, where l = False]
      overwrite_ok(4-7) [OF h1(1,2) m1(2) ch x]
    show ?thesis
      by (rule that [of _ m2, OF _ ow(1,2)])
         (use x s1 h1 m1 slot_inv [OF h1(1) ch] unlocked ow in \<open>simp_all add: put_kv_hashtable_unfold Let_def\<close>)
  qed
qed

lemma get_ok:
  assumes "hash_inv h" and "\<not> lock h"
  shows "get_kv_hashtable h (Some k) = Inr (hash_abs h k, h)"
proof -
  obtain ch where ch: "nodes h ! hash_idx k (max_slots h) = Some ch"
    using hash_inv_slot [OF assms(1)] by metis
  with assms(2) hash_inv_table(2) [OF assms(1)] slot_inv [OF assms(1) ch] show ?thesis
    by (simp add: get_kv_hashtable_def hash_abs_def)
qed

text \<open>Below this many keys the table can always double when it has to.\<close>

definition hash_cap :: nat where "hash_cap = 751619276"

lemma hash_room_below_cap:
  assumes "hash_inv h" and "count h < int hash_cap"
  shows "hash_room h"
proof -
  obtain j :: nat where j: "j \<le> 20" "max_slots h = 1024 * 2 ^ j"
    using assms(1) by (auto simp: hash_inv_def)
  show ?thesis
  proof (cases "j = 20")
    case True
    with assms(2) j show ?thesis
      by (simp add: hash_room_def load_exceeded_def hash_cap_def)
  next
    case False
    with j(1) have "(2 :: int) ^ j \<le> 2 ^ 19"
      by (intro power_increasing) simp_all
    with j(2) show ?thesis by (simp add: hash_room_def)
  qed
qed

lemma delete_unfold:
  assumes "hash_inv h" and "\<not> lock h" and "nodes h ! hash_idx k (max_slots h) = Some ch"
  shows "delete_kv_hashtable h (Some k) m =
     (if ch = [] then Inr (- 1, h\<lparr>lock := True\<rparr>, m)
      else case unlink_next k ch m of
             None \<Rightarrow> Inr (- 1, h, m)
           | Some (ch', m') \<Rightarrow>
               Inr (0, h\<lparr>nodes := (nodes h)[hash_idx k (max_slots h) := Some ch'],
                         count := count h - 1\<rparr>, m'))"
  using assms(2) hash_inv_table(2) [OF assms(1)] slot_inv [OF assms(1,3)]
  by (cases ch) (auto simp: delete_kv_hashtable_def split: option.splits)

lemma unlink_ok:
  assumes inv: "hash_inv h" and full: "hash_full h"
    and ch: "nodes h ! hash_idx k (max_slots h) = Some ch"
    and ul: "unlink_next k ch m = Some (ch', m')"
  defines "h' \<equiv> h\<lparr>nodes := (nodes h)[hash_idx k (max_slots h) := Some ch'], count := count h - 1\<rparr>"
  shows "hash_inv h'" and "hash_full h'" and "hash_abs h' = (hash_abs h)(k := None)"
    and "mem_live m' = mem_live m - 3" and "mem_good m' = mem_good m"
proof -
  have slot: "distinct (map hkey ch)"
    "\<forall>node \<in> set ch. hash_idx (hkey node) (max_slots h) = hash_idx k (max_slots h)"
    using hash_inv_slot [OF inv, of k] ch by (metis option.inject)+
  note shape = unlink_next_shape [OF ul slot(1)]
  have ok: "slot_ok (max_slots h) (hash_idx k (max_slots h)) (Some ch')"
    using shape slot(2) by auto
  show "hash_inv h'"
    using hash_inv_replace [OF inv ch ok, of "lock h"] shape by (simp add: h'_def)
  show "hash_full h'"
    using hash_full_replace [OF full, where ch' = ch' and c = "count h - 1" and l = "lock h"] shape
      hash_full_slot [OF full inv ch] by (auto simp: h'_def)
  show "hash_abs h' = (hash_abs h)(k := None)"
    using hash_abs_replace [OF inv ch, where ch' = ch' and x = None and c = "count h - 1" and l = "lock h"]
      shape by (simp add: h'_def)
  show "mem_live m' = mem_live m - 3" "mem_good m' = mem_good m"
    using unlink_next_live [OF ul hash_full_slot [OF full inv ch]] by simp_all
qed

lemma delete_present:
  assumes inv: "hash_inv h" and full: "hash_full h" and unlocked: "\<not> lock h"
    and k: "hash_abs h k \<noteq> None"
  obtains h' m' where "delete_kv_hashtable h (Some k) m = Inr (0, h', m')"
    "hash_inv h'" "hash_full h'" "\<not> lock h'" "mem_good m' = mem_good m"
    "hash_abs h' = (hash_abs h)(k := None)" "count h' = count h - 1" "mem_live m' = mem_live m - 3"
proof -
  obtain ch where ch: "nodes h ! hash_idx k (max_slots h) = Some ch"
    using hash_inv_slot [OF inv] by metis
  have "k \<in> chain_keys ch"
    using hash_full_abs [OF full inv ch] k by simp
  then obtain ch' m' where ul: "unlink_next k ch m = Some (ch', m')"
    by (cases "unlink_next k ch m") (auto simp: unlink_next_None)
  moreover from this have "ch \<noteq> []"
    by (cases ch) simp_all
  ultimately show thesis
    using unlink_ok [OF inv full ch ul] delete_unfold [OF inv unlocked ch] unlocked by (intro that [of "h\<lparr>nodes := (nodes h)[hash_idx k (max_slots h) := Some ch'],
                          count := count h - 1\<rparr>" m']) auto
qed

text \<open>Deleting an absent key: -1, and the mutex stays locked exactly if the slot is empty.\<close>

lemma delete_absent:
  assumes inv: "hash_inv h" and full: "hash_full h" and unlocked: "\<not> lock h"
    and k: "hash_abs h k = None"
  shows "delete_kv_hashtable h (Some k) m =
           Inr (- 1, h\<lparr>lock := nodes h ! hash_idx k (max_slots h) = Some []\<rparr>, m)"
proof -
  obtain ch where ch: "nodes h ! hash_idx k (max_slots h) = Some ch"
    using hash_inv_slot [OF inv] by metis
  have "unlink_next k ch m = None"
    using hash_full_abs [OF full inv ch] k by (simp add: unlink_next_None)
  with delete_unfold [OF inv unlocked ch] ch unlocked show ?thesis by simp
qed

lemma modify_present:
  assumes inv: "hash_inv h" and full: "hash_full h" and mem: "mem_good m" and k: "hash_abs h k \<noteq> None"
  obtains h' m' where "kvs_hash_modify h (Some k) (Some v) m = Inr (0, h', m')"
    "hash_inv h'" "hash_full h'" "lock h' = lock h" "mem_good m'"
    "hash_abs h' = (hash_abs h)(k \<mapsto> v)" "count h' = count h" "mem_live m' = mem_live m"
proof -
  obtain ch where ch: "nodes h ! hash_idx k (max_slots h) = Some ch"
    using hash_inv_slot [OF inv] by metis
  have "k \<in> chain_keys ch"
    using hash_full_abs [OF full inv ch] k by simp
  then obtain ok ch' m' where ow: "overwrite k v ch m = Some (ok, ch', m')"
    by (cases "overwrite k v ch m") (auto simp: overwrite_None)
  let ?h = "h\<lparr>nodes := (nodes h)[hash_idx k (max_slots h) := Some ch']\<rparr>"
  have lock: "?h\<lparr>lock := lock h\<rparr> = ?h" by simp
  note ok = overwrite_ok(1-3) [OF inv full mem ch ow, where l = "lock h", unfolded lock]
    overwrite_ok(4-7) [OF inv full mem ch ow]
  show thesis
    by (rule that [of ?h m', OF _ ok(1,2)]) (use ok ow slot_inv [OF inv ch] in \<open>simp_all add: kvs_hash_modify_def\<close>)
qed

lemma modify_absent:
  assumes inv: "hash_inv h" and full: "hash_full h" and k: "hash_abs h k = None"
  shows "kvs_hash_modify h (Some k) (Some v) m = Inr (- 1, h, m)"
proof -
  obtain ch where ch: "nodes h ! hash_idx k (max_slots h) = Some ch"
    using hash_inv_slot [OF inv] by metis
  have "overwrite k v ch m = None"
    using hash_full_abs [OF full inv ch] k by (simp add: overwrite_None)
  with slot_inv [OF inv ch] show ?thesis by (simp add: kvs_hash_modify_def)
qed

subsection \<open>Creation and destruction\<close>

lemma init_ok:
  assumes "mem_ok m (mem_next m) 8192" and "mem_zero m (mem_next m)"
  obtains h' m' where "init_hashtable h m = (0, h', m')" "hash_inv h'" "hash_full h'" "\<not> lock h'"
    "hash_abs h' = (\<lambda>_. None)" "count h' = 0" "mem_live m' = mem_live m + 1" "mem_good m' = mem_good m"
proof -
  let ?h = "\<lparr>nodes = replicate 1024 (Some []), max_slots = 1024, count = 0, lock = False\<rparr> :: hashtable"
  have inv: "hash_inv ?h"
    by (auto simp: hash_inv_def sum_list_replicate intro: exI [of _ 0])
  have abs: "hash_abs ?h = (\<lambda>_. None)"
    using hash_inv_idx [OF inv] by (auto simp: hash_abs_def fun_eq_iff)
  show thesis
    using assms inv abs kvstore_malloc_keeps(3) [of 8192 m]
    by (intro that [of ?h "snd (kvstore_malloc 8192 m)"])
       (simp_all add: init_hashtable_def kvstore_malloc_def MAX_TABLE_SIZE_def hash_full_def Let_def)
qed

lemma dest_chain_live: "mem_live (dest_chain ch m) = mem_live m - int (length ch)"
  by (induction ch arbitrary: m) (simp_all add: kvstore_free_live)

lemma dest_slots_live:
  "\<forall>slot \<in> set slots. slot \<noteq> None \<Longrightarrow>
     \<exists>m'. dest_slots slots m = Inr m' \<and> mem_live m' = mem_live m - int (sum_list (map slot_len slots))"
proof (induction slots m rule: dest_slots.induct)
  case (3 ch slots m)
  then obtain m' where "dest_slots slots (dest_chain ch m) = Inr m'"
    "mem_live m' = mem_live (dest_chain ch m) - int (sum_list (map slot_len slots))"
    by auto
  then show ?case by (simp add: dest_chain_live)
qed simp_all

lemma dest_ok:
  assumes "hash_inv h"
  obtains m' where "dest_hashtable h m = Inr m'" "mem_live m' = mem_live m - count h - 1"
proof -
  have "\<forall>slot \<in> set (nodes h). slot \<noteq> None"
    using table_chains_ok(1) [OF assms] by (metis ex_map_conv option.distinct(1))
  then obtain m1 where "dest_slots (nodes h) m = Inr m1"
    "mem_live m1 = mem_live m - int (sum_list (map slot_len (nodes h)))"
    using dest_slots_live by blast
  then show thesis
    using assms hash_inv_table(1) [OF assms] by (intro that [of "kvstore_free (Some ()) m1"])
      (simp_all add: dest_hashtable_def hash_inv_def kvstore_free_live)
qed

text \<open>The table \<open>init_hashtable\<close> makes on zeroed memory.\<close>

definition empty_hash :: hashtable where
  "empty_hash = \<lparr>nodes = replicate 1024 (Some []), max_slots = 1024, count = 0, lock = False\<rparr>"

lemma empty_hash_ok [simp]:
  "hash_inv empty_hash" "hash_full empty_hash" "\<not> lock empty_hash" "count empty_hash = 0"
  by (auto simp: empty_hash_def hash_inv_def hash_full_def sum_list_replicate intro: exI [of _ 0])

lemma empty_hash_slot: "nodes empty_hash ! hash_idx k (max_slots empty_hash) = Some []"
  using hash_inv_idx [OF empty_hash_ok(1), of k] by (simp add: empty_hash_def)

lemma empty_hash_abs [simp]: "hash_abs empty_hash k = None"
  by (simp add: hash_abs_def empty_hash_slot)

text \<open>A table that stores one key.\<close>

definition one_hash :: hashtable where
  "one_hash = empty_hash\<lparr>
     nodes := (nodes empty_hash)[hash_idx ''a'' (max_slots empty_hash) := Some [\<lparr>hkey = ''a'', hvalue = Some ''1''\<rparr>]],
     count := count empty_hash + 1, lock := False\<rparr>"

lemma one_hash_ok [simp]: "hash_inv one_hash" "hash_full one_hash" "\<not> lock one_hash" "count one_hash = 1"
  using push_node_ok(1,2) [OF empty_hash_ok(1,2) empty_hash_slot, where v = "''1''" and l = False]
  by (simp_all add: one_hash_def)

lemma one_hash_get: "kvs_hash_get one_hash (Some ''a'') = Inr (Some ''1'', one_hash)"
  using push_node_ok(3) [OF empty_hash_ok(1,2) empty_hash_slot, where v = "''1''" and l = False]
    get_ok [OF one_hash_ok(1,3)]
  by (simp add: kvs_hash_get_def one_hash_def)

section \<open>The hash engine meets the engine contract\<close>

definition hash_engine :: "hashtable engine" where
  "hash_engine = \<lparr>eng_set = kvs_hash_set, eng_get = kvs_hash_get,
                  eng_del = kvs_hash_delete, eng_mod = kvs_hash_modify\<rparr>"

definition hash_ready :: "hashtable \<Rightarrow> bool" where
  "hash_ready h \<longleftrightarrow> hash_inv h \<and> hash_full h \<and> \<not> lock h"

definition hash_used :: "hashtable \<Rightarrow> nat" where
  "hash_used h = nat (kvs_hash_count h)"

lemma hash_count_nonneg: "hash_inv h \<Longrightarrow> 0 \<le> count h"
  by (simp add: hash_inv_def)

interpretation hsh: kv_map_engine hash_engine hash_ready hash_abs hash_used hash_cap "- 1"
proof (unfold_locales, goal_cases)
  case (1 s m k v)
  then have s: "hash_inv s" "hash_full s" "\<not> lock s" "count s < int hash_cap"
    by (simp_all add: hash_ready_def hash_used_def kvs_hash_count_def)
  obtain h' m' where h': "put_kv_hashtable s (Some k) (Some v) m = Inr (0, h', m')" "hash_inv h'"
    "hash_full h'" "\<not> lock h'" "mem_good m'" "hash_abs h' = (hash_abs s)(k \<mapsto> v)"
    "count h' = count s + (if hash_abs s k = None then 1 else 0)"
    by (rule put_ok [OF s(1-3) hash_room_below_cap [OF s(1,4)] 1(2), of k v])
  have "count h' = count s + 1"
    using h'(7) 1(4) by simp
  then have "hash_used h' = Suc (hash_used s)"
    using hash_count_nonneg [OF s(1)] by (simp add: hash_used_def kvs_hash_count_def)
  with h' show ?case
    by (simp add: hash_engine_def kvs_hash_set_def hash_ready_def)
next
  case (2 s k)
  then show ?case
    using get_ok [of s k] by (simp add: hash_engine_def kvs_hash_get_def hash_ready_def)
next
  case (3 s m k)
  then have s: "hash_inv s" "hash_full s" "\<not> lock s"
    by (auto simp: hash_ready_def)
  obtain h' m' where h': "delete_kv_hashtable s (Some k) m = Inr (0, h', m')" "hash_inv h'"
    "hash_full h'" "\<not> lock h'" "mem_good m' = mem_good m" "hash_abs h' = (hash_abs s)(k := None)"
    "count h' = count s - 1"
    by (rule delete_present [OF s 3(3), of m])
  then have "Suc (hash_used h') = hash_used s"
    using hash_count_nonneg [of h'] by (simp add: hash_used_def kvs_hash_count_def)
  with h' 3(2) show ?case
    by (simp add: hash_engine_def kvs_hash_delete_def hash_ready_def)
next
  case (4 s m k v)
  then have s: "hash_inv s" "hash_full s" "\<not> lock s"
    by (auto simp: hash_ready_def)
  obtain h' m' where h': "kvs_hash_modify s (Some k) (Some v) m = Inr (0, h', m')" "hash_inv h'"
    "hash_full h'" "lock h' = lock s" "mem_good m'" "hash_abs h' = (hash_abs s)(k \<mapsto> v)" "count h' = count s"
    by (rule modify_present [OF s(1,2) 4(2,3), of v])
  then have "hash_used h' = hash_used s"
    by (simp add: hash_used_def kvs_hash_count_def)
  with h' s(3) show ?case
    by (simp add: hash_engine_def hash_ready_def)
next
  case (5 s k v m)
  then show ?case
    using modify_absent [of s k v m] by (simp add: hash_engine_def hash_ready_def)
next
  case 6
  show ?case by simp
next
  case (7 s m k v)
  then have s: "hash_inv s" "hash_full s" "\<not> lock s" "count s < int hash_cap"
    by (simp_all add: hash_ready_def hash_used_def kvs_hash_count_def)
  obtain h' m' where h': "put_kv_hashtable s (Some k) (Some v) m = Inr (0, h', m')" "hash_inv h'"
    "hash_full h'" "\<not> lock h'" "mem_good m'" "hash_abs h' = (hash_abs s)(k \<mapsto> v)"
    "count h' = count s + (if hash_abs s k = None then 1 else 0)"
    by (rule put_ok [OF s(1-3) hash_room_below_cap [OF s(1,4)] 7(2), of k v])
  then have "hash_used h' = hash_used s"
    using 7(4) by (simp add: hash_used_def kvs_hash_count_def)
  with h' show ?case
    by (simp add: hash_engine_def kvs_hash_set_def hash_ready_def)
qed

section \<open>Properties\<close>

text \<open>
  C10: storing a key in a well-formed, unlocked table with room returns 0, keeps the table well formed
  and unlocked, makes later reads of the key return the new value and leaves every other key's value
  alone, whether the key is new, already there, or its insertion doubled the table. A new key adds one to the
  count and three blocks to the allocated memory (node, key and value); a stored one adds nothing, since the
  old value is freed.
\<close>

theorem hash_set_spec:
  assumes "hash_inv h" and "hash_full h" and "\<not> lock h" and "count h < int hash_cap" and "mem_good m"
  shows "\<exists>h' m'. kvs_hash_set h (Some k) (Some v) m = Inr (0, h', m') \<and>
           hash_inv h' \<and> hash_full h' \<and> \<not> lock h' \<and>
           kvs_hash_get h' (Some k) = Inr (Some v, h') \<and>
           (\<forall>k' w. k' \<noteq> k \<longrightarrow> kvs_hash_get h (Some k') = Inr (w, h) \<longrightarrow>
              kvs_hash_get h' (Some k') = Inr (w, h')) \<and>
           kvs_hash_count h' = kvs_hash_count h + (if hash_abs h k = None then 1 else 0) \<and>
           mem_live m' = mem_live m + (if hash_abs h k = None then 3 else 0)"
proof -
  obtain h' m' where put: "put_kv_hashtable h (Some k) (Some v) m = Inr (0, h', m')"
    "hash_inv h'" "hash_full h'" "\<not> lock h'" "hash_abs h' = (hash_abs h)(k \<mapsto> v)"
    and n: "count h' = count h + (if hash_abs h k = None then 1 else 0)"
      "mem_live m' = mem_live m + (if hash_abs h k = None then 3 else 0)"
    using put_ok [OF assms(1-3) hash_room_below_cap [OF assms(1,4)] assms(5)] by metis
  have "kvs_hash_count h' = kvs_hash_count h + (if hash_abs h k = None then 1 else 0)"
    using n(1) by (simp add: kvs_hash_count_def count_kv_hashtable_def)
  then show ?thesis
    using get_ok [OF assms(1,3)] get_ok [OF put(2,4)] put n(2)
    by (auto simp: kvs_hash_set_def kvs_hash_get_def)
qed

theorem hash_set_spec_witness:
  "\<exists>h' m'. kvs_hash_set empty_hash (Some ''a'') (Some ''1'') good_mem = Inr (0, h', m') \<and>
     kvs_hash_get h' (Some ''a'') = Inr (Some ''1'', h') \<and> mem_live m' = mem_live good_mem + 3"
  using hash_set_spec [OF empty_hash_ok(1-3) _ good_mem_good, of "''a''" "''1''"]
  by (auto simp: hash_cap_def empty_hash_abs)

text \<open>
  C11: doubling a well-formed table (which the code does when the load passes 0.7) keeps it well formed
  with the same number of keys and the same value for every key, and leaves no memory behind, whether
  or not the new slot array could be allocated.
\<close>

theorem hash_resize_refines:
  assumes "hash_inv h" and "max_slots h * 2 \<le> INT_MAX"
  shows "\<exists>r h' m'. resize_hashtable h m = Inr (r, h', m') \<and> hash_inv h' \<and> hash_abs h' = hash_abs h \<and>
           count h' = count h \<and> lock h' = lock h \<and> mem_live m' = mem_live m \<and>
           (mem_ok m (mem_next m) (8 * nat (max_slots h * 2)) \<longrightarrow> r = 0 \<and> max_slots h' = 2 * max_slots h)"
  using resize_hashtable_eq [OF assms, of m] resized_inv [OF assms] resized_abs [OF assms] assms(1)
  by (auto simp: kvstore_malloc_def Let_def kvstore_free_def)

theorem hash_resize_refines_witness:
  "\<exists>r h' m'. resize_hashtable empty_hash good_mem = Inr (r, h', m') \<and> hash_inv h' \<and>
     max_slots h' = 2048 \<and> hash_abs h' = hash_abs empty_hash"
  using hash_resize_refines [OF empty_hash_ok(1), of good_mem]
  by (auto simp: good_mem_def empty_hash_def)

text \<open>
  C12: deleting a stored key returns 0, removes exactly that key, decrements the count, frees the node,
  its key and its value, and leaves the table well formed and unlocked.
\<close>

theorem hash_delete_spec:
  assumes "hash_inv h" and "hash_full h" and "\<not> lock h" and "kvs_hash_get h (Some k) = Inr (Some v, h)"
  shows "\<exists>h' m'. kvs_hash_delete h (Some k) m = Inr (0, h', m') \<and> hash_inv h' \<and> hash_full h' \<and>
           \<not> lock h' \<and> hash_abs h' = (hash_abs h)(k := None) \<and>
           kvs_hash_count h' = kvs_hash_count h - 1 \<and> mem_live m' = mem_live m - 3"
proof -
  have "hash_abs h k \<noteq> None"
    using get_ok [OF assms(1,3)] assms(4) by (simp add: kvs_hash_get_def)
  from delete_present [OF assms(1-3) this, of m] show ?thesis
    by (metis kvs_hash_delete_def kvs_hash_count_def)
qed

theorem hash_delete_spec_witness:
  "\<exists>h' m'. kvs_hash_delete one_hash (Some ''a'') good_mem = Inr (0, h', m') \<and>
     hash_abs h' ''a'' = None \<and> mem_live m' = - 3"
  using hash_delete_spec [OF one_hash_ok(1-3) one_hash_get, of good_mem] by (auto simp: good_mem_def)

text \<open>
  C21: deleting a key whose slot is empty returns -1 with the mutex still locked, and from then on
  every set, get and delete of every key blocks forever.
\<close>

theorem hash_delete_empty_slot_wedges:
  assumes "hash_inv h" and "\<not> lock h" and "nodes h ! hash_idx k (max_slots h) = Some []"
  shows "\<exists>h'. kvs_hash_delete h (Some k) m = Inr (- 1, h', m) \<and> hash_abs h' = hash_abs h \<and>
           (\<forall>k' v' m'. kvs_hash_set h' (Some k') (Some v') m' = Inl Deadlock \<and>
                       kvs_hash_get h' (Some k') = Inl Deadlock \<and>
                       kvs_hash_delete h' (Some k') m' = Inl Deadlock)"
  using delete_unfold [OF assms, of m] hash_inv_table(2) [OF assms(1)]
  by (intro exI [of _ "h\<lparr>lock := True\<rparr>"])
     (simp add: kvs_hash_delete_def kvs_hash_set_def kvs_hash_get_def put_kv_hashtable_def
       get_kv_hashtable_def delete_kv_hashtable_def Let_def)

theorem hash_delete_empty_slot_wedges_witness:
  "\<exists>h'. kvs_hash_delete empty_hash (Some ''a'') good_mem = Inr (- 1, h', good_mem) \<and>
     kvs_hash_get h' (Some ''b'') = Inl Deadlock"
  using hash_delete_empty_slot_wedges [OF empty_hash_ok(1,3) empty_hash_slot, of "''a''" good_mem] by blast

text \<open>
  C23: \<open>init_hashtable\<close> leaves the slots as the allocator returned them. On zeroed memory it makes a
  well-formed empty table; on any other memory the first set, get, modify or delete reads an
  indeterminate pointer.
\<close>

theorem hash_create_needs_zeroed_memory:
  assumes "mem_ok m (mem_next m) 8192"
  shows "\<exists>h' m'. kvstore_hash_create h m = (0, h', m') \<and>
           (mem_zero m (mem_next m) \<longrightarrow>
              hash_inv h' \<and> hash_full h' \<and> \<not> lock h' \<and> (\<forall>k. hash_abs h' k = None)) \<and>
           (\<not> mem_zero m (mem_next m) \<longrightarrow>
              (\<forall>k v m'. kvs_hash_set h' (Some k) (Some v) m' = Inl Uninit_Read \<and>
                        kvs_hash_get h' (Some k) = Inl Uninit_Read \<and>
                        kvs_hash_modify h' (Some k) (Some v) m' = Inl Uninit_Read \<and>
                        kvs_hash_delete h' (Some k) m' = Inl Uninit_Read))"
proof (cases "mem_zero m (mem_next m)")
  case True
  from init_ok [OF assms this, of h] show ?thesis
    using True by (metis kvstore_hash_create_def)
next
  case False
  let ?h = "\<lparr>nodes = replicate 1024 None, max_slots = 1024, count = 0, lock = False\<rparr> :: hashtable"
  have idx: "hash_idx k 1024 < 1024" for k
    using hash_idx_less [of 1024 k] by simp
  have "kvs_hash_set ?h (Some k) (Some v) m' = Inl Uninit_Read \<and>
        kvs_hash_get ?h (Some k) = Inl Uninit_Read \<and>
        kvs_hash_modify ?h (Some k) (Some v) m' = Inl Uninit_Read \<and>
        kvs_hash_delete ?h (Some k) m' = Inl Uninit_Read" for k v m'
    using idx [of k]
    by (simp add: kvs_hash_set_def put_kv_hashtable_def load_exceeded_def kvs_hash_get_def
        get_kv_hashtable_def kvs_hash_modify_def kvs_hash_delete_def delete_kv_hashtable_def
        slot_def)
  with False assms show ?thesis
    by (intro exI [of _ ?h] exI [of _ "snd (kvstore_malloc 8192 m)"])
       (simp add: kvstore_hash_create_def init_hashtable_def MAX_TABLE_SIZE_def kvstore_malloc_def Let_def)
qed

theorem hash_create_needs_zeroed_memory_witness:
  "\<exists>h' m'. kvstore_hash_create empty_hash (good_mem\<lparr>mem_zero := \<lambda>_. False\<rparr>) = (0, h', m') \<and>
     kvs_hash_get h' (Some ''a'') = Inl Uninit_Read"
  using hash_create_needs_zeroed_memory [of "good_mem\<lparr>mem_zero := \<lambda>_. False\<rparr>" empty_hash]
  by (auto simp: good_mem_def)

text \<open>
  C25: memory. A stored key holds three blocks (node, key, value) and \<open>dest_hashtable\<close> frees the nodes
  and the slot array only: destroying a table with n keys leaves two blocks per key allocated.
\<close>

theorem hash_destroy_leaks:
  assumes "hash_inv h" and "mem_live m = base + 1 + 3 * kvs_hash_count h"
  shows "\<exists>m'. kvstore_hash_destory h m = Inr m' \<and> mem_live m' = base + 2 * kvs_hash_count h"
proof -
  obtain m' where "dest_hashtable h m = Inr m'" "mem_live m' = mem_live m - count h - 1"
    by (rule dest_ok [OF assms(1)])
  with assms(2) show ?thesis
    by (simp add: kvstore_hash_destory_def kvs_hash_count_def)
qed

theorem hash_destroy_leaks_witness:
  "\<exists>m'. kvstore_hash_destory one_hash (good_mem\<lparr>mem_live := 4\<rparr>) = Inr m' \<and> mem_live m' = 2"
  using hash_destroy_leaks [OF one_hash_ok(1), of "good_mem\<lparr>mem_live := 4\<rparr>" 0] by (simp add: kvs_hash_count_def)

text \<open>
  Storing a new key when its node cannot be allocated dereferences NULL: the result of
  \<open>_create_node\<close> is not checked.
\<close>

theorem hash_set_out_of_memory_crashes:
  assumes "hash_inv h" and "\<not> lock h" and "k \<notin> chain_keys (the (nodes h ! hash_idx k (max_slots h)))"
    and "\<not> load_exceeded (count h) (max_slots h)" and "\<not> mem_ok m (mem_next m) 24"
  shows "kvs_hash_set h (Some k) (Some v) m = Inl Null_Deref"
proof -
  obtain ch where ch: "nodes h ! hash_idx k (max_slots h) = Some ch"
    using hash_inv_slot [OF assms(1)] by metis
  then have "overwrite k v ch m = None"
    using assms(3) by (simp add: overwrite_None)
  with slot_inv [OF assms(1) ch] assms show ?thesis
    by (simp add: kvs_hash_set_def put_kv_hashtable_def create_node_def kvstore_malloc_def Let_def)
qed

theorem hash_set_out_of_memory_crashes_witness:
  "kvs_hash_set empty_hash (Some ''a'') (Some ''1'') (good_mem\<lparr>mem_ok := \<lambda>_ _. False\<rparr>) = Inl Null_Deref"
  by (rule hash_set_out_of_memory_crashes [OF empty_hash_ok(1,3)])
     (simp_all add: empty_hash_slot load_exceeded_def, simp_all add: empty_hash_def)

end
