(* ===== verification/KvArray.thy ===== *)
theory KvArray
  imports Prelude KvEngine
begin

text \<open>
  The array engine of the key-value store, \<open>src/kv_store/kvstore_array.c\<close> (the code outside its
  \<open>#if 0\<close> blocks): a table of 1024 items searched linearly. \<open>array_idx\<close> is the high-water mark;
  deletion leaves holes below it, which the next set reuses. The value pointer of an item can be
  left pointing to freed memory: \<open>kvstore_array_modify\<close> frees the old value before it knows whether
  the new one can be allocated.
\<close>

section \<open>Data\<close>

datatype vptr = VNull | VPtr string | VDangling

record kvs_array_item =
  akey :: cstr
  avalue :: vptr

record array_t =
  array_table :: "kvs_array_item list"
  array_idx :: nat

definition KVS_ARRAY_SIZE :: nat where "KVS_ARRAY_SIZE = 1024"

definition empty_item :: kvs_array_item where
  "empty_item = \<lparr>akey = None, avalue = VNull\<rparr>"

section \<open>Operations\<close>

text \<open>A table that could not be allocated is the NULL pointer: the empty list.\<close>

definition kvstore_array_create :: "array_t \<Rightarrow> mem \<Rightarrow> int \<times> array_t \<times> mem" where
  "kvstore_array_create arr m =
     (let (ok, m1) = kvstore_malloc (KVS_ARRAY_SIZE * 16) m
      in if \<not> ok then (- 1, arr\<lparr>array_table := []\<rparr>, m1)
         else (0, arr\<lparr>array_table := replicate KVS_ARRAY_SIZE empty_item, array_idx := 0\<rparr>, m1))"

text \<open>\<open>kvstore_array_destory\<close> frees the table and none of the keys and values.\<close>

definition kvstore_array_destory :: "array_t \<Rightarrow> mem \<Rightarrow> mem" where
  "kvstore_array_destory arr m = (if array_table arr \<noteq> [] then kvstore_free (Some ()) m else m)"

text \<open>The index of the first hole, or the length of the list.\<close>

fun first_hole :: "kvs_array_item list \<Rightarrow> nat" where
  "first_hole [] = 0"
| "first_hole (it # its) = (if akey it \<noteq> None then Suc (first_hole its) else 0)"

definition kvstore_array_set ::
  "array_t \<Rightarrow> cstr \<Rightarrow> cstr \<Rightarrow> mem \<Rightarrow> (int \<times> array_t \<times> mem) res" where
  "kvstore_array_set arr key val m =
     (case (key, val) of
        (Some k, Some v) \<Rightarrow>
          let idx = first_hole (array_table arr)
          in if array_table arr = [] then Inl Null_Deref
             else if idx = KVS_ARRAY_SIZE then Inr (- 1, arr, m)
             else
               let (ok, m1) = kvstore_malloc (length k + 1) m
               in if \<not> ok then Inr (- 1, arr, m1)
                  else
                    let (ok, m2) = kvstore_malloc (length v + 1) m1
                    in if \<not> ok then Inr (- 1, arr, kvstore_free (Some k) m2)
                       else Inr (0, arr\<lparr>
                              array_table := (array_table arr)[idx := \<lparr>akey = Some k, avalue = VPtr v\<rparr>],
                              array_idx := (if idx = array_idx arr then Suc (array_idx arr)
                                            else array_idx arr)\<rparr>, m2)
      | _ \<Rightarrow> Inr (- 1, arr, m))"

text \<open>The loop over the first \<open>array_idx\<close> items: the index of the first item with the key.\<close>

fun find_item :: "string \<Rightarrow> kvs_array_item list \<Rightarrow> nat option" where
  "find_item k [] = None"
| "find_item k (it # its) =
     (if akey it = None then map_option Suc (find_item k its)
      else if akey it = Some k then Some 0
      else map_option Suc (find_item k its))"

text \<open>The pointer a read of a value returns.\<close>

definition read_vptr :: "vptr \<Rightarrow> cstr res" where
  "read_vptr p = (case p of VNull \<Rightarrow> Inr None | VPtr s \<Rightarrow> Inr (Some s) | VDangling \<Rightarrow> Inl Use_After_Free)"

text \<open>\<open>kvstore_array_get\<close> does not check its arguments: \<open>strcmp\<close> reads a NULL key.\<close>

definition kvstore_array_get :: "array_t \<Rightarrow> cstr \<Rightarrow> (cstr \<times> array_t) res" where
  "kvstore_array_get arr key =
     (case key of
        None \<Rightarrow>
          if \<exists>it \<in> set (take (array_idx arr) (array_table arr)). akey it \<noteq> None then Inl Null_Deref
          else Inr (None, arr)
      | Some k \<Rightarrow>
          (case find_item k (take (array_idx arr) (array_table arr)) of
             None \<Rightarrow> Inr (None, arr)
           | Some idx \<Rightarrow> rbind (read_vptr (avalue (array_table arr ! idx))) (\<lambda>v. Inr (v, arr))))"

definition free_vptr :: "vptr \<Rightarrow> mem \<Rightarrow> mem res" where
  "free_vptr p m =
     (case p of VNull \<Rightarrow> Inr m | VPtr s \<Rightarrow> Inr (kvstore_free (Some s) m) | VDangling \<Rightarrow> Inl Use_After_Free)"

definition kvstore_array_delete :: "array_t \<Rightarrow> cstr \<Rightarrow> mem \<Rightarrow> (int \<times> array_t \<times> mem) res" where
  "kvstore_array_delete arr key m =
     (case key of
        None \<Rightarrow> Inr (- 1, arr, m)
      | Some k \<Rightarrow>
          (case find_item k (take (array_idx arr) (array_table arr)) of
             None \<Rightarrow> Inr (1, arr, m)
           | Some idx \<Rightarrow>
               rbind (free_vptr (avalue (array_table arr ! idx)) m)
                 (\<lambda>m1. Inr (0, arr\<lparr>array_table := (array_table arr)[idx := empty_item]\<rparr>,
                            kvstore_free (akey (array_table arr ! idx)) m1))))"

definition kvstore_array_modify ::
  "array_t \<Rightarrow> cstr \<Rightarrow> cstr \<Rightarrow> mem \<Rightarrow> (int \<times> array_t \<times> mem) res" where
  "kvstore_array_modify arr key val m =
     (case (key, val) of
        (Some k, Some v) \<Rightarrow>
          (case find_item k (take (array_idx arr) (array_table arr)) of
             None \<Rightarrow> Inr (1, arr, m)
           | Some idx \<Rightarrow>
               rbind (free_vptr (avalue (array_table arr ! idx)) m)
                 (\<lambda>m1.
                    let (ok, m2) = kvstore_malloc (length v + 1) m1;
                        it = array_table arr ! idx
                    in if \<not> ok
                       then Inr (- 1, arr\<lparr>array_table :=
                              (array_table arr)[idx := it\<lparr>avalue :=
                                 (if avalue it = VNull then VNull else VDangling)\<rparr>]\<rparr>, m2)
                       else Inr (0, arr\<lparr>array_table := (array_table arr)[idx := it\<lparr>avalue := VPtr v\<rparr>]\<rparr>, m2)))
      | _ \<Rightarrow> Inr (- 1, arr, m))"

section \<open>Well-formed arrays and what they store\<close>

fun item_ok :: "kvs_array_item \<Rightarrow> bool" where
  "item_ok it \<longleftrightarrow> (case akey it of None \<Rightarrow> it = empty_item | Some _ \<Rightarrow> (\<exists>v. avalue it = VPtr v))"

fun item_keys :: "kvs_array_item list \<Rightarrow> string list" where
  "item_keys [] = []"
| "item_keys (it # its) = (case akey it of None \<Rightarrow> item_keys its | Some k \<Rightarrow> k # item_keys its)"

fun vptr_val :: "vptr \<Rightarrow> string option" where
  "vptr_val (VPtr v) = Some v"
| "vptr_val _ = None"

fun item_abs :: "kvs_array_item list \<Rightarrow> string \<Rightarrow> string option" where
  "item_abs [] k = None"
| "item_abs (it # its) k = (if akey it = Some k then vptr_val (avalue it) else item_abs its k)"

definition array_inv :: "array_t \<Rightarrow> bool" where
  "array_inv arr \<longleftrightarrow>
     length (array_table arr) = KVS_ARRAY_SIZE \<and> array_idx arr \<le> KVS_ARRAY_SIZE \<and>
     (\<forall>it \<in> set (array_table arr). item_ok it) \<and>
     (\<forall>it \<in> set (drop (array_idx arr) (array_table arr)). akey it = None) \<and>
     distinct (item_keys (array_table arr))"

definition array_abs :: "array_t \<Rightarrow> string \<Rightarrow> string option" where
  "array_abs arr = item_abs (array_table arr)"

definition array_used :: "array_t \<Rightarrow> nat" where
  "array_used arr = length (item_keys (array_table arr))"

lemma in_item_keys: "k \<in> set (item_keys its) \<longleftrightarrow> (\<exists>it \<in> set its. akey it = Some k)"
  by (induction its) (auto split: option.splits)

lemma nth_in_item_keys: "i < length its \<Longrightarrow> akey (its ! i) = Some k \<Longrightarrow> k \<in> set (item_keys its)"
  by (auto simp: in_item_keys)

lemma find_item_None: "find_item k its = None \<longleftrightarrow> k \<notin> set (item_keys its)"
  by (induction its) (auto split: option.splits)

lemma find_item_Some:
  "find_item k its = Some i \<Longrightarrow> i < length its \<and> akey (its ! i) = Some k \<and>
     item_abs its k = vptr_val (avalue (its ! i))"
  by (induction its arbitrary: i) (auto split: if_splits)

lemma item_abs_None: "\<forall>it \<in> set its. item_ok it \<Longrightarrow> item_abs its k = None \<longleftrightarrow> k \<notin> set (item_keys its)"
  by (induction its) (auto split: option.splits)

lemma find_item_append:
  "find_item k (a @ b) =
     (case find_item k a of Some i \<Rightarrow> Some i | None \<Rightarrow> map_option (\<lambda>i. length a + i) (find_item k b))"
  by (induction a; cases "find_item k b") (auto split: option.splits)

lemma item_keys_empty: "\<forall>it \<in> set its. akey it = None \<Longrightarrow> item_keys its = []"
  by (induction its) auto

lemma find_item_take:
  assumes "\<forall>it \<in> set (drop n its). akey it = None"
  shows "find_item k (take n its) = find_item k its"
proof -
  have "find_item k (drop n its) = None"
    using item_keys_empty [OF assms] by (simp add: find_item_None)
  then show ?thesis
    using find_item_append [of k "take n its" "drop n its"] by (auto split: option.splits)
qed

lemma first_hole_le: "first_hole its \<le> length its"
  by (induction its) auto

lemma first_hole_hole: "first_hole its < length its \<Longrightarrow> akey (its ! first_hole its) = None"
  by (induction its) auto

lemma first_hole_bound: "\<forall>it \<in> set (drop n its). akey it = None \<Longrightarrow> n < length its \<Longrightarrow> first_hole its \<le> n"
proof (induction its arbitrary: n)
  case (Cons it its)
  then show ?case by (cases n) auto
qed simp

lemma first_hole_full: "first_hole its = length its \<longleftrightarrow> length (item_keys its) = length its"
proof (induction its)
  case (Cons it its)
  moreover have "length (item_keys its) \<le> length its"
    by (induction its) (auto split: option.splits)
  ultimately show ?case by (auto split: option.splits)
qed simp

text \<open>Filling a hole, clearing an item, changing a value.\<close>

lemma fill_item_keys:
  "i < length its \<Longrightarrow> akey (its ! i) = None \<Longrightarrow>
     set (item_keys (its[i := \<lparr>akey = Some k, avalue = p\<rparr>])) = insert k (set (item_keys its)) \<and>
     length (item_keys (its[i := \<lparr>akey = Some k, avalue = p\<rparr>])) = Suc (length (item_keys its)) \<and>
     (k \<notin> set (item_keys its) \<longrightarrow> distinct (item_keys its) \<longrightarrow>
        distinct (item_keys (its[i := \<lparr>akey = Some k, avalue = p\<rparr>])))"
  by (induction its arbitrary: i) (force split: option.splits nat.splits)+

lemma fill_item_abs:
  "i < length its \<Longrightarrow> akey (its ! i) = None \<Longrightarrow> k \<notin> set (item_keys its) \<Longrightarrow>
     item_abs (its[i := \<lparr>akey = Some k, avalue = VPtr v\<rparr>]) = (item_abs its)(k \<mapsto> v)"
  by (induction its arbitrary: i) (force simp: fun_eq_iff split: option.splits nat.splits)+

lemma clear_item:
  "i < length its \<Longrightarrow> akey (its ! i) = Some k \<Longrightarrow> distinct (item_keys its) \<Longrightarrow>
     set (item_keys (its[i := empty_item])) = set (item_keys its) - {k} \<and>
     Suc (length (item_keys (its[i := empty_item]))) = length (item_keys its) \<and>
     distinct (item_keys (its[i := empty_item]))"
proof (induction its arbitrary: i)
  case (Cons it its)
  then show ?case
    by (cases i) (auto simp: empty_item_def split: option.splits dest: nth_in_item_keys)
qed simp

lemma clear_item_abs:
  "i < length its \<Longrightarrow> akey (its ! i) = Some k \<Longrightarrow> distinct (item_keys its) \<Longrightarrow>
     item_abs (its[i := empty_item]) = (item_abs its)(k := None)"
proof (induction its arbitrary: i)
  case (Cons it its)
  have "k \<notin> set (item_keys its) \<Longrightarrow> item_abs its k = None"
    by (induction its) (auto split: option.splits)
  then show ?case
    using Cons by (cases i) (auto simp: empty_item_def fun_eq_iff split: option.splits dest: nth_in_item_keys)
qed simp

lemma change_item_keys:
  "i < length its \<Longrightarrow> item_keys (its[i := (its ! i)\<lparr>avalue := p\<rparr>]) = item_keys its"
  by (induction its arbitrary: i) (auto split: option.splits nat.splits)

lemma change_item_abs:
  "find_item k its = Some i \<Longrightarrow>
     item_abs (its[i := (its ! i)\<lparr>avalue := p\<rparr>]) = (item_abs its)(k := vptr_val p)"
  by (induction its arbitrary: i) (auto simp: fun_eq_iff split: if_splits)

section \<open>The operations on well-formed arrays\<close>

lemma item_ok_update:
  "\<forall>it \<in> set its. item_ok it \<Longrightarrow> item_ok it' \<Longrightarrow> \<forall>it \<in> set (its[i := it']). item_ok it"
  using set_update_subset_insert [of its i it'] by blast

lemma array_inv_table: "array_inv arr \<Longrightarrow> array_table arr \<noteq> []"
  by (auto simp: array_inv_def KVS_ARRAY_SIZE_def)

lemma array_inv_find:
  "array_inv arr \<Longrightarrow> find_item k (take (array_idx arr) (array_table arr)) = find_item k (array_table arr)"
  by (rule find_item_take) (simp add: array_inv_def)

lemma array_found:
  assumes inv: "array_inv arr" and stored: "array_abs arr k \<noteq> None"
  obtains i v where "find_item k (array_table arr) = Some i" "i < length (array_table arr)" "i < array_idx arr"
    "akey (array_table arr ! i) = Some k" "avalue (array_table arr ! i) = VPtr v" "array_abs arr k = Some v"
proof -
  have ok: "\<forall>it \<in> set (array_table arr). item_ok it"
    using inv by (simp add: array_inv_def)
  obtain i where i: "find_item k (array_table arr) = Some i"
    using stored item_abs_None [OF ok] by (auto simp: array_abs_def find_item_None [symmetric])
  note found = find_item_Some [OF i]
  then have "item_ok (array_table arr ! i)"
    using ok by (simp del: item_ok.simps)
  then obtain v where "avalue (array_table arr ! i) = VPtr v"
    using found by auto
  moreover have "i < array_idx arr"
    using find_item_Some [of k "take (array_idx arr) (array_table arr)" i] array_inv_find [OF inv, of k] i
    by simp
  ultimately show thesis
    using that i found by (simp add: array_abs_def)
qed

lemma array_not_found:
  assumes "array_inv arr" and "array_abs arr k = None"
  shows "find_item k (array_table arr) = None"
  using assms item_abs_None [of "array_table arr" k] by (simp add: array_inv_def array_abs_def find_item_None)

lemma array_hole:
  assumes inv: "array_inv arr" and room: "array_used arr < KVS_ARRAY_SIZE"
  shows "first_hole (array_table arr) < KVS_ARRAY_SIZE" "first_hole (array_table arr) \<le> array_idx arr"
    "akey (array_table arr ! first_hole (array_table arr)) = None"
proof -
  have len: "length (array_table arr) = KVS_ARRAY_SIZE"
    using inv by (simp add: array_inv_def)
  show less: "first_hole (array_table arr) < KVS_ARRAY_SIZE"
    using first_hole_full [of "array_table arr"] first_hole_le [of "array_table arr"] room len
    by (simp add: array_used_def)
  show "akey (array_table arr ! first_hole (array_table arr)) = None"
    using first_hole_hole less len by simp
  show "first_hole (array_table arr) \<le> array_idx arr"
    using first_hole_bound [of "array_idx arr" "array_table arr"] inv less len
    by (cases "array_idx arr < KVS_ARRAY_SIZE") (simp_all add: array_inv_def)
qed

lemma array_fill:
  fixes v :: string
  assumes inv: "array_inv arr" and room: "array_used arr < KVS_ARRAY_SIZE" and new: "array_abs arr k = None"
  defines "idx \<equiv> first_hole (array_table arr)"
  defines "arr' \<equiv> arr\<lparr>array_table := (array_table arr)[idx := \<lparr>akey = Some k, avalue = VPtr v\<rparr>],
                       array_idx := (if idx = array_idx arr then Suc (array_idx arr) else array_idx arr)\<rparr>"
  shows "array_inv arr'" "array_abs arr' = (array_abs arr)(k \<mapsto> v)" "array_used arr' = Suc (array_used arr)"
proof -
  note hole = array_hole [OF inv room, folded idx_def]
  have k: "k \<notin> set (item_keys (array_table arr))"
    using array_not_found [OF inv new] by (simp add: find_item_None)
  have len: "length (array_table arr) = KVS_ARRAY_SIZE"
    using inv by (simp add: array_inv_def)
  have i: "idx < length (array_table arr)"
    using hole(1) len by simp
  note keys = fill_item_keys [OF i hole(3), of k "VPtr v"]
  have tail: "\<forall>it \<in> set (drop (array_idx arr') (array_table arr')). akey it = None"
  proof -
    have "idx < array_idx arr'"
      using hole(2) by (auto simp: arr'_def)
    then have "drop (array_idx arr') (array_table arr') = drop (array_idx arr') (array_table arr)"
      by (simp add: arr'_def drop_update_cancel)
    moreover have "set (drop (array_idx arr') (array_table arr)) \<subseteq> set (drop (array_idx arr) (array_table arr))"
      by (auto simp: arr'_def intro: set_drop_subset_set_drop [THEN subsetD, rotated])
    ultimately show ?thesis
      using inv by (auto simp: array_inv_def)
  qed
  show "array_inv arr'"
    using inv tail keys k hole item_ok_update [of "array_table arr" "\<lparr>akey = Some k, avalue = VPtr v\<rparr>" idx]
    by (simp add: array_inv_def arr'_def)
  show "array_abs arr' = (array_abs arr)(k \<mapsto> v)"
    using fill_item_abs [OF i hole(3) k] by (simp add: arr'_def array_abs_def)
  show "array_used arr' = Suc (array_used arr)"
    using keys by (simp add: arr'_def array_used_def)
qed

lemma array_clear:
  assumes inv: "array_inv arr" and i: "i < length (array_table arr)" "akey (array_table arr ! i) = Some k"
  defines "arr' \<equiv> arr\<lparr>array_table := (array_table arr)[i := empty_item]\<rparr>"
  shows "array_inv arr'" "array_abs arr' = (array_abs arr)(k := None)" "Suc (array_used arr') = array_used arr"
proof -
  have dist: "distinct (item_keys (array_table arr))"
    using inv by (simp add: array_inv_def)
  note clear = clear_item [OF i dist]
  have "\<forall>it \<in> set (drop (array_idx arr) (array_table arr')). akey it = None"
  proof -
    have "drop (array_idx arr) (array_table arr') = (drop (array_idx arr) (array_table arr))[i - array_idx arr := empty_item]
        \<or> drop (array_idx arr) (array_table arr') = drop (array_idx arr) (array_table arr)"
      by (cases "i < array_idx arr") (simp_all add: arr'_def drop_update_cancel drop_update_swap)
    moreover have "\<forall>it \<in> set (drop (array_idx arr) (array_table arr)). akey it = None"
      using inv by (simp add: array_inv_def)
    ultimately show ?thesis
      using set_update_subset_insert [of "drop (array_idx arr) (array_table arr)" "i - array_idx arr" empty_item]
      by (auto simp: empty_item_def)
  qed
  then show "array_inv arr'"
    using inv clear item_ok_update [of "array_table arr" empty_item i]
    by (simp add: array_inv_def arr'_def empty_item_def)
  show "array_abs arr' = (array_abs arr)(k := None)"
    using clear_item_abs [OF i dist] by (simp add: arr'_def array_abs_def)
  show "Suc (array_used arr') = array_used arr"
    using clear by (simp add: arr'_def array_used_def)
qed

lemma array_change:
  fixes v :: string
  assumes inv: "array_inv arr" and i: "find_item k (array_table arr) = Some i" "i < array_idx arr"
  defines "arr' \<equiv> arr\<lparr>array_table := (array_table arr)[i := (array_table arr ! i)\<lparr>avalue := VPtr v\<rparr>]\<rparr>"
  shows "array_inv arr'" "array_abs arr' = (array_abs arr)(k \<mapsto> v)" "array_used arr' = array_used arr"
proof -
  note found = find_item_Some [OF i(1)]
  have keys: "item_keys (array_table arr') = item_keys (array_table arr)"
    using change_item_keys found by (simp add: arr'_def)
  show "array_inv arr'"
    using inv keys i(2) found
      item_ok_update [of "array_table arr" "(array_table arr ! i)\<lparr>avalue := VPtr v\<rparr>" i]
    by (simp add: array_inv_def arr'_def drop_update_cancel)
  show "array_abs arr' = (array_abs arr)(k \<mapsto> v)"
    using change_item_abs [OF i(1), of "VPtr v"] by (simp add: arr'_def array_abs_def)
  show "array_used arr' = array_used arr"
    using keys by (simp add: array_used_def)
qed

section \<open>The array engine meets the engine contract\<close>

definition array_engine :: "array_t engine" where
  "array_engine = \<lparr>eng_set = kvstore_array_set, eng_get = kvstore_array_get,
                   eng_del = kvstore_array_delete, eng_mod = kvstore_array_modify\<rparr>"

interpretation arr: kv_engine array_engine array_inv array_abs array_used KVS_ARRAY_SIZE 1
proof (unfold_locales, goal_cases)
  case (1 s m k v)
  then show ?case
    using array_fill [OF 1(1,3,4), of v] array_hole [OF 1(1,3)] array_inv_table [OF 1(1)]
    by (auto simp: array_engine_def kvstore_array_set_def kvstore_malloc_good Let_def)
next
  case (2 s k)
  show ?case
  proof (cases "array_abs s k")
    case None
    with 2 array_not_found [of s k] array_inv_find [of s k] show ?thesis
      by (simp add: array_engine_def kvstore_array_get_def)
  next
    case (Some v)
    with 2 array_found [of s k] array_inv_find [of s k] show ?thesis
      by (fastforce simp: array_engine_def kvstore_array_get_def read_vptr_def)
  qed
next
  case (3 s m k)
  obtain i v where i: "find_item k (array_table s) = Some i" "i < length (array_table s)"
    "akey (array_table s ! i) = Some k" "avalue (array_table s ! i) = VPtr v"
    using array_found [OF 3(1,3)] by metis
  with 3 array_clear [OF 3(1) i(2,3)] array_inv_find [OF 3(1), of k] show ?case
    by (simp add: array_engine_def kvstore_array_delete_def free_vptr_def)
next
  case (4 s m k v)
  obtain i w where i: "find_item k (array_table s) = Some i" "i < array_idx s"
    "avalue (array_table s ! i) = VPtr w"
    using array_found [OF 4(1,3)] by metis
  with 4 array_change [OF 4(1) i(1,2), of v] array_inv_find [OF 4(1), of k] show ?case
    by (simp add: array_engine_def kvstore_array_modify_def free_vptr_def kvstore_malloc_good
        kvstore_free_simps Let_def)
next
  case (5 s k v m)
  with array_not_found [of s k] array_inv_find [of s k] show ?case
    by (simp add: array_engine_def kvstore_array_modify_def)
next
  case 6
  show ?case by simp
qed

section \<open>Creation, and the items a set leaves behind\<close>

definition empty_array :: array_t where
  "empty_array = \<lparr>array_table = replicate KVS_ARRAY_SIZE empty_item, array_idx = 0\<rparr>"

definition one_array :: array_t where
  "one_array = \<lparr>array_table = \<lparr>akey = Some ''a'', avalue = VPtr ''1''\<rparr> # replicate 1023 empty_item,
                array_idx = 1\<rparr>"

lemma empty_array_ok: "array_inv empty_array" "array_used empty_array = 0" "array_abs empty_array = (\<lambda>_. None)"
  using item_keys_empty [of "replicate KVS_ARRAY_SIZE empty_item"]
    item_abs_None [of "replicate KVS_ARRAY_SIZE empty_item"]
  by (auto simp: array_inv_def empty_array_def array_used_def array_abs_def empty_item_def)

lemma one_array_ok: "array_inv one_array" "array_abs one_array ''a'' = Some ''1''" "array_used one_array = 1"
    "first_hole (array_table one_array) = 1" "array_idx one_array = 1"
  using item_keys_empty [of "replicate 1023 empty_item"]
    first_hole_bound [of 0 "replicate 1023 empty_item"]
  by (auto simp: array_inv_def one_array_def array_used_def array_abs_def empty_item_def KVS_ARRAY_SIZE_def)

lemma find_item_update_after:
  "find_item k its = Some i \<Longrightarrow> i < j \<Longrightarrow> find_item k (its[j := it]) = Some i"
proof (induction its arbitrary: i j)
  case (Cons it' its)
  then show ?case by (cases j) (auto split: if_splits)
qed simp

lemma find_item_fill:
  "k \<notin> set (item_keys its) \<Longrightarrow> i < length its \<Longrightarrow> find_item k (its[i := \<lparr>akey = Some k, avalue = p\<rparr>]) = Some i"
proof (induction its arbitrary: i)
  case (Cons it its)
  then show ?case by (cases i) (auto split: option.splits)
qed simp

lemma find_item_take_less:
  "find_item k its = Some i \<Longrightarrow> i < n \<Longrightarrow> find_item k (take n its) = Some i"
proof (induction its arbitrary: i n)
  case (Cons it its)
  then show ?case by (cases n) (auto split: if_splits)
qed simp

section \<open>Properties\<close>

lemma find_item_update_before:
  "find_item k its = Some i \<Longrightarrow> j < i \<Longrightarrow> find_item k (its[j := \<lparr>akey = Some k, avalue = p\<rparr>]) = Some j"
proof (induction its arbitrary: i j)
  case (Cons it its)
  then show ?case by (cases j) (auto split: if_splits)
qed simp

lemma find_item_clear_before:
  "find_item k its = Some i \<Longrightarrow> j < i \<Longrightarrow> find_item k (its[j := empty_item]) = Some i"
proof (induction its arbitrary: i j)
  case (Cons it its)
  then show ?case by (cases j) (auto simp: empty_item_def split: if_splits)
qed simp

lemma find_item_take_before: "find_item k its = Some i \<Longrightarrow> j \<le> i \<Longrightarrow> find_item k (take j its) = None"
proof (induction its arbitrary: i j)
  case (Cons it its)
  then show ?case by (cases j) (auto split: if_splits)
qed simp

text \<open>A read answers with the first item of the key, and a deletion clears it.\<close>

lemma array_first_item:
  assumes "find_item k (array_table arr) = Some i" and "i < array_idx arr" and "avalue (array_table arr ! i) = VPtr v"
  shows "kvstore_array_get arr (Some k) = Inr (Some v, arr)"
    "\<exists>m'. kvstore_array_delete arr (Some k) m = Inr (0, arr\<lparr>array_table := (array_table arr)[i := empty_item]\<rparr>, m')"
  using find_item_take_less [OF assms(1,2)] assms(3)
  by (simp_all add: kvstore_array_get_def kvstore_array_delete_def read_vptr_def free_vptr_def)

text \<open>
  C22: \<open>kvstore_array_set\<close> does not look for the key first. Setting a stored key while there is room reports
  success and stores a second item in the first hole. Of the two, the one nearer to the front answers: the old
  value, unless a hole before it took the new one. Deleting the key once uncovers the other value.
\<close>

theorem array_set_stored_key_is_shadowed:
  assumes "array_inv arr" and "array_abs arr k = Some old" and "mem_good m" and "array_used arr < KVS_ARRAY_SIZE"
  shows "\<exists>arr' m' arr'' m'' front back. kvstore_array_set arr (Some k) (Some new) m = Inr (0, arr', m') \<and>
           kvstore_array_get arr' (Some k) = Inr (Some front, arr') \<and>
           kvstore_array_delete arr' (Some k) m' = Inr (0, arr'', m'') \<and>
           kvstore_array_get arr'' (Some k) = Inr (Some back, arr'') \<and>
           (front, back) = (if find_item k (take (first_hole (array_table arr)) (array_table arr)) = None
                            then (new, old) else (old, new))"
proof -
  let ?its = "array_table arr" and ?j = "first_hole (array_table arr)" and ?new = "\<lparr>akey = Some k, avalue = VPtr new\<rparr>"
  define n where "n = (if ?j = array_idx arr then Suc (array_idx arr) else array_idx arr)"
  have inv: "length ?its = KVS_ARRAY_SIZE" "distinct (item_keys ?its)"
    using assms(1) by (simp_all add: array_inv_def)
  note hole = array_hole [OF assms(1,4)]
  obtain i where i: "find_item k ?its = Some i" "i < length ?its" "i < array_idx arr" "akey (?its ! i) = Some k"
    "avalue (?its ! i) = VPtr old"
    using array_found [OF assms(1), of k] assms(2) by (metis option.distinct(1) option.inject)
  have n: "?j < n" "i < n" and ij: "i \<noteq> ?j"
    using hole i by (auto simp: n_def)
  let ?arr' = "arr\<lparr>array_table := ?its[?j := ?new], array_idx := n\<rparr>"
  obtain m' where set: "kvstore_array_set arr (Some k) (Some new) m = Inr (0, ?arr', m')"
    using assms(3) hole(1) array_inv_table [OF assms(1)]
    by (auto simp: kvstore_array_set_def kvstore_malloc_good Let_def n_def)
  show ?thesis
  proof (cases "i < ?j")
    case True
    let ?arr'' = "arr\<lparr>array_table := ?its[?j := ?new, i := empty_item], array_idx := n\<rparr>"
    have "find_item k (array_table ?arr') = Some i"
      using find_item_update_after [OF i(1) True] by simp
    note first = array_first_item [OF this, of old] 
    have "k \<notin> set (item_keys (?its[i := empty_item]))"
      using clear_item [OF i(2,4) inv(2)] by simp
    then have "find_item k (array_table ?arr'') = Some ?j"
      using find_item_fill [of k "?its[i := empty_item]" ?j] hole(1) inv(1) list_update_swap [OF ij, of ?its] by simp
    note second = array_first_item(1) [OF this, of new]
    have "find_item k (take ?j ?its) = Some i"
      using find_item_take_less [OF i(1) True] .
    moreover obtain m'' where "kvstore_array_delete ?arr' (Some k) m' = Inr (0, ?arr'', m'')"
      using first(2) [of m'] n(2) ij i(5) by auto
    moreover have "kvstore_array_get ?arr' (Some k) = Inr (Some old, ?arr')"
      using first(1) n(2) ij i(5) by simp
    moreover have "kvstore_array_get ?arr'' (Some k) = Inr (Some new, ?arr'')"
      using second n(1) ij hole(1) inv(1) by simp
    ultimately show ?thesis
      by (intro exI [of _ ?arr'] exI [of _ m'] exI [of _ ?arr''] exI [of _ m''] exI [of _ old] exI [of _ new])
        (simp add: set)
  next
    case False
    then have ji: "?j < i" using ij by simp
    let ?arr'' = "arr\<lparr>array_table := ?its[?j := ?new, ?j := empty_item], array_idx := n\<rparr>"
    have "find_item k (array_table ?arr') = Some ?j"
      using find_item_update_before [OF i(1) ji] by simp
    note first = array_first_item [OF this, of new]
    have "find_item k (array_table ?arr'') = Some i"
      using find_item_clear_before [OF i(1) ji] by simp
    note second = array_first_item(1) [OF this, of old]
    have "find_item k (take ?j ?its) = None"
      using find_item_take_before [OF i(1), of ?j] ji by simp
    moreover obtain m'' where "kvstore_array_delete ?arr' (Some k) m' = Inr (0, ?arr'', m'')"
      using first(2) [of m'] n(1) hole(1) inv(1) by auto
    moreover have "kvstore_array_get ?arr' (Some k) = Inr (Some new, ?arr')"
      using first(1) n(1) hole(1) inv(1) by simp
    moreover have "kvstore_array_get ?arr'' (Some k) = Inr (Some old, ?arr'')"
      using second n(2) ij i(2,5) by simp
    ultimately show ?thesis
      by (intro exI [of _ ?arr'] exI [of _ m'] exI [of _ ?arr''] exI [of _ m''] exI [of _ new] exI [of _ old])
        (simp add: set)
  qed
qed

theorem array_set_stored_key_is_shadowed_witness:
  "\<exists>arr' m' arr'' m''. kvstore_array_set one_array (Some ''a'') (Some ''2'') good_mem = Inr (0, arr', m') \<and>
           kvstore_array_get arr' (Some ''a'') = Inr (Some ''1'', arr') \<and>
           kvstore_array_delete arr' (Some ''a'') m' = Inr (0, arr'', m'') \<and>
           kvstore_array_get arr'' (Some ''a'') = Inr (Some ''2'', arr'')"
proof -
  have "array_used one_array < KVS_ARRAY_SIZE"
    by (simp add: one_array_ok(3) KVS_ARRAY_SIZE_def)
  moreover have "find_item ''a'' (take 1 (array_table one_array)) = Some 0"
    by (simp add: one_array_def)
  ultimately show ?thesis
    using array_set_stored_key_is_shadowed [OF one_array_ok(1,2) good_mem_good, of "''2''"]
    by (auto simp: one_array_ok(4))
qed

text \<open>
  A \<open>kvstore_array_modify\<close> whose allocation fails frees the old value and leaves its pointer in
  the item: it reports -1, and the next read, modification or deletion of the key touches freed
  memory.
\<close>

theorem array_modify_out_of_memory_dangles:
  assumes "array_inv arr" and "array_abs arr k = Some old" and "\<not> mem_ok m (mem_next m) (length new + 1)"
  shows "\<exists>arr' m'. kvstore_array_modify arr (Some k) (Some new) m = Inr (- 1, arr', m') \<and>
           kvstore_array_get arr' (Some k) = Inl Use_After_Free \<and>
           kvstore_array_delete arr' (Some k) m' = Inl Use_After_Free \<and>
           kvstore_array_modify arr' (Some k) (Some new) m' = Inl Use_After_Free"
proof -
  obtain i where i: "find_item k (array_table arr) = Some i" "i < length (array_table arr)" "i < array_idx arr"
    "akey (array_table arr ! i) = Some k" "avalue (array_table arr ! i) = VPtr old"
    using array_found [OF assms(1), of k] assms(2) by (metis option.distinct(1) option.inject)
  let ?its = "(array_table arr)[i := (array_table arr ! i)\<lparr>avalue := VDangling\<rparr>]"
  let ?arr' = "arr\<lparr>array_table := ?its\<rparr>"
  have find: "find_item k its = Some j \<Longrightarrow> find_item k (its[j := (its ! j)\<lparr>avalue := p\<rparr>]) = Some j" for its j p
    by (induction its arbitrary: j) (auto split: if_splits)
  then have "find_item k (take (array_idx arr) ?its) = Some i"
    using find_item_take_less i by simp
  then have after: "kvstore_array_get ?arr' (Some k) = Inl Use_After_Free"
    "kvstore_array_delete ?arr' (Some k) m' = Inl Use_After_Free"
    "kvstore_array_modify ?arr' (Some k) (Some new) m' = Inl Use_After_Free" for m'
    using i(2) by (simp_all add: kvstore_array_get_def kvstore_array_delete_def kvstore_array_modify_def
        read_vptr_def free_vptr_def)
  have "\<exists>m'. kvstore_array_modify arr (Some k) (Some new) m = Inr (- 1, ?arr', m')"
    using i array_inv_find [OF assms(1), of k] assms(3)
    by (simp add: kvstore_array_modify_def free_vptr_def kvstore_malloc_def Let_def)
  with after show ?thesis by metis
qed

theorem array_modify_out_of_memory_dangles_witness:
  "\<exists>arr' m'. kvstore_array_modify one_array (Some ''a'') (Some ''2'') (good_mem\<lparr>mem_ok := \<lambda>_ _. False\<rparr>)
             = Inr (- 1, arr', m') \<and>
           kvstore_array_get arr' (Some ''a'') = Inl Use_After_Free \<and>
           kvstore_array_delete arr' (Some ''a'') m' = Inl Use_After_Free \<and>
           kvstore_array_modify arr' (Some ''a'') (Some ''2'') m' = Inl Use_After_Free"
  by (rule array_modify_out_of_memory_dangles) (simp_all add: one_array_ok)

text \<open>
  C18: the array takes exactly 1024 keys, holes included: on a well-formed array a set of a new key
  succeeds while fewer than 1024 keys are stored, whatever the pattern of holes deletions have left,
  and is refused with -1 and no change when 1024 are.
\<close>

theorem array_set_capacity:
  assumes "array_inv arr" and "mem_good m" and "array_abs arr k = None"
  shows "(array_used arr < 1024 \<longrightarrow>
            (\<exists>arr' m'. kvstore_array_set arr (Some k) (Some v) m = Inr (0, arr', m') \<and> array_inv arr' \<and>
               array_abs arr' = (array_abs arr)(k \<mapsto> v) \<and> array_used arr' = array_used arr + 1)) \<and>
         (\<not> array_used arr < 1024 \<longrightarrow> kvstore_array_set arr (Some k) (Some v) m = Inr (- 1, arr, m))"
proof -
  have len: "length (array_table arr) = KVS_ARRAY_SIZE"
    using assms(1) by (simp add: array_inv_def)
  have le: "length (item_keys its) \<le> length its" for its
    by (induction its) (auto split: option.splits)
  have full: "kvstore_array_set arr (Some k) (Some v) m = Inr (- 1, arr, m)" if "\<not> array_used arr < 1024"
    using that le [of "array_table arr"] first_hole_full [of "array_table arr"] len
      array_inv_table [OF assms(1)]
    by (simp add: array_used_def kvstore_array_set_def KVS_ARRAY_SIZE_def)
  show ?thesis
    using arr.set_new [OF assms(1,2) _ assms(3), of v] full
    by (auto simp: array_engine_def KVS_ARRAY_SIZE_def)
qed

theorem array_set_capacity_witness:
  "\<exists>arr' m'. kvstore_array_set one_array (Some ''b'') (Some ''2'') good_mem = Inr (0, arr', m') \<and> array_used arr' = 2"
proof -
  have "array_abs one_array ''b'' = None"
    using item_abs_None [of "replicate 1023 empty_item" "''b''"] item_keys_empty [of "replicate 1023 empty_item"]
    by (simp add: one_array_def array_abs_def empty_item_def)
  with array_set_capacity [OF one_array_ok(1) good_mem_good, of "''b''" "''2''"] show ?thesis
    by (auto simp: one_array_ok)
qed

end
