(* ===== verification/KvStore.thy ===== *)
theory KvStore
  imports Prelude KvEngine KvHash KvArray
begin

text \<open>
  The request layer of the key-value store, \<open>src/kv_store/kv_store.c\<close> and the connection record of
  \<open>kv_store.h\<close>: a request is cut at spaces by \<open>strtok\<close>, which writes into the receive buffer; the
  first token selects one of four commands of the engine; the reply is printed into the send buffer.
  Buffers are lists of characters of the buffer's length and tokens are positions in the receive
  buffer, so reading past a buffer, writing past the array of tokens and reading a token that was
  never stored are faults of the model. The calls of the \<open>LOG\<close> macro, which is empty unless
  \<open>ENABLE_LOG\<close> is defined, are left out, and so are the NULL tests on \<open>item\<close> and \<open>tokens\<close>: the only
  caller passes the addresses of objects.
\<close>

section \<open>Connections and buffers\<close>

datatype callback = No_Callback | Accept_Callback | Recv_Callback

definition BUFFER_LENGTH :: nat where "BUFFER_LENGTH = 1024"
definition KVSTORE_MAX_TOKENS :: nat where "KVSTORE_MAX_TOKENS = 128"

record conn_item =
  conn_fd :: int
  rbuffer :: string
  wbuffer :: string
  rlen :: int
  wlen :: int
  recv_t :: callback
  send_callback :: bool

definition zero_item :: conn_item where
  "zero_item = \<lparr>conn_fd = 0, rbuffer = replicate BUFFER_LENGTH NUL, wbuffer = replicate BUFFER_LENGTH NUL,
                rlen = 0, wlen = 0, recv_t = No_Callback, send_callback = False\<rparr>"

text \<open>The string a buffer holds from its start, and what \<open>snprintf\<close> leaves in a zeroed buffer.\<close>

definition cstring :: "string \<Rightarrow> string" where
  "cstring buf = takeWhile (\<lambda>c. c \<noteq> NUL) buf"

definition snprintf_buf :: "string \<Rightarrow> string" where
  "snprintf_buf s =
     (let t = take (BUFFER_LENGTH - 1) s in t @ replicate (BUFFER_LENGTH - length t) NUL)"

section \<open>Tokens\<close>

text \<open>\<open>strspn\<close> and \<open>strcspn\<close> with the delimiter \<open>" "\<close>; \<^term>\<open>None\<close> when they run off the buffer.\<close>

fun span_spaces :: "string \<Rightarrow> nat option" where
  "span_spaces [] = None"
| "span_spaces (c # cs) = (if c = CHR '' '' then map_option Suc (span_spaces cs) else Some 0)"

fun span_token :: "string \<Rightarrow> nat option" where
  "span_token [] = None"
| "span_token (c # cs) = (if c = CHR '' '' \<or> c = NUL then Some 0 else map_option Suc (span_token cs))"

text \<open>
  \<open>strtok\<close> from position \<open>p\<close>: the position of the next token if there is one, the position the next
  call starts from, and the buffer with the delimiter after the token overwritten by NUL.
\<close>

definition strtok :: "string \<Rightarrow> nat \<Rightarrow> (nat option \<times> nat \<times> string) res" where
  "strtok buf p =
     (case span_spaces (drop p buf) of
        None \<Rightarrow> Inl Out_Of_Bounds
      | Some a \<Rightarrow>
          let s = p + a
          in if buf ! s = NUL then Inr (None, s, buf)
             else (case span_token (drop s buf) of
                     None \<Rightarrow> Inl Out_Of_Bounds
                   | Some b \<Rightarrow>
                       let e = s + b
                       in if buf ! e = NUL then Inr (Some s, e, buf)
                          else Inr (Some s, Suc e, buf[e := NUL])))"

lemma span_spaces_Some:
  "span_spaces xs = Some a \<Longrightarrow> a < length xs \<and> xs ! a \<noteq> CHR '' '' \<and> take a xs = replicate a (CHR '' '')"
  by (induction xs arbitrary: a) (auto split: if_splits)

lemma span_token_Some:
  "span_token xs = Some b \<Longrightarrow> b < length xs \<and> (xs ! b = CHR '' '' \<or> xs ! b = NUL) \<and>
     (\<forall>c \<in> set (take b xs). c \<noteq> CHR '' '' \<and> c \<noteq> NUL)"
proof (induction xs arbitrary: b)
  case (Cons c cs)
  then show ?case by (cases "c = CHR '' '' \<or> c = NUL") fastforce+
qed simp

lemma strtok_progress:
  assumes "strtok buf p = Inr (Some t, p', buf')"
  shows "p < p' \<and> p' \<le> length buf \<and> length buf' = length buf"
proof -
  obtain a where a: "span_spaces (drop p buf) = Some a"
    using assms by (cases "span_spaces (drop p buf)") (simp_all add: strtok_def)
  have nn: "buf ! (p + a) \<noteq> NUL"
    using assms a by (auto simp: strtok_def)
  obtain b where b: "span_token (drop (p + a) buf) = Some b"
    using assms a nn by (cases "span_token (drop (p + a) buf)") (simp_all add: strtok_def)
  have a': "p + a < length buf" "buf ! (p + a) \<noteq> CHR '' ''"
    using span_spaces_Some [OF a] by auto
  have "drop (p + a) buf = buf ! (p + a) # drop (Suc (p + a)) buf"
    using a'(1) by (rule Cons_nth_drop_Suc [symmetric])
  then have "b \<noteq> 0"
    using b nn a'(2) by auto
  moreover have "b < length buf - (p + a)"
    using span_token_Some [OF b] by simp
  ultimately show ?thesis
    using assms a b nn by (auto simp: strtok_def Let_def split: if_splits)
qed

function split_loop :: "nat \<Rightarrow> string \<Rightarrow> nat list \<Rightarrow> (nat list \<times> string) res" where
  "split_loop p buf tokens =
     (case strtok buf p of
        Inl f \<Rightarrow> Inl f
      | Inr (None, _, buf') \<Rightarrow> Inr (tokens, buf')
      | Inr (Some t, p', buf') \<Rightarrow>
          if length tokens < KVSTORE_MAX_TOKENS then split_loop p' buf' (tokens @ [t])
          else Inl Out_Of_Bounds)"
  by pat_completeness auto
termination
proof (relation "measure (\<lambda>(p, buf, tokens). length buf - p)", goal_cases)
  case (2 p buf tokens x x1 y t p' buf')
  then have "strtok buf p = Inr (Some t, p', buf')" by simp
  from strtok_progress [OF this] show ?case by auto
qed simp

declare split_loop.simps [simp del]

text \<open>\<open>kvstore_split_token\<close>: the number of tokens, the tokens stored, the buffer afterwards.\<close>

definition kvstore_split_token :: "string option \<Rightarrow> (int \<times> nat list \<times> string option) res" where
  "kvstore_split_token msg =
     (case msg of
        None \<Rightarrow> Inr (- 1, [], None)
      | Some buf \<Rightarrow>
          rbind (split_loop 0 buf []) (\<lambda>(tokens, buf'). Inr (int (length tokens), tokens, Some buf')))"

section \<open>Requests\<close>

definition kvstore_set :: "'s engine \<Rightarrow> 's \<Rightarrow> cstr \<Rightarrow> cstr \<Rightarrow> mem \<Rightarrow> (int \<times> 's \<times> mem) res" where
  "kvstore_set eng s key val m = eng_set eng s key val m"

definition kvstore_get :: "'s engine \<Rightarrow> 's \<Rightarrow> cstr \<Rightarrow> (cstr \<times> 's) res" where
  "kvstore_get eng s key = eng_get eng s key"

definition kvstore_delete :: "'s engine \<Rightarrow> 's \<Rightarrow> cstr \<Rightarrow> mem \<Rightarrow> (int \<times> 's \<times> mem) res" where
  "kvstore_delete eng s key m = eng_del eng s key m"

definition kvstore_modify :: "'s engine \<Rightarrow> 's \<Rightarrow> cstr \<Rightarrow> cstr \<Rightarrow> mem \<Rightarrow> (int \<times> 's \<times> mem) res" where
  "kvstore_modify eng s key val m = eng_mod eng s key val m"

definition commands :: "string list" where
  "commands = [''SET'', ''GET'', ''DEL'', ''MOD'']"

fun find_command :: "string \<Rightarrow> string list \<Rightarrow> nat" where
  "find_command t [] = 0"
| "find_command t (c # cs) = (if c = t then 0 else Suc (find_command t cs))"

text \<open>The string at \<open>tokens[i]\<close>: an element of the array that was never stored is indeterminate.\<close>

definition token_at :: "conn_item \<Rightarrow> nat list \<Rightarrow> nat \<Rightarrow> cstr res" where
  "token_at item tokens i =
     (if i < length tokens then Inr (Some (cstring (drop (tokens ! i) (rbuffer item))))
      else Inl Uninit_Read)"

definition kvstore_parser_protocol ::
  "'s engine \<Rightarrow> conn_item \<Rightarrow> nat list \<Rightarrow> int \<Rightarrow> 's \<Rightarrow> mem \<Rightarrow> (int \<times> conn_item \<times> 's \<times> mem) res" where
  "kvstore_parser_protocol eng item tokens cnt s m =
     (if cnt = 0 then Inr (- 1, item, s, m)
      else
        rbind (token_at item tokens 0) (\<lambda>t0.
        let cmd = find_command (the t0) commands;
            reply = (\<lambda>text. item\<lparr>wbuffer := snprintf_buf text\<rparr>)
        in if cmd = 0 then
             rbind (token_at item tokens 1) (\<lambda>t1.
             rbind (token_at item tokens 2) (\<lambda>t2.
             rbind (kvstore_set eng s t1 t2 m) (\<lambda>(ret, s, m).
               Inr (1, reply (if ret = 0 then ''SUCCESS'' else ''FAILER''), s, m))))
           else if cmd = 1 then
             rbind (token_at item tokens 1) (\<lambda>t1.
             rbind (kvstore_get eng s t1) (\<lambda>(value, s).
               Inr (1, reply (case value of Some v \<Rightarrow> v | None \<Rightarrow> ''NO EXIST''), s, m)))
           else if cmd = 2 then
             rbind (token_at item tokens 1) (\<lambda>t1.
             rbind (kvstore_delete eng s t1 m) (\<lambda>(ret, s, m).
               Inr (1, reply (if ret < 0 then ''ERROR'' else if ret = 0 then ''SUCCESS''
                              else ''DEL_FAILER''), s, m)))
           else if cmd = 3 then
             rbind (token_at item tokens 1) (\<lambda>t1.
             rbind (token_at item tokens 2) (\<lambda>t2.
             rbind (kvstore_modify eng s t1 t2 m) (\<lambda>(ret, s, m).
               Inr (1, reply (if ret < 0 then ''ERROR'' else if ret = 0 then ''SUCCESS''
                              else ''MOD_FAILER''), s, m))))
           else Inl Assert_Fail))"

definition kvstore_request :: "'s engine \<Rightarrow> conn_item \<Rightarrow> 's \<Rightarrow> mem \<Rightarrow> (int \<times> conn_item \<times> 's \<times> mem) res" where
  "kvstore_request eng item s m =
     rbind (kvstore_split_token (Some (rbuffer item))) (\<lambda>(cnt, tokens, buf).
     rbind (kvstore_parser_protocol eng (item\<lparr>rbuffer := the buf\<rparr>) tokens cnt s m) (\<lambda>(_, item, s, m).
       Inr (0, item, s, m)))"

text \<open>\<open>init_kvengine\<close> and \<open>exit_kvengine\<close> as \<open>kv_store.h\<close> configures them: the hash engine.\<close>

definition init_kvengine :: "hashtable \<Rightarrow> mem \<Rightarrow> int \<times> hashtable \<times> mem" where
  "init_kvengine Hash m = (let (_, Hash, m) = kvstore_hash_create Hash m in (0, Hash, m))"

definition exit_kvengine :: "hashtable \<Rightarrow> mem \<Rightarrow> (int \<times> mem) res" where
  "exit_kvengine Hash m = rbind (kvstore_hash_destory Hash m) (\<lambda>m. Inr (0, m))"

section \<open>The tokens of a request\<close>

text \<open>What a request means: its maximal runs of characters other than the space.\<close>

abbreviation SP :: char where "SP \<equiv> CHR '' ''"

function words :: "string \<Rightarrow> string list" where
  "words s =
     (let t = dropWhile (\<lambda>c. c = SP) s
      in if t = [] then [] else takeWhile (\<lambda>c. c \<noteq> SP) t # words (dropWhile (\<lambda>c. c \<noteq> SP) t))"
  by pat_completeness auto
termination
proof (relation "measure length", goal_cases)
  case (2 s t)
  then have "hd t \<noteq> SP"
    using hd_dropWhile [of "\<lambda>c. c = SP" s] by simp
  then have "length (dropWhile (\<lambda>c. c \<noteq> SP) t) < length t"
    using 2(2) by (cases t) (simp_all add: less_Suc_eq_le length_dropWhile_le)
  then show ?case
    using 2(1) length_dropWhile_le [of "\<lambda>c. c = SP" s] by simp
qed simp

declare words.simps [simp del]

lemma words_space [simp]: "words (SP # s) = words s"
  by (simp add: words.simps [of "SP # s"] words.simps [of s])

lemma words_Nil [simp]: "words [] = []"
  by (simp add: words.simps)

lemma take_drop_word:
  "SP \<notin> set w \<Longrightarrow> takeWhile (\<lambda>c. c \<noteq> SP) (w @ SP # r) = w"
  "SP \<notin> set w \<Longrightarrow> dropWhile (\<lambda>c. c \<noteq> SP) (w @ SP # r) = SP # r"
  "SP \<notin> set w \<Longrightarrow> takeWhile (\<lambda>c. c \<noteq> SP) w = w"
  "SP \<notin> set w \<Longrightarrow> dropWhile (\<lambda>c. c \<noteq> SP) w = []"
  by (induction w) auto

lemma words_word: "w \<noteq> [] \<Longrightarrow> SP \<notin> set w \<Longrightarrow> words (w @ SP # r) = w # words r"
  by (cases w) (auto simp: words.simps [of "_ # _ @ _"] take_drop_word)

lemma words_last: "w \<noteq> [] \<Longrightarrow> SP \<notin> set w \<Longrightarrow> words w = [w]"
  by (cases w) (auto simp: words.simps [of "_ # _"] take_drop_word)

lemma words_spaces [simp]: "words (replicate a SP @ s) = words s"
  by (induction a) auto

lemma words_cases:
  obtains (none) a where "s = replicate a SP" "words s = []"
  | (last) a w where "s = replicate a SP @ w" "w \<noteq> []" "SP \<notin> set w" "words s = [w]"
  | (more) a w r where "s = replicate a SP @ w @ SP # r" "w \<noteq> []" "SP \<notin> set w" "words s = w # words r"
proof (induction s arbitrary: thesis)
  case Nil
  show ?case by (rule Nil(1) [of 0]) simp_all
next
  case (Cons c s)
  note IH = Cons.IH and none = Cons.prems(1) and last = Cons.prems(2) and more = Cons.prems(3)
  show ?case
  proof (cases "c = SP")
    case True
    show ?thesis
    proof (rule IH)
      fix a assume "s = replicate a SP" "words s = []"
      with True show thesis by (intro none [of "Suc a"]) simp_all
    next
      fix a w assume "s = replicate a SP @ w" "w \<noteq> []" "SP \<notin> set w" "words s = [w]"
      with True show thesis by (intro last [of "Suc a" w]) simp_all
    next
      fix a w r assume "s = replicate a SP @ w @ SP # r" "w \<noteq> []" "SP \<notin> set w" "words s = w # words r"
      with True show thesis by (intro more [of "Suc a" w r]) simp_all
    qed
  next
    case False
    show ?thesis
    proof (cases "SP \<in> set s")
      case True
      then obtain w r where "s = w @ SP # r" "SP \<notin> set w"
        by (auto dest: split_list_first)
      with False show ?thesis
        using words_word [of "c # w" r] by (intro more [of 0 "c # w" r]) simp_all
    next
      case nosp: False
      with False show ?thesis
        using words_last [of "c # s"] by (intro last [of 0 "c # s"]) simp_all
    qed
  qed
qed

lemma span_spaces_run: "c \<noteq> SP \<Longrightarrow> span_spaces (replicate a SP @ c # r) = Some a"
  by (induction a) auto

lemma span_token_run:
  "SP \<notin> set w \<Longrightarrow> NUL \<notin> set w \<Longrightarrow> c = SP \<or> c = NUL \<Longrightarrow> span_token (w @ c # r) = Some (length w)"
  by (induction w) auto

lemma nth_from_drop: "drop p xs = ys @ z # zs \<Longrightarrow> xs ! (p + length ys) = z \<and> p + length ys < length xs"
proof -
  assume d: "drop p xs = ys @ z # zs"
  then have "length (drop p xs) = length ys + Suc (length zs)" by simp
  then have p: "p + length ys < length xs" by simp
  have "drop p xs ! length ys = z" using d by simp
  with p show ?thesis by simp
qed

lemma drop_from_drop: "drop p xs = ys @ zs \<Longrightarrow> drop (p + length ys) xs = zs"
  by (metis add.commute append_eq_conv_conj drop_drop)

lemma strtok_none:
  assumes "drop p buf = replicate a SP @ NUL # rest"
  shows "strtok buf p = Inr (None, p + a, buf)"
  using assms nth_from_drop [OF assms] by (simp add: strtok_def span_spaces_run)

lemma strtok_token:
  assumes d: "drop p buf = replicate a SP @ w @ c # r"
    and w: "w \<noteq> []" "SP \<notin> set w" "NUL \<notin> set w" and c: "c = SP \<or> c = NUL"
  shows "strtok buf p = Inr (Some (p + a),
           if c = NUL then (p + a + length w, buf) else (Suc (p + a + length w), buf[p + a + length w := NUL]))"
proof -
  obtain x w' where ww: "w = x # w'" using w(1) by (cases w) auto
  have x: "x \<noteq> SP" "x \<noteq> NUL" using ww w by auto
  have d': "drop (p + a) buf = w @ c # r"
    using drop_from_drop [OF d] by simp
  have "buf ! (p + a) = x"
    using nth_from_drop [of p buf "replicate a SP" x "w' @ c # r"] d ww by simp
  moreover have "buf ! (p + a + length w) = c"
    using nth_from_drop [OF d'] by simp
  moreover have "span_spaces (drop p buf) = Some a"
    using d ww x span_spaces_run [of x a "w' @ c # r"] by simp
  moreover have "span_token (drop (p + a) buf) = Some (length w)"
    using d' w c span_token_run by simp
  ultimately show ?thesis
    using x c by (auto simp: strtok_def Let_def)
qed

lemma cstring_append: "NUL \<notin> set w \<Longrightarrow> cstring (w @ NUL # r) = w"
  by (induction w) (auto simp: cstring_def)

lemma drop_take_prefix:
  assumes "take n buf' = take n buf" and "t \<le> n" and "drop t (take n buf) = w @ [NUL]" and "NUL \<notin> set w"
  shows "cstring (drop t buf') = w"
proof -
  have "drop t buf' = drop t (take n buf' @ drop n buf')" by simp
  also have "\<dots> = drop t (take n buf') @ drop (t - length (take n buf')) (drop n buf')"
    by (rule drop_append)
  also have "\<dots> = (w @ [NUL]) @ drop (t - length (take n buf')) (drop n buf')"
    using assms(1,3) by simp
  finally show ?thesis
    using assms(4) cstring_append by simp
qed

text \<open>
  \<open>strtok\<close> in a loop finds the words of the string, or overruns the array of tokens when there are
  more than 128 of them.
\<close>

lemma split_loop_words:
  assumes "drop p buf = s @ NUL # rest" and "NUL \<notin> set s"
  shows "if length toks + length (words s) \<le> KVSTORE_MAX_TOKENS
         then \<exists>ts buf'. split_loop p buf toks = Inr (toks @ ts, buf') \<and> length buf' = length buf \<and>
                take p buf' = take p buf \<and> map (\<lambda>t. cstring (drop t buf')) ts = words s
         else length toks \<le> KVSTORE_MAX_TOKENS \<longrightarrow> split_loop p buf toks = Inl Out_Of_Bounds"
  using assms
proof (induction "length s" arbitrary: s p buf toks rule: less_induct)
  case less
  show ?case
  proof (cases s rule: words_cases)
    case (none a)
    with less.prems have "strtok buf p = Inr (None, p + a, buf)"
      by (intro strtok_none [where rest = rest]) simp
    with none show ?thesis
      by (simp add: split_loop.simps [of p])
  next
    case (last a w)
    let ?e = "p + a + length w"
    have d: "drop p buf = replicate a SP @ w @ NUL # rest" and w: "NUL \<notin> set w"
      using less.prems last by simp_all
    have tok: "strtok buf p = Inr (Some (p + a), ?e, buf)"
      using strtok_token [OF d last(2,3) w] by simp
    have "drop ?e buf = replicate 0 SP @ NUL # rest"
      using drop_from_drop [of p buf "replicate a SP @ w"] d by (simp add: add.assoc)
    from strtok_none [OF this] have fin: "split_loop ?e buf (toks @ [p + a]) = Inr (toks @ [p + a], buf)"
      by (simp add: split_loop.simps)
    have "drop (p + a) buf = w @ NUL # rest"
      using drop_from_drop [OF d] by simp
    then have "cstring (drop (p + a) buf) = w"
      using w cstring_append by simp
    with last tok fin show ?thesis
      by (auto simp: split_loop.simps [of p])
  next
    case (more a w r)
    let ?e = "p + a + length w"
    let ?buf = "buf[?e := NUL]"
    have d: "drop p buf = replicate a SP @ w @ SP # r @ NUL # rest" and w: "NUL \<notin> set w"
      and r: "NUL \<notin> set r"
      using less.prems more by simp_all
    have tok: "strtok buf p = Inr (Some (p + a), Suc ?e, ?buf)"
      using strtok_token [OF d more(2,3) w] by simp
    have d1: "drop (p + a) buf = w @ SP # r @ NUL # rest"
      using drop_from_drop [OF d] by simp
    then have d2: "drop (Suc ?e) buf = r @ NUL # rest"
      using drop_from_drop [of "p + a" buf "w @ [SP]"] by simp
    have e: "?e < length buf"
      using nth_from_drop [OF d1] by simp
    have d3: "drop (Suc ?e) ?buf = r @ NUL # rest"
      using d2 by (simp add: drop_update_cancel)
    have "drop (p + a) (take (Suc ?e) ?buf) = w @ [NUL]"
      using d1 e by (simp add: take_Suc_conv_app_nth take_update_cancel drop_take)
    then have str: "cstring (drop (p + a) buf') = w" if "take (Suc ?e) buf' = take (Suc ?e) ?buf" for buf'
      using drop_take_prefix [OF that, of "p + a" w] w by simp
    have pre: "take p buf' = take p buf" if "take (Suc ?e) buf' = take (Suc ?e) ?buf" for buf'
    proof -
      have "take p (take (Suc ?e) buf') = take p (take (Suc ?e) ?buf)"
        using that by simp
      then show ?thesis
        by (simp add: min_def take_update_cancel)
    qed
    have "length r < length s" using more by simp
    note IH = less.hyps [OF this d3 r, of "toks @ [p + a]"]
    show ?thesis
    proof (cases "length toks + length (words s) \<le> KVSTORE_MAX_TOKENS")
      case True
      then obtain ts buf' where "split_loop (Suc ?e) ?buf (toks @ [p + a]) = Inr ((toks @ [p + a]) @ ts, buf')"
        "length buf' = length buf" "take (Suc ?e) buf' = take (Suc ?e) ?buf"
        "map (\<lambda>t. cstring (drop t buf')) ts = words r"
        using IH more(4) by auto
      then show ?thesis
        using True tok more(4) str pre
        by (auto simp: split_loop.simps [of p] intro!: exI [of _ "(p + a) # ts"])
    next
      case False
      then show ?thesis
        using IH tok more(4) by (auto simp: split_loop.simps [of p])
    qed
  qed
qed

text \<open>A full buffer without a NUL is read past its end.\<close>

lemma split_loop_unterminated: "NUL \<notin> set (drop p buf) \<Longrightarrow> split_loop p buf toks = Inl Out_Of_Bounds"
proof (induction p buf toks rule: split_loop.induct)
  case (1 p buf toks)
  have nn: "buf ! i \<noteq> NUL" if "p \<le> i" "i < length buf" for i
  proof
    assume "buf ! i = NUL"
    then have "drop p buf ! (i - p) = NUL" "i - p < length (drop p buf)"
      using that by simp_all
    then show False
      using 1(2) nth_mem [of "i - p" "drop p buf"] by simp
  qed
  show ?case
  proof (cases "strtok buf p")
    case (Inl f)
    then have "f = Out_Of_Bounds"
      unfolding strtok_def by (simp add: Let_def split: option.splits if_splits)
    with Inl show ?thesis by (simp add: split_loop.simps [of p])
  next
    case (Inr r)
    obtain a where a: "span_spaces (drop p buf) = Some a"
      using Inr by (cases "span_spaces (drop p buf)") (simp_all add: strtok_def)
    have "p + a < length buf"
      using span_spaces_Some [OF a] by auto
    then have s: "buf ! (p + a) \<noteq> NUL"
      using nn [of "p + a"] by simp
    obtain b where b: "span_token (drop (p + a) buf) = Some b"
      using Inr a s by (cases "span_token (drop (p + a) buf)") (simp_all add: strtok_def)
    have "p + a + b < length buf"
      using conjunct1 [OF span_token_Some [OF b]] by simp
    then have e: "buf ! (p + a + b) \<noteq> NUL"
      using nn [of "p + a + b"] by simp
    have r: "strtok buf p = Inr (Some (p + a), Suc (p + a + b), buf[p + a + b := NUL])"
      using a s b e by (simp add: strtok_def Let_def)
    have "set (drop (Suc (p + a + b)) buf) \<subseteq> set (drop p buf)"
      by (rule set_drop_subset_set_drop) simp
    then have rest: "NUL \<notin> set (drop (Suc (p + a + b)) (buf[p + a + b := NUL]))"
      using 1(2) by (simp add: drop_update_cancel) blast
    have "length toks < KVSTORE_MAX_TOKENS \<Longrightarrow>
        split_loop (Suc (p + a + b)) (buf[p + a + b := NUL]) (toks @ [p + a]) = Inl Out_Of_Bounds"
      by (rule 1(1) [OF r refl refl refl _ rest])
    with r show ?thesis
      by (simp add: split_loop.simps [of p])
  qed
qed

section \<open>What a request does to the stored map\<close>

text \<open>
  The request as an operation on a map: the text of the reply and the map afterwards. It is
  \<^term>\<open>None\<close> where the engines differ from one another or the store goes wrong: fewer tokens than
  the command needs, an unknown command, deleting a key that is not stored, and setting one that
  is, unless the engine overwrites (\<open>ow\<close>).
\<close>

fun kv_spec :: "bool \<Rightarrow> int \<Rightarrow> string list \<Rightarrow> (string \<Rightarrow> string option) \<Rightarrow>
    (string \<times> (string \<Rightarrow> string option)) option" where
  "kv_spec ow miss (c # k # vs) M =
     (if c = ''GET'' then Some (case M k of Some v \<Rightarrow> v | None \<Rightarrow> ''NO EXIST'', M)
      else if c = ''DEL'' then (if M k = None then None else Some (''SUCCESS'', M(k := None)))
      else (case vs of
              [] \<Rightarrow> None
            | v # _ \<Rightarrow>
                if c = ''SET'' then (if M k = None \<or> ow then Some (''SUCCESS'', M(k \<mapsto> v)) else None)
                else if c = ''MOD'' then
                  Some (if M k = None then (if miss < 0 then ''ERROR'' else ''MOD_FAILER'', M)
                        else (''SUCCESS'', M(k \<mapsto> v)))
                else None))"
| "kv_spec ow miss _ M = None"

text \<open>A receive buffer that holds the string \<open>s\<close>, terminated within the buffer.\<close>

definition holds_request :: "conn_item \<Rightarrow> string \<Rightarrow> bool" where
  "holds_request item s \<longleftrightarrow> NUL \<notin> set s \<and> (\<exists>rest. rbuffer item = s @ NUL # rest)"

lemma request_tokens:
  assumes "holds_request item s" and "length (words s) \<le> KVSTORE_MAX_TOKENS"
  obtains ts buf where "kvstore_split_token (Some (rbuffer item)) = Inr (int (length (words s)), ts, Some buf)"
    "length buf = length (rbuffer item)" "length ts = length (words s)"
    "\<And>it i. i < length (words s) \<Longrightarrow> rbuffer it = buf \<Longrightarrow> token_at it ts i = Inr (Some (words s ! i))"
    "\<And>it i. \<not> i < length (words s) \<Longrightarrow> token_at it ts i = Inl Uninit_Read"
proof -
  obtain rest where "drop 0 (rbuffer item) = s @ NUL # rest" "NUL \<notin> set s"
    using assms(1) by (auto simp: holds_request_def)
  from split_loop_words [OF this, of "[]"] assms(2)
  obtain ts buf where ts: "split_loop 0 (rbuffer item) [] = Inr (ts, buf)" "length buf = length (rbuffer item)"
    "map (\<lambda>t. cstring (drop t buf)) ts = words s"
    by auto
  then have len: "length ts = length (words s)"
    by (metis length_map)
  show thesis
  proof (rule that [of ts buf])
    show "kvstore_split_token (Some (rbuffer item)) = Inr (int (length (words s)), ts, Some buf)"
      using ts len by (simp add: kvstore_split_token_def)
    show "token_at it ts i = Inr (Some (words s ! i))" if "i < length (words s)" "rbuffer it = buf" for it i
      using arg_cong [OF ts(3), of "\<lambda>xs. xs ! i"] len that by (simp add: token_at_def)
  qed (use ts len in \<open>simp_all add: token_at_def\<close>)
qed

lemma find_command_simps [simp]:
  "find_command ''SET'' commands = 0" "find_command ''GET'' commands = 1"
  "find_command ''DEL'' commands = 2" "find_command ''MOD'' commands = 3"
  by (simp_all add: commands_def)

lemma find_command_unknown: "t \<notin> set commands \<Longrightarrow> find_command t commands = 4"
  by (auto simp: commands_def)

text \<open>The request of the words \<open>ws\<close>, once they have been found.\<close>

definition answer :: "'s engine \<Rightarrow> string list \<Rightarrow> 's \<Rightarrow> mem \<Rightarrow> (string \<times> 's \<times> mem) res" where
  "answer eng ws s m =
     (case ws of
        c # k # vs \<Rightarrow>
          if c = ''GET'' then
            rbind (eng_get eng s (Some k)) (\<lambda>(value, s).
              Inr (case value of Some v \<Rightarrow> v | None \<Rightarrow> ''NO EXIST'', s, m))
          else if c = ''DEL'' then
            rbind (eng_del eng s (Some k) m) (\<lambda>(ret, s, m).
              Inr (if ret < 0 then ''ERROR'' else if ret = 0 then ''SUCCESS'' else ''DEL_FAILER'', s, m))
          else if c = ''SET'' then
            (case vs of [] \<Rightarrow> Inl Uninit_Read
             | v # _ \<Rightarrow> rbind (eng_set eng s (Some k) (Some v) m) (\<lambda>(ret, s, m).
                 Inr (if ret = 0 then ''SUCCESS'' else ''FAILER'', s, m)))
          else if c = ''MOD'' then
            (case vs of [] \<Rightarrow> Inl Uninit_Read
             | v # _ \<Rightarrow> rbind (eng_mod eng s (Some k) (Some v) m) (\<lambda>(ret, s, m).
                 Inr (if ret < 0 then ''ERROR'' else if ret = 0 then ''SUCCESS'' else ''MOD_FAILER'', s, m)))
          else Inl Assert_Fail
      | [c] \<Rightarrow> if c \<in> set commands then Inl Uninit_Read else Inl Assert_Fail
      | [] \<Rightarrow> Inl Uninit_Read)"

lemma parser_answer:
  assumes "length ws = length ts" and "ws \<noteq> []"
    and at: "\<And>i. i < length ws \<Longrightarrow> token_at item ts i = Inr (Some (ws ! i))"
  shows "kvstore_parser_protocol eng item ts (int (length ts)) s m =
           rbind (answer eng ws s m) (\<lambda>(text, s, m). Inr (1, item\<lparr>wbuffer := snprintf_buf text\<rparr>, s, m))"
proof -
  obtain c rest where ws: "ws = c # rest" using assms(2) by (cases ws) auto
  have n0: "int (length ts) \<noteq> 0" using assms by auto
  have a0: "token_at item ts 0 = Inr (Some c)" using at [of 0] ws by simp
  have no: "token_at item ts i = Inl Uninit_Read" if "\<not> i < length ws" for i
    using that assms(1) by (simp add: token_at_def)
  have cmd: "c \<notin> set commands \<Longrightarrow> find_command c commands = 4"
    by (rule find_command_unknown)
  show ?thesis
  proof (cases rest)
    case Nil
    then have "token_at item ts 1 = Inl Uninit_Read" using no [of 1] ws by simp
    with n0 a0 Nil ws show ?thesis
      by (cases "c \<in> set commands")
         (auto simp: kvstore_parser_protocol_def answer_def cmd commands_def)
  next
    case (Cons k vs)
    then have a1: "token_at item ts (Suc 0) = Inr (Some k)" using at [of 1] ws by simp
    have a2: "token_at item ts 2 = (case vs of [] \<Rightarrow> Inl Uninit_Read | v # _ \<Rightarrow> Inr (Some v))"
      using at [of 2] no [of 2] ws Cons by (cases vs) simp_all
    consider "c = ''SET''" | "c = ''GET''" | "c = ''DEL''" | "c = ''MOD''" | "c \<notin> set commands"
      by (auto simp: commands_def)
    then show ?thesis
    proof cases
      case 1
      then show ?thesis
        using n0 a0 a1 a2 Cons ws
        by (cases vs; cases "eng_set eng s (Some k) (Some (hd vs)) m")
           (auto simp: kvstore_parser_protocol_def answer_def kvstore_set_def)
    next
      case 2
      then show ?thesis
        using n0 a0 a1 a2 Cons ws
        by (cases "eng_get eng s (Some k)")
           (auto simp: kvstore_parser_protocol_def answer_def kvstore_get_def)
    next
      case 3
      then show ?thesis
        using n0 a0 a1 a2 Cons ws
        by (cases "eng_del eng s (Some k) m")
           (auto simp: kvstore_parser_protocol_def answer_def kvstore_delete_def)
    next
      case 4
      then show ?thesis
        using n0 a0 a1 a2 Cons ws
        by (cases vs; cases "eng_mod eng s (Some k) (Some (hd vs)) m")
           (auto simp: kvstore_parser_protocol_def answer_def kvstore_modify_def)
    next
      case 5
      then have "c \<noteq> ''GET''" "c \<noteq> ''DEL''" "c \<noteq> ''SET''" "c \<noteq> ''MOD''"
        by (auto simp: commands_def)
      then show ?thesis
        using n0 a0 a1 Cons ws cmd [OF 5]
        by (simp add: kvstore_parser_protocol_def answer_def)
    qed
  qed
qed

lemma request_answer:
  assumes "holds_request item t" and "length (words t) \<le> KVSTORE_MAX_TOKENS" and "words t \<noteq> []"
  obtains buf where "length buf = length (rbuffer item)"
    "kvstore_request eng item s m = rbind (answer eng (words t) s m)
       (\<lambda>(text, s, m). Inr (0, item\<lparr>rbuffer := buf, wbuffer := snprintf_buf text\<rparr>, s, m))"
proof -
  obtain ts buf where ts: "kvstore_split_token (Some (rbuffer item)) = Inr (int (length (words t)), ts, Some buf)"
    "length buf = length (rbuffer item)" "length ts = length (words t)"
    "\<And>it i. i < length (words t) \<Longrightarrow> rbuffer it = buf \<Longrightarrow> token_at it ts i = Inr (Some (words t ! i))"
    by (rule request_tokens [OF assms(1,2)]) (rule that)
  have "kvstore_parser_protocol eng (item\<lparr>rbuffer := buf\<rparr>) ts (int (length ts)) s m =
      rbind (answer eng (words t) s m)
        (\<lambda>(text, s, m). Inr (1, item\<lparr>rbuffer := buf\<rparr>\<lparr>wbuffer := snprintf_buf text\<rparr>, s, m))"
    by (rule parser_answer) (use ts assms(3) in simp_all)
  then have "kvstore_request eng item s m = rbind (answer eng (words t) s m)
      (\<lambda>(text, s, m). Inr (0, item\<lparr>rbuffer := buf, wbuffer := snprintf_buf text\<rparr>, s, m))"
    using ts(1,3) by (cases "answer eng (words t) s m") (auto simp: kvstore_request_def)
  with ts(2) show thesis by (rule that)
qed

context kv_engine
begin

lemma answer_spec:
  assumes s: "inv s" "mem_good m" "used s < cap"
    and spec: "kv_spec False miss ws (abs s) = Some (reply, M)"
  obtains s' m' where "answer eng ws s m = Inr (reply, s', m')" "inv s'" "mem_good m'" "abs s' = M"
    "used s' \<le> Suc (used s)"
proof -
  obtain c k vs where ws: "ws = c # k # vs"
    using spec by (cases "(False, miss, ws, abs s)" rule: kv_spec.cases) auto
  note spec' = spec [unfolded ws, simplified]
  consider "c = ''GET''" | "c = ''DEL''" | v r where "c = ''SET''" "vs = v # r" | v r where "c = ''MOD''" "vs = v # r"
    using spec' by (auto split: if_splits list.splits)
  then show thesis
  proof cases
    case 1
    with s spec' show ?thesis
      by (intro that [of s m]) (auto simp: answer_def ws get)
  next
    case 2
    with spec' have k: "abs s k \<noteq> None" by (auto split: if_splits)
    with 2 s spec' del_stored [OF s(1,2) k] that show ?thesis
      by (fastforce simp: answer_def ws)
  next
    case 3
    with spec' have k: "abs s k = None" by (auto split: if_splits)
    with 3 s spec' set_new [OF s k, of v] that show ?thesis
      by (fastforce simp: answer_def ws)
  next
    case 4
    show ?thesis
    proof (cases "abs s k = None")
      case True
      with 4 s spec' miss mod_absent [OF s(1) True, of v m] show ?thesis
        by (intro that [of s m]) (auto simp: answer_def ws)
    next
      case False
      with 4 s spec' mod_stored [OF s(1,2) False, of v] that show ?thesis
        by (fastforce simp: answer_def ws)
    qed
  qed
qed

end

context kv_map_engine
begin

lemma answer_map_spec:
  assumes s: "inv s" "mem_good m" "used s < cap"
    and spec: "kv_spec True miss ws (abs s) = Some (reply, M)"
  obtains s' m' where "answer eng ws s m = Inr (reply, s', m')" "inv s'" "mem_good m'" "abs s' = M"
    "used s' \<le> Suc (used s)"
proof (cases "kv_spec False miss ws (abs s) = Some (reply, M)")
  case True
  then show thesis
    using answer_spec [OF s] that by blast
next
  case False
  obtain c k vs where ws: "ws = c # k # vs"
    using spec by (cases "(True, miss, ws, abs s)" rule: kv_spec.cases) auto
  have "c = ''SET''" "vs \<noteq> []" and k: "abs s k \<noteq> None"
    using spec False unfolding ws by (auto split: if_splits list.splits)
  then obtain v r where c: "c = ''SET''" "vs = v # r"
    by (cases vs) auto
  obtain s' m' where "eng_set eng s (Some k) (Some v) m = Inr (0, s', m')" "inv s'" "mem_good m'"
    "abs s' = (abs s)(k \<mapsto> v)" "used s' = used s"
    using set_stored [OF s k] by blast
  with spec show thesis
    by (intro that [of s' m']) (auto simp: answer_def ws c)
qed

end

section \<open>Properties\<close>

definition item_with :: "string \<Rightarrow> conn_item" where
  "item_with t = zero_item\<lparr>rbuffer := t @ replicate (BUFFER_LENGTH - length t) NUL\<rparr>"

lemma holds_request_item_with: "NUL \<notin> set t \<Longrightarrow> length t < BUFFER_LENGTH \<Longrightarrow> holds_request (item_with t) t"
  by (cases "BUFFER_LENGTH - length t") (auto simp: holds_request_def item_with_def)

lemma request_examples:
  "words ''GET a'' = [''GET'', ''a'']" "holds_request (item_with ''GET a'') ''GET a''"
  "words ''SET a'' = [''SET'', ''a'']" "holds_request (item_with ''SET a'') ''SET a''"
proof -
  show "words ''GET a'' = [''GET'', ''a'']" "words ''SET a'' = [''SET'', ''a'']"
    using words_word [of "''GET''" "''a''"] words_word [of "''SET''" "''a''"] words_last [of "''a''"] by simp_all
qed (rule holds_request_item_with; simp add: BUFFER_LENGTH_def)+

text \<open>
  C13: cutting a request into tokens. On a buffer that holds a terminated string, \<open>kvstore_split_token\<close>
  returns the number of its words and stores, for each, a pointer at which the buffer now holds
  exactly that word, if there are at most 128; with more words it writes past the array of tokens.
  A buffer without a NUL (a full receive) is read past its end.
\<close>

theorem split_token_correct:
  "(NUL \<notin> set s \<longrightarrow> length (words s) \<le> 128 \<longrightarrow>
     (\<exists>ts buf. kvstore_split_token (Some (s @ NUL # rest)) = Inr (int (length (words s)), ts, Some buf) \<and>
        length buf = length (s @ NUL # rest) \<and> map (\<lambda>t. cstring (drop t buf)) ts = words s)) \<and>
   (NUL \<notin> set s \<longrightarrow> 128 < length (words s) \<longrightarrow>
     kvstore_split_token (Some (s @ NUL # rest)) = Inl Out_Of_Bounds) \<and>
   (NUL \<notin> set s \<longrightarrow> kvstore_split_token (Some s) = Inl Out_Of_Bounds)"
proof -
  have d: "drop 0 (s @ NUL # rest) = s @ NUL # rest" by simp
  show ?thesis
    using split_loop_words [OF d, of "[]"] split_loop_unterminated [of 0 s "[]"]
    by (auto simp: kvstore_split_token_def KVSTORE_MAX_TOKENS_def split: if_splits) (metis length_map)
qed

theorem split_token_correct_witness:
  "kvstore_split_token (Some (replicate 1024 CHR ''x'')) = Inl Out_Of_Bounds \<and>
   (\<exists>ts buf. kvstore_split_token (Some (''GET a'' @ NUL # [])) = Inr (2, ts, Some buf) \<and>
      map (\<lambda>t. cstring (drop t buf)) ts = [''GET'', ''a''])"
  using split_token_correct [of "''GET a''" "[]", unfolded request_examples(1)]
    split_token_correct [of "replicate 1024 CHR ''x''" "[]"]
  by auto

text \<open>
  C19: requests that the protocol layer does not check. A command with too few arguments makes it
  pass an element of the token array that was never written, a first word that is no command runs
  into \<open>assert(0)\<close>, and a blank request leaves the previous reply in the send buffer.
\<close>

theorem request_malformed:
  assumes "holds_request item t" and "length (words t) \<le> 128"
  shows "(words t = [] \<longrightarrow> (\<exists>item'. kvstore_request eng item s m = Inr (0, item', s, m) \<and>
                            wbuffer item' = wbuffer item)) \<and>
         (words t \<noteq> [] \<longrightarrow> hd (words t) \<notin> set commands \<longrightarrow> kvstore_request eng item s m = Inl Assert_Fail) \<and>
         (words t \<noteq> [] \<longrightarrow> hd (words t) \<in> set commands \<longrightarrow>
            length (words t) < (if hd (words t) = ''SET'' \<or> hd (words t) = ''MOD'' then 3 else 2) \<longrightarrow>
            kvstore_request eng item s m = Inl Uninit_Read)"
proof -
  have len: "length (words t) \<le> KVSTORE_MAX_TOKENS"
    using assms(2) by (simp add: KVSTORE_MAX_TOKENS_def)
  have blank: "\<exists>item'. kvstore_request eng item s m = Inr (0, item', s, m) \<and> wbuffer item' = wbuffer item"
    if ws: "words t = []"
  proof -
    obtain ts buf where "kvstore_split_token (Some (rbuffer item)) = Inr (int (length (words t)), ts, Some buf)"
      by (rule request_tokens [OF assms(1) len])
    then show ?thesis
      using ws by (simp add: kvstore_request_def kvstore_parser_protocol_def)
  qed
  have "kvstore_request eng item s m = Inl f" if "words t \<noteq> []" "answer eng (words t) s m = Inl f" for f
    by (rule request_answer [OF assms(1) len that(1), of eng s m]) (simp add: that(2))
  moreover have "answer eng (words t) s m = Inl Assert_Fail" if "words t \<noteq> []" "hd (words t) \<notin> set commands"
    using that by (auto simp: answer_def commands_def split: list.splits)
  moreover have "answer eng (words t) s m = Inl Uninit_Read"
    if "words t \<noteq> []" "hd (words t) \<in> set commands"
      "length (words t) < (if hd (words t) = ''SET'' \<or> hd (words t) = ''MOD'' then 3 else 2)"
    using that by (cases "words t"; cases "tl (words t)")
      (auto simp: answer_def commands_def split: list.splits if_splits)
  ultimately show ?thesis
    using blank by blast
qed

theorem request_malformed_witness:
  "kvstore_request array_engine (item_with ''SET a'') empty_array good_mem = Inl Uninit_Read"
  using request_malformed [OF request_examples(4), of array_engine empty_array good_mem,
      unfolded request_examples(3)]
  by (simp add: commands_def)

text \<open>
  C14: the array engine behind the protocol. Every request whose map meaning does not depend on the
  engine (setting a new key, reading, deleting a stored key, modifying) is answered with the reply
  the map gives and leaves the array storing the map the request asks for.
\<close>

theorem array_request_refines:
  assumes "array_inv s" and "mem_good m" and "array_used s < 1024"
    and "holds_request item t" and "length (words t) \<le> 128"
    and "kv_spec False 1 (words t) (array_abs s) = Some (reply, M)"
  shows "\<exists>item' s' m'. kvstore_request array_engine item s m = Inr (0, item', s', m') \<and>
           wbuffer item' = snprintf_buf reply \<and> array_inv s' \<and> array_abs s' = M"
proof -
  have "words t \<noteq> []" using assms(6) by auto
  then obtain buf where rq: "kvstore_request array_engine item s m = rbind (answer array_engine (words t) s m)
       (\<lambda>(text, s, m). Inr (0, item\<lparr>rbuffer := buf, wbuffer := snprintf_buf text\<rparr>, s, m))"
    using request_answer [OF assms(4)] assms(5) by (metis KVSTORE_MAX_TOKENS_def)
  obtain s' m' where "answer array_engine (words t) s m = Inr (reply, s', m')" "array_inv s'" "array_abs s' = M"
    by (rule arr.answer_spec [OF assms(1,2) _ assms(6)]) (use assms(3) in \<open>simp add: KVS_ARRAY_SIZE_def\<close>)
  with rq show ?thesis by simp
qed

theorem array_request_refines_witness:
  "\<exists>item' s' m'. kvstore_request array_engine (item_with ''GET a'') one_array good_mem = Inr (0, item', s', m') \<and>
     wbuffer item' = snprintf_buf ''1'' \<and> array_inv s' \<and> array_abs s' = array_abs one_array"
  by (rule array_request_refines [OF one_array_ok(1) good_mem_good _ request_examples(2)],
      unfold request_examples(1))
     (simp_all add: one_array_ok)

end
