(* ===== verification/KvServer.thy ===== *)
theory KvServer
  imports Prelude KvEngine KvHash KvArray KvStore
begin

text \<open>
  The two network front ends of the key-value store: the coroutine \<open>server_reader\<close> of
  \<open>src/kv_store/ntyco_entry.c\<close>, which is the configured one, and the \<open>epoll\<close> event loop of
  \<open>src/kv_store/epoll_entry.c\<close>. What the kernel delivers (the bytes of a \<open>recv\<close>, the results of
  \<open>send\<close>, \<open>accept\<close> and \<open>bind\<close>, the events of \<open>epoll_wait\<close>) is an argument. A coroutine gives up the
  processor only inside \<open>recv\<close> and \<open>send\<close>, so the requests of all connections reach the engine one
  after the other.
\<close>

section \<open>Receiving\<close>

datatype rx = Rx_Data string | Rx_Eof | Rx_Err

text \<open>\<open>recv(fd, buf, BUFFER_LENGTH, 0)\<close>: its result and the buffer afterwards.\<close>

fun recv_into :: "rx \<Rightarrow> string \<Rightarrow> int \<times> string" where
  "recv_into (Rx_Data d) buf =
     (let d' = take BUFFER_LENGTH d in (int (length d'), d' @ drop (length d') buf))"
| "recv_into Rx_Eof buf = (0, buf)"
| "recv_into Rx_Err buf = (- 1, buf)"

section \<open>The coroutine server\<close>

text \<open>
  \<open>server_reader\<close> over the results of its \<open>recv\<close> and \<open>send\<close> calls in order: whether it closed the
  connection (otherwise it is waiting in \<open>recv\<close>) and the replies it passed to \<open>send\<close>. The item is
  zeroed on every turn of the loop.
\<close>

fun server_reader :: "'s engine \<Rightarrow> (rx \<times> int) list \<Rightarrow> 's \<Rightarrow> mem \<Rightarrow> (bool \<times> string list \<times> 's \<times> mem) res" where
  "server_reader eng [] s m = Inr (False, [], s, m)"
| "server_reader eng ((rx, sent) # turns) s m =
     (let item = zero_item;
          (ret, buf) = recv_into rx (rbuffer item);
          item = item\<lparr>rbuffer := buf\<rparr>
      in if 0 < ret then
           rbind (kvstore_request eng item s m) (\<lambda>(_, item, s, m).
           let item = item\<lparr>wlen := int (length (cstring (wbuffer item)))\<rparr>;
               out = take (nat (wlen item)) (wbuffer item)
           in if sent = - 1 then Inr (True, [out], s, m)
              else rbind (server_reader eng turns s m) (\<lambda>(closed, outs, s, m).
                     Inr (closed, out # outs, s, m)))
         else if ret = 0 then Inr (True, [], s, m)
         else server_reader eng turns s m)"

section \<open>The epoll server\<close>

datatype interest = Ev_In | Ev_Out

record epoll_state =
  connlist :: "conn_item list"
  interests :: "int \<Rightarrow> interest option"

definition zero_epoll :: epoll_state where
  "zero_epoll = \<lparr>connlist = replicate BUFFER_LENGTH zero_item, interests = (\<lambda>_. None)\<rparr>"

text \<open>\<open>epoll_ctl\<close> refuses to add a descriptor twice or to modify one it does not have.\<close>

definition set_event :: "int \<Rightarrow> interest \<Rightarrow> bool \<Rightarrow> epoll_state \<Rightarrow> epoll_state" where
  "set_event fd event flag e =
     (if flag then (if interests e fd = None then e\<lparr>interests := (interests e)(fd \<mapsto> event)\<rparr> else e)
      else (if interests e fd \<noteq> None then e\<lparr>interests := (interests e)(fd \<mapsto> event)\<rparr> else e))"

definition conn_at :: "int \<Rightarrow> epoll_state \<Rightarrow> conn_item res" where
  "conn_at fd e = (if 0 \<le> fd \<and> fd < int BUFFER_LENGTH then Inr (connlist e ! nat fd) else Inl Out_Of_Bounds)"

definition put_conn :: "int \<Rightarrow> conn_item \<Rightarrow> epoll_state \<Rightarrow> epoll_state" where
  "put_conn fd item e = e\<lparr>connlist := (connlist e)[nat fd := item]\<rparr>"

definition accept_cb :: "int \<Rightarrow> int \<Rightarrow> epoll_state \<Rightarrow> (int \<times> epoll_state) res" where
  "accept_cb fd clientfd e =
     (let e = (if clientfd < 0 then e else set_event clientfd Ev_In True e)
      in rbind (conn_at clientfd e) (\<lambda>item.
           Inr (0, put_conn clientfd (item\<lparr>conn_fd := clientfd, rbuffer := replicate BUFFER_LENGTH NUL, rlen := 0,
                     wbuffer := replicate BUFFER_LENGTH NUL, wlen := 0, recv_t := Recv_Callback,
                     send_callback := True\<rparr>) e)))"

text \<open>\<open>recv_cb\<close> receives over what the last request left in the buffer, and does not test for -1.\<close>

definition recv_cb ::
  "'s engine \<Rightarrow> int \<Rightarrow> rx \<Rightarrow> epoll_state \<Rightarrow> 's \<Rightarrow> mem \<Rightarrow> (int \<times> epoll_state \<times> 's \<times> mem) res" where
  "recv_cb eng fd rx e s m =
     rbind (conn_at fd e) (\<lambda>item.
     let (cnt, buf) = recv_into rx (rbuffer item)
     in if cnt = 0 then Inr (0, e\<lparr>interests := (interests e)(fd := None)\<rparr>, s, m)
        else if INT_MAX < rlen item + cnt then Inl Int_Overflow
        else
          let item = item\<lparr>rbuffer := buf, rlen := rlen item + cnt\<rparr>
          in rbind (kvstore_request eng item s m) (\<lambda>(_, item, s, m).
             let item = item\<lparr>wlen := int (length (cstring (wbuffer item)))\<rparr>
             in Inr (cnt, set_event fd Ev_Out False (put_conn fd item e), s, m)))"

text \<open>\<open>send_cb\<close>: the bytes passed to \<open>send\<close>.\<close>

definition send_cb :: "int \<Rightarrow> int \<Rightarrow> epoll_state \<Rightarrow> (int \<times> string \<times> epoll_state) res" where
  "send_cb fd sent e =
     rbind (conn_at fd e) (\<lambda>item.
       Inr (sent, take (nat (wlen item)) (wbuffer item), set_event fd Ev_In False e))"

text \<open>\<open>init_server\<close> with the descriptor that \<open>socket\<close> returned and whether \<open>bind\<close> succeeded.\<close>

definition init_server :: "int \<times> bool \<Rightarrow> int" where
  "init_server sock = (if snd sock then fst sock else - 1)"

fun epoll_listen :: "(int \<times> bool) list \<Rightarrow> epoll_state \<Rightarrow> epoll_state res" where
  "epoll_listen [] e = Inr e"
| "epoll_listen (sock # socks) e =
     (let sockfd = init_server sock
      in rbind (conn_at sockfd e) (\<lambda>item.
           epoll_listen socks (set_event sockfd Ev_In True
             (put_conn sockfd (item\<lparr>conn_fd := sockfd, recv_t := Accept_Callback\<rparr>) e))))"

text \<open>One event of \<open>epoll_wait\<close>, with the results of the calls its callback makes.\<close>

record ep_event =
  ev_fd :: int
  ev_in :: bool
  ev_out :: bool
  ev_accept :: int
  ev_rx :: rx
  ev_sent :: int

definition epoll_event :: "'s engine \<Rightarrow> ep_event \<Rightarrow> epoll_state \<Rightarrow> 's \<Rightarrow> mem \<Rightarrow>
    ((int \<times> string) list \<times> epoll_state \<times> 's \<times> mem) res" where
  "epoll_event eng ev e s m =
     (let connfd = ev_fd ev
      in if ev_in ev then
           rbind (conn_at connfd e) (\<lambda>item.
           case recv_t item of
             No_Callback \<Rightarrow> Inl Null_Deref
           | Accept_Callback \<Rightarrow> rbind (accept_cb connfd (ev_accept ev) e) (\<lambda>(_, e). Inr ([], e, s, m))
           | Recv_Callback \<Rightarrow> rbind (recv_cb eng connfd (ev_rx ev) e s m) (\<lambda>(_, e, s, m). Inr ([], e, s, m)))
         else if ev_out ev then
           rbind (conn_at connfd e) (\<lambda>item.
           if send_callback item
           then rbind (send_cb connfd (ev_sent ev) e) (\<lambda>(_, out, e). Inr ([(connfd, out)], e, s, m))
           else Inl Null_Deref)
         else Inr ([], e, s, m))"

text \<open>\<open>epoll_entry\<close>: listen on the ports, then handle the events; the replies sent, in order.\<close>

fun epoll_loop :: "'s engine \<Rightarrow> ep_event list \<Rightarrow> epoll_state \<Rightarrow> 's \<Rightarrow> mem \<Rightarrow>
    ((int \<times> string) list \<times> epoll_state \<times> 's \<times> mem) res" where
  "epoll_loop eng [] e s m = Inr ([], e, s, m)"
| "epoll_loop eng (ev # evs) e s m =
     rbind (epoll_event eng ev e s m) (\<lambda>(out, e, s, m).
     rbind (epoll_loop eng evs e s m) (\<lambda>(outs, e, s, m). Inr (out @ outs, e, s, m)))"

definition epoll_entry :: "'s engine \<Rightarrow> (int \<times> bool) list \<Rightarrow> ep_event list \<Rightarrow> 's \<Rightarrow> mem \<Rightarrow>
    ((int \<times> string) list \<times> epoll_state \<times> 's \<times> mem) res" where
  "epoll_entry eng socks evs s m = rbind (epoll_listen socks zero_epoll) (\<lambda>e. epoll_loop eng evs e s m)"

section \<open>Sessions\<close>

text \<open>A sequence of requests as operations on a map.\<close>

fun kv_run :: "bool \<Rightarrow> int \<Rightarrow> string list list \<Rightarrow> (string \<Rightarrow> string option) \<Rightarrow>
    (string list \<times> (string \<Rightarrow> string option)) option" where
  "kv_run ow miss [] M = Some ([], M)"
| "kv_run ow miss (ws # wss) M =
     (case kv_spec ow miss ws M of
        None \<Rightarrow> None
      | Some (r, M') \<Rightarrow> map_option (\<lambda>(rs, M''). (r # rs, M'')) (kv_run ow miss wss M'))"

definition nul_free :: "(string \<Rightarrow> string option) \<Rightarrow> bool" where
  "nul_free M \<longleftrightarrow> (\<forall>k v. M k = Some v \<longrightarrow> NUL \<notin> set v)"

text \<open>A request as a client sends it: not empty, below the buffer size, no NUL, at most 128 words.\<close>

definition sendable :: "string \<Rightarrow> bool" where
  "sendable t \<longleftrightarrow> t \<noteq> [] \<and> length t < BUFFER_LENGTH \<and> NUL \<notin> set t \<and> length (words t) \<le> KVSTORE_MAX_TOKENS"

lemma words_chars: "w \<in> set (words t) \<Longrightarrow> set w \<subseteq> set t"
proof (induction "length t" arbitrary: t rule: less_induct)
  case less
  show ?case
  proof (cases t rule: words_cases)
    case (more a w' r)
    then have "set w \<subseteq> set w' \<or> set w \<subseteq> set r"
      using less.hyps [of r] less.prems by auto
    with more(1) show ?thesis by auto
  qed (use less.prems in auto)
qed

lemma kv_spec_nul_free:
  assumes "kv_spec ow miss ws M = Some (r, M')" and "nul_free M" and "\<forall>w \<in> set ws. NUL \<notin> set w"
  shows "NUL \<notin> set r \<and> nul_free M'"
proof -
  obtain c k vs where ws: "ws = c # k # vs"
    using assms(1) by (cases "(ow, miss, ws, M)" rule: kv_spec.cases) auto
  have "NUL \<notin> set v" if "vs = v # vs'" for v vs'
    using assms(3) ws that by simp
  then show ?thesis
    using assms(1,2) unfolding ws nul_free_def
    by (cases vs) (auto split: if_splits option.splits)
qed

lemma cstring_snprintf: "NUL \<notin> set r \<Longrightarrow> cstring (snprintf_buf r) = take 1023 r"
proof -
  assume "NUL \<notin> set r"
  then have "NUL \<notin> set (take 1023 r)" by (meson in_set_takeD)
  moreover have "snprintf_buf r = take 1023 r @ NUL # replicate (1023 - length (take 1023 r)) NUL"
    by (simp add: snprintf_buf_def BUFFER_LENGTH_def Let_def min_def Suc_diff_le replicate_Suc [symmetric] del: replicate_Suc)
       linarith
  ultimately show ?thesis using cstring_append by simp
qed

text \<open>What a server needs of the request layer: answers that follow the map.\<close>

locale kv_protocol =
  fixes eng :: "'s engine" and inv :: "'s \<Rightarrow> bool" and abs :: "'s \<Rightarrow> string \<Rightarrow> string option"
    and used :: "'s \<Rightarrow> nat" and cap :: nat and miss :: int and ow :: bool
  assumes answer_law: "inv s \<Longrightarrow> mem_good m \<Longrightarrow> used s < cap \<Longrightarrow>
      kv_spec ow miss ws (abs s) = Some (reply, M) \<Longrightarrow>
      \<exists>s' m'. answer eng ws s m = Inr (reply, s', m') \<and> inv s' \<and> mem_good m' \<and> abs s' = M \<and>
              used s' \<le> Suc (used s)"
begin

lemma request_law:
  assumes s: "inv s" "mem_good m" "used s < cap" and t: "holds_request item t" "length (words t) \<le> KVSTORE_MAX_TOKENS"
    and spec: "kv_spec ow miss (words t) (abs s) = Some (reply, M)"
  obtains buf s' m' where
    "kvstore_request eng item s m = Inr (0, item\<lparr>rbuffer := buf, wbuffer := snprintf_buf reply\<rparr>, s', m')"
    "inv s'" "mem_good m'" "abs s' = M" "used s' \<le> Suc (used s)" "length buf = length (rbuffer item)"
proof -
  have "words t \<noteq> []" using spec by auto
  then obtain buf where buf: "length buf = length (rbuffer item)"
    "kvstore_request eng item s m = rbind (answer eng (words t) s m)
       (\<lambda>(text, s, m). Inr (0, item\<lparr>rbuffer := buf, wbuffer := snprintf_buf text\<rparr>, s, m))"
    by (rule request_answer [OF t])
  obtain s' m' where "answer eng (words t) s m = Inr (reply, s', m')" "inv s'" "mem_good m'" "abs s' = M"
    "used s' \<le> Suc (used s)"
    using answer_law [OF s spec] by blast
  with buf that show thesis by simp
qed

lemma session:
  assumes "inv s" and "mem_good m" and "used s + length ts \<le> cap" and "nul_free (abs s)"
    and "\<forall>t \<in> set ts. sendable t" and "length sents = length ts" and "- 1 \<notin> set sents"
    and "kv_run ow miss (map words ts) (abs s) = Some (replies, M)"
  shows "\<exists>s' m'. server_reader eng (zip (map Rx_Data ts) sents) s m =
           Inr (False, map (take 1023) replies, s', m') \<and> inv s' \<and> mem_good m' \<and> abs s' = M"
  using assms
proof (induction ts arbitrary: s m sents replies)
  case (Cons t ts)
  obtain sent sents' where sents: "sents = sent # sents'"
    using Cons.prems(6) by (cases sents) auto
  obtain r M1 rs where spec: "kv_spec ow miss (words t) (abs s) = Some (r, M1)"
    and run: "kv_run ow miss (map words ts) M1 = Some (rs, M)" "replies = r # rs"
    using Cons.prems(8) by (auto split: option.splits)
  have t: "t \<noteq> []" "length t < 1024" "NUL \<notin> set t" "length (words t) \<le> KVSTORE_MAX_TOKENS"
    using Cons.prems(5) by (auto simp: sendable_def BUFFER_LENGTH_def)
  let ?item = "zero_item\<lparr>rbuffer := t @ replicate (1024 - length t) NUL\<rparr>"
  have hold: "holds_request ?item t"
    using t holds_request_item_with [of t] by (simp add: item_with_def BUFFER_LENGTH_def)
  have room: "used s < cap" using Cons.prems(3) by simp
  obtain buf s1 m1 where rq:
    "kvstore_request eng ?item s m = Inr (0, ?item\<lparr>rbuffer := buf, wbuffer := snprintf_buf r\<rparr>, s1, m1)"
    and s1: "inv s1" "mem_good m1" "abs s1 = M1" "used s1 \<le> Suc (used s)"
    by (rule request_law [OF Cons.prems(1,2) room hold t(4) spec])
  have "\<forall>w \<in> set (words t). NUL \<notin> set w"
    using words_chars t(3) by blast
  then have nul: "NUL \<notin> set r" "nul_free M1"
    using kv_spec_nul_free [OF spec Cons.prems(4)] by simp_all
  have out: "take (length (cstring w)) w = cstring w" for w
    unfolding cstring_def by (rule takeWhile_eq_take [symmetric])
  have "\<exists>s' m'. server_reader eng (zip (map Rx_Data ts) sents') s1 m1 =
      Inr (False, map (take 1023) rs, s', m') \<and> inv s' \<and> mem_good m' \<and> abs s' = M"
    by (rule Cons.IH) (use Cons.prems sents s1 nul run in simp_all)
  then show ?case
    using t rq sents run(2) Cons.prems(7) cstring_snprintf [OF nul(1)]
    by (auto simp: Let_def out BUFFER_LENGTH_def zero_item_def)
qed auto

end

sublocale kv_engine \<subseteq> low: kv_protocol eng inv abs used cap miss False
  by unfold_locales (metis answer_spec)

sublocale kv_map_engine \<subseteq> high: kv_protocol eng inv abs used cap miss True
  by unfold_locales (metis answer_map_spec)

text \<open>A session on the hash engine, from its initialisation.\<close>

lemma store_session_of:
  assumes "mem_good m0" and "mem_zero m0 (mem_next m0)"
    and "length ts \<le> 751619276" and "\<forall>t \<in> set ts. sendable t"
    and "length sents = length ts" and "- 1 \<notin> set sents"
    and "kv_run True (- 1) (map words ts) (\<lambda>_. None) = Some (replies, M)"
  shows "\<exists>h m h' m'. init_kvengine h0 m0 = (0, h, m) \<and>
           server_reader hash_engine (zip (map Rx_Data ts) sents) h m =
             Inr (False, map (take 1023) replies, h', m') \<and>
           hash_inv h' \<and> \<not> lock h' \<and> hash_abs h' = M"
proof -
  obtain h m where h: "init_hashtable h0 m0 = (0, h, m)" "hash_inv h" "hash_full h" "\<not> lock h"
    "hash_abs h = (\<lambda>_. None)" "count h = 0" "mem_good m = mem_good m0"
    by (rule init_ok [of m0 h0]) (use assms(1,2) in simp_all)
  have ready: "hash_ready h" "mem_good m" "hash_used h + length ts \<le> hash_cap" "nul_free (hash_abs h)"
    using h assms(1,3) by (simp_all add: hash_ready_def hash_used_def kvs_hash_count_def hash_cap_def nul_free_def)
  have run: "kv_run True (- 1) (map words ts) (hash_abs h) = Some (replies, M)"
    using assms(7) h(5) by simp
  from hsh.high.session [OF ready assms(4-6) run] h show ?thesis
    by (auto simp: init_kvengine_def kvstore_hash_create_def hash_ready_def)
qed

section \<open>Properties\<close>

text \<open>
  C8: the store, end to end, for requests on which it behaves as a map: GET, SET and MOD of any key and DEL of
  stored keys, each with all its words. From \<open>init_kvengine\<close> on zeroed memory, the coroutine server answers
  every sequence of such requests with exactly the replies that a map gives (cut to 1023 characters), and
  leaves the hash table storing that map, for as many requests as the table has room for and
  whatever resizes happen on the way. Outside of the claim are DEL of an absent key, which can leave the table
  locked, and incomplete or unknown commands, which fault.
\<close>

theorem store_session_refines_map:
  assumes "mem_good m0" and "mem_zero m0 (mem_next m0)"
    and "length ts \<le> 751619276" and "\<forall>t \<in> set ts. sendable t"
    and "length sents = length ts" and "- 1 \<notin> set sents"
    and "kv_run True (- 1) (map words ts) (\<lambda>_. None) = Some (replies, M)"
  shows "\<exists>h m h' m'. init_kvengine h0 m0 = (0, h, m) \<and>
           server_reader hash_engine (zip (map Rx_Data ts) sents) h m =
             Inr (False, map (take 1023) replies, h', m') \<and>
           hash_inv h' \<and> \<not> lock h' \<and> hash_abs h' = M"
  using store_session_of [OF assms(1-6)] assms(7) by blast

lemma session_words:
  "words ''SET a 1'' = [''SET'', ''a'', ''1'']" "words ''SET a 2'' = [''SET'', ''a'', ''2'']"
  "words ''GET a'' = [''GET'', ''a'']"
  using words_word [of "''SET''" "''a 1''"] words_word [of "''SET''" "''a 2''"]
    words_word [of "''a''" "''1''"] words_word [of "''a''" "''2''"] words_last [of "''1''"] words_last [of "''2''"]
    request_examples(1)
  by simp_all

lemma session_sendable: "sendable ''SET a 1''" "sendable ''SET a 2''" "sendable ''GET a''"
  by (simp_all only: sendable_def session_words BUFFER_LENGTH_def KVSTORE_MAX_TOKENS_def) simp_all

theorem store_session_refines_map_witness:
  "\<exists>h m h' m'. init_kvengine empty_hash good_mem = (0, h, m) \<and>
     server_reader hash_engine (zip (map Rx_Data [''SET a 1'', ''SET a 2'', ''GET a'']) [7, 7, 1]) h m =
       Inr (False, map (take 1023) [''SUCCESS'', ''SUCCESS'', ''2''], h', m') \<and>
     hash_inv h' \<and> \<not> lock h' \<and> hash_abs h' = [''a'' \<mapsto> ''2'']"
proof (rule store_session_refines_map)
  show "kv_run True (- 1) (map words [''SET a 1'', ''SET a 2'', ''GET a'']) (\<lambda>_. None) =
      Some ([''SUCCESS'', ''SUCCESS'', ''2''], [''a'' \<mapsto> ''2''])"
    unfolding list.map session_words by simp
  show "\<forall>t \<in> set [''SET a 1'', ''SET a 2'', ''GET a'']. sendable t"
    unfolding list.set using session_sendable by blast
qed (simp_all add: good_mem_def mem_good_def)

text \<open>
  C20: the epoll front end answers the wrong request when a shorter one follows a longer one on the
  same connection: \<open>recv_cb\<close> receives over the bytes the previous request left, so what it parses is
  the received bytes continued by the old ones up to the first NUL.
\<close>

theorem epoll_request_reads_stale_bytes:
  assumes "0 \<le> fd" and "fd < 1024" and "item = connlist e ! nat fd" and "length (connlist e) = 1024"
    and "d \<noteq> []" and "length d \<le> 1024" and "rlen item + int (length d) \<le> INT_MAX"
    and "NUL \<in> set (drop (length d) (rbuffer item))" and "NUL \<notin> set d"
    and "t = d @ cstring (drop (length d) (rbuffer item))" and "length (words t) \<le> 128" and "words t \<noteq> []"
    and "answer eng (words t) s m = Inr (text, s', m')"
  shows "\<exists>e'. recv_cb eng fd (Rx_Data d) e s m = Inr (int (length d), e', s', m') \<and>
           wbuffer (connlist e' ! nat fd) = snprintf_buf text"
proof -
  let ?item = "item\<lparr>rbuffer := d @ drop (length d) (rbuffer item), rlen := rlen item + int (length d)\<rparr>"
  obtain old rest where old: "drop (length d) (rbuffer item) = old @ NUL # rest" "NUL \<notin> set old"
    using assms(8) by (blast dest: split_list_first)
  then have "t = d @ old"
    using assms(10) cstring_append by simp
  then have hold: "holds_request ?item t"
    using old assms(9) by (simp add: holds_request_def)
  have len: "length (words t) \<le> KVSTORE_MAX_TOKENS"
    using assms(11) by (simp add: KVSTORE_MAX_TOKENS_def)
  obtain buf where "kvstore_request eng ?item s m = rbind (answer eng (words t) s m)
       (\<lambda>(text, s, m). Inr (0, ?item\<lparr>rbuffer := buf, wbuffer := snprintf_buf text\<rparr>, s, m))"
    by (rule request_answer [OF hold len assms(12), of eng s m])
  then show ?thesis
    using assms(1-7,13)
    by (simp add: recv_cb_def conn_at_def put_conn_def set_event_def BUFFER_LENGTH_def Let_def)
qed

text \<open>A connection that has sent \<open>SET bb 2\<close>, as \<open>strtok\<close> leaves its buffer, sends \<open>GET a\<close>.\<close>

definition stale_epoll :: epoll_state where
  "stale_epoll = put_conn 5 (zero_item\<lparr>rbuffer := ''SET'' @ [NUL] @ ''bb'' @ [NUL] @ ''2'' @ replicate 1016 NUL, rlen := 8,
                   recv_t := Recv_Callback, send_callback := True\<rparr>) zero_epoll"

lemma stale_conn:
  "connlist stale_epoll ! nat 5 = zero_item\<lparr>rbuffer := ''SET'' @ [NUL] @ ''bb'' @ [NUL] @ ''2'' @ replicate 1016 NUL,
     rlen := 8, recv_t := Recv_Callback, send_callback := True\<rparr>"
  by (simp add: stale_epoll_def put_conn_def zero_epoll_def BUFFER_LENGTH_def)

theorem epoll_request_reads_stale_bytes_witness:
  "array_abs one_array ''a'' = Some ''1'' \<and>
   (\<exists>e'. recv_cb array_engine 5 (Rx_Data ''GET a'') stale_epoll one_array good_mem = Inr (5, e', one_array, good_mem) \<and>
      wbuffer (connlist e' ! 5) = snprintf_buf ''NO EXIST'')"
proof -
  have ws: "words ''GET ab'' = [''GET'', ''ab'']"
    using words_word [of "''GET''" "''ab''"] words_last [of "''ab''"] by simp
  have "array_abs one_array ''ab'' = None"
    using item_abs_None [of "replicate 1023 empty_item" "''ab''"] item_keys_empty [of "replicate 1023 empty_item"]
    by (simp add: one_array_def array_abs_def empty_item_def)
  then have "answer array_engine (words ''GET ab'') one_array good_mem = Inr (''NO EXIST'', one_array, good_mem)"
    unfolding ws using arr.get [OF one_array_ok(1), of "''ab''"] by (simp add: answer_def)
  then have "\<exists>e'. recv_cb array_engine 5 (Rx_Data ''GET a'') stale_epoll one_array good_mem =
        Inr (int (length ''GET a''), e', one_array, good_mem) \<and>
      wbuffer (connlist e' ! nat 5) = snprintf_buf ''NO EXIST''"
    by (intro epoll_request_reads_stale_bytes [OF _ _ refl _ _ _ _ _ _ _ _ _ \<open>answer _ _ _ _ = _\<close>], unfold stale_conn ws)
       (simp_all add: stale_epoll_def put_conn_def zero_epoll_def BUFFER_LENGTH_def cstring_def)
  then show ?thesis by (simp add: one_array_ok)
qed

end
