(* ===== verification/KcpBase.thy ===== *)
theory KcpBase
  imports Prelude "HOL-Library.Signed_Division"
begin

unbundle bit_operations_syntax

text \<open>
  The base of the KCP transport, \<open>src/third_party/kcp/ikcp.c\<close> and \<open>ikcp.h\<close>: constants, the
  little-endian encoders and decoders of the header fields, time differences, segments, the control
  block, its creation, release and configuration.

  The doubly linked queues of segments are lists, the counters \<open>nrcv_buf\<close> and so on are fields of
  their own as in the code, and \<open>len\<close> of a segment is the length of its data. \<open>acklist\<close> holds the
  first \<open>ackcount\<close> entries of the block of \<open>ackblock\<close> entries. The allocator's state rides in the
  control block (\<open>kcp_mem\<close>). Unsigned fields are 32-bit words; signed ones are integers, and signed
  arithmetic that can leave the range of \<open>int\<close> is checked. The program installs no congestion control
  operations, no allocator hooks and no log writer, so \<open>ccops\<close>, the hooks and \<open>writelog\<close> are NULL
  here and the code behind them is not reached.
\<close>

section \<open>Constants\<close>

abbreviation IKCP_RTO_NDL :: int where "IKCP_RTO_NDL \<equiv> 30"
abbreviation IKCP_RTO_MIN :: int where "IKCP_RTO_MIN \<equiv> 100"
abbreviation IKCP_RTO_DEF :: int where "IKCP_RTO_DEF \<equiv> 200"
abbreviation IKCP_RTO_MAX :: u32 where "IKCP_RTO_MAX \<equiv> 60000"
abbreviation IKCP_CMD_PUSH :: u32 where "IKCP_CMD_PUSH \<equiv> 81"
abbreviation IKCP_CMD_ACK :: u32 where "IKCP_CMD_ACK \<equiv> 82"
abbreviation IKCP_CMD_WASK :: u32 where "IKCP_CMD_WASK \<equiv> 83"
abbreviation IKCP_CMD_WINS :: u32 where "IKCP_CMD_WINS \<equiv> 84"
abbreviation IKCP_ASK_SEND :: u32 where "IKCP_ASK_SEND \<equiv> 1"
abbreviation IKCP_ASK_TELL :: u32 where "IKCP_ASK_TELL \<equiv> 2"
abbreviation IKCP_WND_SND :: u32 where "IKCP_WND_SND \<equiv> 32"
abbreviation IKCP_WND_RCV :: u32 where "IKCP_WND_RCV \<equiv> 128"
abbreviation IKCP_MTU_DEF :: u32 where "IKCP_MTU_DEF \<equiv> 1400"
abbreviation IKCP_INTERVAL :: u32 where "IKCP_INTERVAL \<equiv> 100"
abbreviation IKCP_OVERHEAD :: u32 where "IKCP_OVERHEAD \<equiv> 24"
abbreviation IKCP_DEADLINK :: u32 where "IKCP_DEADLINK \<equiv> 20"
abbreviation IKCP_THRESH_INIT :: u32 where "IKCP_THRESH_INIT \<equiv> 2"
abbreviation IKCP_THRESH_MIN :: u32 where "IKCP_THRESH_MIN \<equiv> 2"
abbreviation IKCP_PROBE_INIT :: u32 where "IKCP_PROBE_INIT \<equiv> 5000"
abbreviation IKCP_PROBE_LIMIT :: u32 where "IKCP_PROBE_LIMIT \<equiv> 120000"
abbreviation IKCP_FASTACK_LIMIT :: int where "IKCP_FASTACK_LIMIT \<equiv> 5"

section \<open>Encoding and decoding\<close>

text \<open>An encoder appends to what has been written; a decoder returns the value and the rest.\<close>

definition ikcp_encode8u :: "bytes \<Rightarrow> u8 \<Rightarrow> bytes" where
  "ikcp_encode8u p c = p @ [c]"

fun ikcp_decode8u :: "bytes \<Rightarrow> (u8 \<times> bytes) res" where
  "ikcp_decode8u (c # p) = Inr (c, p)"
| "ikcp_decode8u _ = Inl Out_Of_Bounds"

definition ikcp_encode16u :: "bytes \<Rightarrow> u16 \<Rightarrow> bytes" where
  "ikcp_encode16u p w = p @ [ucast w, ucast (drop_bit 8 w)]"

fun ikcp_decode16u :: "bytes \<Rightarrow> (u16 \<times> bytes) res" where
  "ikcp_decode16u (a # b # p) = Inr (ucast a OR push_bit 8 (ucast b), p)"
| "ikcp_decode16u _ = Inl Out_Of_Bounds"

definition ikcp_encode32u :: "bytes \<Rightarrow> u32 \<Rightarrow> bytes" where
  "ikcp_encode32u p l = p @ [ucast l, ucast (drop_bit 8 l), ucast (drop_bit 16 l), ucast (drop_bit 24 l)]"

fun ikcp_decode32u :: "bytes \<Rightarrow> (u32 \<times> bytes) res" where
  "ikcp_decode32u (a # b # c # d # p) =
     Inr (ucast a OR push_bit 8 (ucast b) OR push_bit 16 (ucast c) OR push_bit 24 (ucast d), p)"
| "ikcp_decode32u _ = Inl Out_Of_Bounds"

lemma decode8_encode8 [wire_simps]: "ikcp_decode8u (ikcp_encode8u [] c @ p) = Inr (c, p)"
  by (simp add: ikcp_encode8u_def)

lemma decode16_encode16 [wire_simps]: "ikcp_decode16u (ikcp_encode16u [] w @ p) = Inr (w, p)"
  by (simp add: ikcp_encode16u_def)
     (rule bit_word_eqI; auto simp: bit_or_iff bit_push_bit_iff bit_ucast_iff bit_drop_bit_eq; presburger)

lemma decode32_encode32 [wire_simps]: "ikcp_decode32u (ikcp_encode32u [] l @ p) = Inr (l, p)"
proof -
  have "(ucast (ucast l :: u8) OR push_bit 8 (ucast (ucast (drop_bit 8 l) :: u8)) OR
      push_bit 16 (ucast (ucast (drop_bit 16 l) :: u8)) OR push_bit 24 (ucast (ucast (drop_bit 24 l) :: u8)) :: u32) = l"
  proof (rule bit_word_eqI)
    fix n assume "n < LENGTH(32)"
    then show "bit (ucast (ucast l :: u8) OR push_bit 8 (ucast (ucast (drop_bit 8 l) :: u8)) OR
        push_bit 16 (ucast (ucast (drop_bit 16 l) :: u8)) OR push_bit 24 (ucast (ucast (drop_bit 24 l) :: u8)) :: u32) n = bit l n"
      by (cases "n < 8"; cases "n < 16"; cases "n < 24")
         (auto simp: bit_or_iff bit_push_bit_iff bit_ucast_iff bit_drop_bit_eq)
  qed
  then show ?thesis by (simp add: ikcp_encode32u_def)
qed

lemma encode_append:
  "ikcp_encode8u p c = p @ ikcp_encode8u [] c" "ikcp_encode16u p w = p @ ikcp_encode16u [] w"
  "ikcp_encode32u p l = p @ ikcp_encode32u [] l"
  by (simp_all add: ikcp_encode8u_def ikcp_encode16u_def ikcp_encode32u_def)

lemma encode_length [wire_simps]:
  "length (ikcp_encode8u p c) = length p + 1" "length (ikcp_encode16u p w) = length p + 2"
  "length (ikcp_encode32u p l) = length p + 4"
  by (simp_all add: ikcp_encode8u_def ikcp_encode16u_def ikcp_encode32u_def)

section \<open>Comparison and time\<close>

definition imin :: "u32 \<Rightarrow> u32 \<Rightarrow> u32" where
  "imin a b = (if a \<le> b then a else b)"

definition imax :: "u32 \<Rightarrow> u32 \<Rightarrow> u32" where
  "imax a b = (if b \<le> a then a else b)"

definition ibound :: "u32 \<Rightarrow> u32 \<Rightarrow> u32 \<Rightarrow> u32" where
  "ibound lower middle upper = imin (imax lower middle) upper"

definition itimediff :: "u32 \<Rightarrow> u32 \<Rightarrow> int" where
  "itimediff later earlier = sint (later - earlier)"

lemma itimediff_neg: "itimediff a b < 0 \<longleftrightarrow> 2147483648 \<le> unat (a - b)"
  using uint_u32_less [of "a - b"] by (simp add: itimediff_def sint_u32 unat_le_uint)

text \<open>Comparing two numbers by their distances from a third, both below half of the range.\<close>

lemma signed_mod_diff:
  fixes x y :: int
  assumes "0 \<le> x" and "x < 2147483648" and "0 \<le> y" and "y < 2147483648"
  shows "(if (x - y) mod 4294967296 < 2147483648 then (x - y) mod 4294967296
          else (x - y) mod 4294967296 - 4294967296) = x - y"
proof (cases "y \<le> x")
  case True
  with assms have "(x - y) mod 4294967296 = x - y"
    by (intro mod_pos_pos_trivial) simp_all
  with assms show ?thesis by simp
next
  case False
  have "(x - y) mod 4294967296 = (x - y + 4294967296) mod 4294967296" by simp
  also have "\<dots> = x - y + 4294967296"
    using False assms by (intro mod_pos_pos_trivial) simp_all
  finally show ?thesis using assms False by simp
qed

lemma itimediff_offsets:
  assumes "unat (a - c) < 2147483648" and "unat (b - c) < 2147483648"
  shows "itimediff a b = int (unat (a - c)) - int (unat (b - c))"
proof -
  have "a - b = (a - c) - (b - c)" by simp
  then have "uint (a - b) = (uint (a - c) - uint (b - c)) mod 4294967296"
    by (metis uint_u32_sub)
  then show ?thesis
    using signed_mod_diff [of "uint (a - c)" "uint (b - c)"] assms
    by (simp add: itimediff_def sint_u32 unat_less_uint split: if_splits)
qed

text \<open>The test that \<open>ikcp_parse_data\<close> and \<open>ikcp_input\<close> make, for a window below half of the range.\<close>

lemma window_test:
  assumes "unat wnd < 2147483648"
  shows "0 \<le> itimediff sn (nxt + wnd) \<or> itimediff sn nxt < 0 \<longleftrightarrow> unat wnd \<le> unat (sn - nxt)"
proof (cases "itimediff sn nxt < 0")
  case True
  with assms show ?thesis by (simp add: itimediff_neg)
next
  case False
  then have "unat (sn - nxt) < 2147483648" by (simp add: itimediff_neg)
  moreover have "unat (nxt + wnd - nxt) < 2147483648" using assms by simp
  ultimately have "itimediff sn (nxt + wnd) = int (unat (sn - nxt)) - int (unat wnd)"
    using itimediff_offsets [of sn nxt "nxt + wnd"] by simp
  with False show ?thesis by linarith
qed

text \<open>A signed result that has to fit in an \<open>int\<close>.\<close>

definition int32 :: "int \<Rightarrow> int res" where
  "int32 x = (if - 2147483648 \<le> x \<and> x \<le> INT_MAX then Inr x else Inl Int_Overflow)"

section \<open>Segments and the control block\<close>

record ikcpseg =
  sconv :: u32
  scmd :: u32
  sfrg :: u32
  swnd :: u32
  sts :: u32
  ssn :: u32
  suna :: u32
  sresendts :: u32
  srto :: u32
  sfastack :: u32
  sxmit :: u32
  sdata :: bytes

definition seg_len :: "ikcpseg \<Rightarrow> u32" where
  "seg_len seg = word_of_nat (length (sdata seg))"

record ikcpcb =
  conv :: u32
  mtu :: u32
  mss :: u32
  kstate :: u32
  snd_una :: u32
  snd_nxt :: u32
  rcv_nxt :: u32
  ts_recent :: u32
  ts_lastack :: u32
  ssthresh :: u32
  rx_rttval :: int
  rx_srtt :: int
  rx_rto :: int
  rx_minrto :: int
  snd_wnd :: u32
  rcv_wnd :: u32
  rmt_wnd :: u32
  cwnd :: u32
  probe :: u32
  current :: u32
  interval :: u32
  ts_flush :: u32
  xmit :: u32
  nrcv_buf :: u32
  nsnd_buf :: u32
  nrcv_que :: u32
  nsnd_que :: u32
  nodelay :: u32
  updated :: u32
  ts_probe :: u32
  probe_wait :: u32
  dead_link :: u32
  incr :: u32
  snd_queue :: "ikcpseg list"
  rcv_queue :: "ikcpseg list"
  snd_buf :: "ikcpseg list"
  rcv_buf :: "ikcpseg list"
  acklist :: "(u32 \<times> u32) list"
  ackblock :: u32
  ackedlen :: u32
  fastresend :: int
  fastlimit :: int
  nocwnd :: int
  stream :: int
  has_output :: bool
  kcp_mem :: mem

section \<open>Memory\<close>

definition ikcp_malloc :: "nat \<Rightarrow> ikcpcb \<Rightarrow> bool \<times> ikcpcb" where
  "ikcp_malloc sz kcp = (let (ok, m) = kvstore_malloc sz (kcp_mem kcp) in (ok, kcp\<lparr>kcp_mem := m\<rparr>))"

definition ikcp_free :: "'a option \<Rightarrow> ikcpcb \<Rightarrow> ikcpcb" where
  "ikcp_free ptr kcp = kcp\<lparr>kcp_mem := kvstore_free ptr (kcp_mem kcp)\<rparr>"

text \<open>\<open>sizeof(IKCPSEG)\<close> is 72 on the 64-bit targets.\<close>

definition ikcp_segment_new :: "nat \<Rightarrow> ikcpcb \<Rightarrow> bool \<times> ikcpcb" where
  "ikcp_segment_new sz kcp = ikcp_malloc (72 + sz) kcp"

definition ikcp_segment_delete :: "ikcpseg \<Rightarrow> ikcpcb \<Rightarrow> ikcpcb" where
  "ikcp_segment_delete seg kcp = ikcp_free (Some seg) kcp"

text \<open>The pointer \<open>acklist\<close>: NULL until the first acknowledgement allocates a block.\<close>

definition acklist_ptr :: "ikcpcb \<Rightarrow> unit option" where
  "acklist_ptr kcp = (if ackblock kcp = 0 then None else Some ())"

section \<open>Creation and release\<close>

definition new_kcp :: "u32 \<Rightarrow> mem \<Rightarrow> ikcpcb" where
  "new_kcp cv m =
     \<lparr>conv = cv, mtu = IKCP_MTU_DEF, mss = IKCP_MTU_DEF - IKCP_OVERHEAD, kstate = 0,
      snd_una = 0, snd_nxt = 0, rcv_nxt = 0, ts_recent = 0, ts_lastack = 0, ssthresh = IKCP_THRESH_INIT,
      rx_rttval = 0, rx_srtt = 0, rx_rto = IKCP_RTO_DEF, rx_minrto = IKCP_RTO_MIN,
      snd_wnd = IKCP_WND_SND, rcv_wnd = IKCP_WND_RCV, rmt_wnd = IKCP_WND_RCV, cwnd = 0, probe = 0,
      current = 0, interval = IKCP_INTERVAL, ts_flush = IKCP_INTERVAL, xmit = 0,
      nrcv_buf = 0, nsnd_buf = 0, nrcv_que = 0, nsnd_que = 0, nodelay = 0, updated = 0,
      ts_probe = 0, probe_wait = 0, dead_link = IKCP_DEADLINK, incr = 0,
      snd_queue = [], rcv_queue = [], snd_buf = [], rcv_buf = [], acklist = [], ackblock = 0, ackedlen = 0,
      fastresend = 0, fastlimit = IKCP_FASTACK_LIMIT, nocwnd = 0, stream = 0, has_output = False,
      kcp_mem = m\<rparr>"

text \<open>\<open>ikcp_create\<close>: the control block (296 bytes) and the buffer of three datagrams; or NULL.\<close>

definition ikcp_create :: "u32 \<Rightarrow> mem \<Rightarrow> ikcpcb option \<times> mem" where
  "ikcp_create cv m =
     (let (ok, m) = kvstore_malloc 296 m
      in if \<not> ok then (None, m)
         else
           let (ok, m) = kvstore_malloc (unat ((IKCP_MTU_DEF + IKCP_OVERHEAD) * 3)) m
           in if \<not> ok then (None, kvstore_free (Some ()) m) else (Some (new_kcp cv m), m))"

fun free_segments :: "ikcpseg list \<Rightarrow> ikcpcb \<Rightarrow> ikcpcb" where
  "free_segments [] kcp = kcp"
| "free_segments (seg # segs) kcp = free_segments segs (ikcp_segment_delete seg kcp)"

text \<open>\<open>ikcp_release\<close>: the queues, the buffer, the list of acknowledgements, the block itself.\<close>

definition ikcp_release :: "ikcpcb \<Rightarrow> mem" where
  "ikcp_release kcp =
     (let kcp = free_segments (snd_buf kcp) kcp;
          kcp = free_segments (rcv_buf kcp) kcp;
          kcp = free_segments (snd_queue kcp) kcp;
          kcp = free_segments (rcv_queue kcp) kcp;
          kcp = ikcp_free (Some ()) kcp;
          kcp = ikcp_free (acklist_ptr kcp) kcp
      in kcp_mem (ikcp_free (Some ()) kcp))"

section \<open>Configuration\<close>

definition ikcp_setoutput :: "ikcpcb \<Rightarrow> ikcpcb" where
  "ikcp_setoutput kcp = kcp\<lparr>has_output := True\<rparr>"

definition ikcp_setmtu :: "ikcpcb \<Rightarrow> int \<Rightarrow> int \<times> ikcpcb" where
  "ikcp_setmtu kcp m =
     (if m < 50 \<or> m < 24 then (- 1, kcp)
      else
        let (ok, kcp) = ikcp_malloc (unat ((word_of_int m + IKCP_OVERHEAD) * 3)) kcp
        in if \<not> ok then (- 2, kcp)
           else (0, ikcp_free (Some ()) (kcp\<lparr>mtu := word_of_int m, mss := word_of_int m - IKCP_OVERHEAD\<rparr>)))"

definition clamp_interval :: "int \<Rightarrow> int" where
  "clamp_interval i = (if 5000 < i then 5000 else if i < 10 then 10 else i)"

definition ikcp_interval :: "ikcpcb \<Rightarrow> int \<Rightarrow> int \<times> ikcpcb" where
  "ikcp_interval kcp i = (0, kcp\<lparr>interval := word_of_int (clamp_interval i)\<rparr>)"

definition ikcp_nodelay :: "ikcpcb \<Rightarrow> int \<Rightarrow> int \<Rightarrow> int \<Rightarrow> int \<Rightarrow> int \<times> ikcpcb" where
  "ikcp_nodelay kcp nd i resend nc =
     (let kcp = (if 0 \<le> nd
                 then kcp\<lparr>nodelay := word_of_int nd, rx_minrto := (if nd \<noteq> 0 then IKCP_RTO_NDL else IKCP_RTO_MIN)\<rparr>
                 else kcp);
          kcp = (if 0 \<le> i then kcp\<lparr>interval := word_of_int (clamp_interval i)\<rparr> else kcp);
          kcp = (if 0 \<le> resend then kcp\<lparr>fastresend := resend\<rparr> else kcp);
          kcp = (if 0 \<le> nc then kcp\<lparr>nocwnd := nc\<rparr> else kcp)
      in (0, kcp))"

definition ikcp_wndsize :: "ikcpcb \<Rightarrow> int \<Rightarrow> int \<Rightarrow> int \<times> ikcpcb" where
  "ikcp_wndsize kcp sndwnd rcvwnd =
     (let kcp = (if 0 < sndwnd then kcp\<lparr>snd_wnd := word_of_int sndwnd\<rparr> else kcp);
          kcp = (if 0 < rcvwnd then kcp\<lparr>rcv_wnd := imax (word_of_int rcvwnd) IKCP_WND_RCV\<rparr> else kcp)
      in (0, kcp))"

definition ikcp_waitsnd :: "ikcpcb \<Rightarrow> int" where
  "ikcp_waitsnd kcp = sint (nsnd_buf kcp + nsnd_que kcp)"

definition ikcp_getconv :: "bytes \<Rightarrow> u32 res" where
  "ikcp_getconv p = rbind (ikcp_decode32u p) (\<lambda>(cv, _). Inr cv)"

end
