(* ===== verification/KcpSend.thy ===== *)
theory KcpSend
  imports Prelude KcpBase
begin

text \<open>
  Sending on a KCP connection: \<open>ikcp_send\<close> of \<open>src/third_party/kcp/ikcp.c\<close> cuts a message into
  fragments of at most \<open>mss\<close> bytes, numbered down to 0, and appends them to the send queue. The
  lemmas compare it with a reference definition of fragmentation.
\<close>

section \<open>Fragmentation\<close>

text \<open>
  A segment fresh from the allocator. Its header fields are indeterminate until \<open>ikcp_flush\<close> fills
  them in, before anything reads them.
\<close>

definition fresh_seg :: ikcpseg where
  "fresh_seg = \<lparr>sconv = 0, scmd = 0, sfrg = 0, swnd = 0, sts = 0, ssn = 0, suna = 0, sresendts = 0,
                srto = 0, sfastack = 0, sxmit = 0, sdata = []\<rparr>"

text \<open>
  The loop of \<open>ikcp_send\<close> over the fragments, by the number that are left, so that the number of a
  fragment (\<open>count - i - 1\<close>) is what is left after it.
\<close>

fun fragment_loop :: "nat \<Rightarrow> bytes \<Rightarrow> int \<Rightarrow> ikcpcb \<Rightarrow> int \<Rightarrow> (int \<times> ikcpcb) res" where
  "fragment_loop 0 buffer len kcp sent = Inr (sent, kcp)"
| "fragment_loop (Suc n) buffer len kcp sent =
     (let sz = (if sint (mss kcp) < len then sint (mss kcp) else len);
          (ok, kcp) = ikcp_segment_new (nat sz) kcp
      in if \<not> ok then Inl Assert_Fail
         else if int (length buffer) < sz then Inl Out_Of_Bounds
         else
           let seg = fresh_seg\<lparr>sdata := take (nat sz) buffer, sfrg := (if stream kcp = 0 then word_of_nat n else 0)\<rparr>
           in fragment_loop n (drop (nat sz) buffer) (len - sz)
                (kcp\<lparr>snd_queue := snd_queue kcp @ [seg], nsnd_que := nsnd_que kcp + 1\<rparr>) (sent + sz))"

text \<open>
  Stream mode: the last queued segment is extended up to \<open>mss\<close>. The result is how many bytes were
  sent that way, what is left of the buffer and its length, and the control block.
\<close>

definition send_stream :: "ikcpcb \<Rightarrow> bytes \<Rightarrow> int \<Rightarrow> (int \<times> bytes \<times> int \<times> ikcpcb) res" where
  "send_stream kcp buffer len =
     (if snd_queue kcp = [] then Inr (0, buffer, len, kcp)
      else
        let old = last (snd_queue kcp)
        in if seg_len old < mss kcp then
             let capacity = sint (mss kcp - seg_len old);
                 extend = (if len < capacity then len else capacity);
                 (ok, kcp) = ikcp_segment_new (length (sdata old) + nat extend) kcp
             in if \<not> ok then Inl Assert_Fail
                else if int (length buffer) < extend then Inl Out_Of_Bounds
                else
                  let seg = fresh_seg\<lparr>sdata := sdata old @ take (nat extend) buffer\<rparr>;
                      kcp = ikcp_segment_delete old (kcp\<lparr>snd_queue := butlast (snd_queue kcp) @ [seg]\<rparr>)
                  in Inr (extend, drop (nat extend) buffer, len - extend, kcp)
           else Inr (0, buffer, len, kcp))"

definition fragment_count :: "ikcpcb \<Rightarrow> int \<Rightarrow> int" where
  "fragment_count kcp len =
     (if len \<le> sint (mss kcp) then 1 else sint ((word_of_int len + mss kcp - 1) div mss kcp))"

definition send_fragments :: "ikcpcb \<Rightarrow> bytes \<Rightarrow> int \<Rightarrow> int \<Rightarrow> (int \<times> ikcpcb) res" where
  "send_fragments kcp buffer len sent =
     (let count = fragment_count kcp len
      in if 128 \<le> count then Inr (if stream kcp \<noteq> 0 \<and> 0 < sent then sent else - 2, kcp)
         else fragment_loop (nat (if count = 0 then 1 else count)) buffer len kcp sent)"

definition ikcp_send :: "ikcpcb \<Rightarrow> bytes \<Rightarrow> int \<Rightarrow> (int \<times> ikcpcb) res" where
  "ikcp_send kcp buffer len =
     (if mss kcp = 0 then Inl Assert_Fail
      else if len < 0 then Inr (- 1, kcp)
      else if stream kcp \<noteq> 0 then
        rbind (send_stream kcp buffer len) (\<lambda>(sent, buffer, len, kcp).
          if len \<le> 0 then Inr (sent, kcp) else send_fragments kcp buffer len sent)
      else send_fragments kcp buffer len 0)"

section \<open>A reference definition\<close>

text \<open>The pieces of a message, and the pieces with their fragment numbers.\<close>

function chunks :: "nat \<Rightarrow> bytes \<Rightarrow> bytes list" where
  "chunks m xs = (if m = 0 \<or> length xs \<le> m then [xs] else take m xs # chunks m (drop m xs))"
  by pat_completeness auto
termination by (relation "measure (\<lambda>(m, xs). length xs)") auto

declare chunks.simps [simp del]

fun countdown :: "bytes list \<Rightarrow> (u32 \<times> bytes) list" where
  "countdown [] = []"
| "countdown (c # cs) = (word_of_nat (length cs), c) # countdown cs"

definition frag :: "ikcpseg \<Rightarrow> u32 \<times> bytes" where
  "frag seg = (sfrg seg, sdata seg)"

lemma chunks_concat [simp]: "concat (chunks m xs) = xs"
proof (induction m xs rule: chunks.induct)
  case (1 m xs)
  then show ?case by (simp add: chunks.simps [of m xs])
qed

lemma chunks_nonempty [simp]: "chunks m xs \<noteq> []"
  by (subst chunks.simps) simp

lemma chunks_bound: "0 < m \<Longrightarrow> c \<in> set (chunks m xs) \<Longrightarrow> length c \<le> m"
proof (induction m xs rule: chunks.induct)
  case (1 m xs)
  then show ?case by (auto simp: chunks.simps [of m xs] split: if_splits)
qed

lemma chunks_length:
  "0 < m \<Longrightarrow> length (chunks m xs) = (if length xs \<le> m then 1 else (length xs + m - 1) div m)"
proof (induction m xs rule: chunks.induct)
  case (1 m xs)
  show ?case
  proof (cases "length xs \<le> m")
    case True
    then show ?thesis by (simp add: chunks.simps [of m xs])
  next
    case False
    define n where "n = length xs - m"
    have n: "length xs = n + m" "0 < n" and m: "m \<noteq> 0"
      using False 1(2) by (simp_all add: n_def)
    have "length (chunks m (drop m xs)) = (if n \<le> m then 1 else (n + m - 1) div m)"
      using 1 False by (simp add: n_def)
    moreover have "(n + m - 1) div m = 1" if "n \<le> m"
      by (rule div_nat_eqI) (use that n m in simp_all)
    moreover have "(length xs + m - 1) div m = Suc ((n + m - 1) div m)"
    proof -
      have "length xs + m - 1 = (n + m - 1) + m" using n by simp
      then show ?thesis using m div_add_self2 [of m "n + m - 1"] by simp
    qed
    moreover have "length (chunks m xs) = Suc (length (chunks m (drop m xs)))"
      using False m by (simp add: chunks.simps [of m xs])
    ultimately show ?thesis using False by (simp split: if_splits)
  qed
qed

lemma countdown_data [simp]: "map snd (countdown cs) = cs"
  by (induction cs) auto

text \<open>The segments that the fragments of a message become in the send queue.\<close>

definition queued :: "u32 \<times> bytes \<Rightarrow> ikcpseg" where
  "queued fd = fresh_seg\<lparr>sfrg := fst fd, sdata := snd fd\<rparr>"

lemma frag_queued [simp]: "frag (queued fd) = fd" "sdata (queued fd) = snd fd"
  by (simp_all add: frag_def queued_def fresh_seg_def)

lemma segment_new_good:
  "mem_good (kcp_mem kcp) \<Longrightarrow> ikcp_segment_new sz kcp =
     (True, kcp\<lparr>kcp_mem := (kcp_mem kcp)\<lparr>mem_next := Suc (mem_next (kcp_mem kcp)),
                                       mem_live := mem_live (kcp_mem kcp) + 1\<rparr>\<rparr>)"
  by (simp add: ikcp_segment_new_def ikcp_malloc_def kvstore_malloc_good)

definition enqueue :: "(u32 \<times> bytes) list \<Rightarrow> ikcpcb \<Rightarrow> ikcpcb" where
  "enqueue fds kcp =
     kcp\<lparr>snd_queue := snd_queue kcp @ map queued fds, nsnd_que := nsnd_que kcp + word_of_nat (length fds),
         kcp_mem := (kcp_mem kcp)\<lparr>mem_next := mem_next (kcp_mem kcp) + length fds,
                                  mem_live := mem_live (kcp_mem kcp) + int (length fds)\<rparr>\<rparr>"

lemma enqueue_Cons: "enqueue (fd # fds) kcp = enqueue fds (enqueue [fd] kcp)"
  by (simp add: enqueue_def add.assoc)

lemma enqueue_fields [simp]:
  "mss (enqueue fds kcp) = mss kcp" "stream (enqueue fds kcp) = stream kcp"
  "mem_good (kcp_mem (enqueue fds kcp)) = mem_good (kcp_mem kcp)"
  by (simp_all add: enqueue_def)

lemma countdown_length [simp]: "length (countdown cs) = length cs"
  by (induction cs) auto

lemma fragment_loop_chunks:
  assumes "mem_good (kcp_mem kcp)" and "stream kcp = 0" and "0 < M" and "sint (mss kcp) = int M"
  shows "fragment_loop (length (chunks M buffer)) buffer (int (length buffer)) kcp sent =
           Inr (sent + int (length buffer), enqueue (countdown (chunks M buffer)) kcp)"
  using assms
proof (induction M buffer arbitrary: kcp sent rule: chunks.induct)
  case (1 M buffer)
  have one: "kcp\<lparr>kcp_mem := (kcp_mem kcp)\<lparr>mem_next := Suc (mem_next (kcp_mem kcp)), mem_live := mem_live (kcp_mem kcp) + 1\<rparr>,
      snd_queue := snd_queue kcp @ [fresh_seg\<lparr>sdata := d, sfrg := f\<rparr>], nsnd_que := nsnd_que kcp + 1\<rparr> = enqueue [(f, d)] kcp" for f d
    by (simp add: enqueue_def queued_def)
  show ?case
  proof (cases "length buffer \<le> M")
    case True
    then have "chunks M buffer = [buffer]" by (simp add: chunks.simps [of M buffer])
    with True 1(2-5) one show ?thesis
      by (simp add: segment_new_good)
  next
    case False
    let ?d = "drop M buffer"
    have ch: "chunks M buffer = take M buffer # chunks M ?d"
      using False 1(4) by (simp add: chunks.simps [of M buffer])
    have "fragment_loop (length (chunks M ?d)) ?d (int (length ?d)) (enqueue [(f, d)] kcp) (sent + int M) =
        Inr (sent + int M + int (length ?d), enqueue (countdown (chunks M ?d)) (enqueue [(f, d)] kcp))" for f d
      by (rule 1(1)) (use False 1(2-5) in simp_all)
    with False 1(2-5) one show ?thesis
      by (simp add: ch segment_new_good enqueue_Cons [of _ "countdown _"])
  qed
qed

lemma fragment_count_chunks:
  assumes "0 < M" and "M < 2 ^ 30" and "mss kcp = word_of_nat M" and "length buffer < 2 ^ 30"
  shows "fragment_count kcp (int (length buffer)) = int (length (chunks M buffer))"
proof -
  have m: "unat (mss kcp) = M" "sint (mss kcp) = int M"
    using assms(2,3) by simp_all
  show ?thesis
  proof (cases "length buffer \<le> M")
    case True
    then show ?thesis
      using m assms(1) by (simp add: fragment_count_def chunks_length)
  next
    case False
    let ?n = "length buffer + M - 1"
    let ?x = "word_of_int (int (length buffer)) + mss kcp - 1 :: u32"
    have "?n div M \<le> ?n" by (rule div_le_dividend)
    moreover have "?n < 2147483648"
      using assms(2,4) by simp
    ultimately have n: "?n < 4294967296" "?n div M < 2147483648"
      by linarith+
    have "?x = word_of_nat ?n"
      using assms(1,3) by (simp add: of_nat_diff)
    then have "unat (?x div mss kcp) = ?n div M"
      using m n(1) by (simp add: unat_div)
    then have "?x div mss kcp = word_of_nat (?n div M)"
      using n(2) by (simp add: word_unat_eq_iff del: of_nat_div)
    then have "sint (?x div mss kcp) = int (?n div M)"
      using n(2) by (simp del: of_nat_div)
    with False m assms(1) show ?thesis
      by (simp add: fragment_count_def chunks_length)
  qed
qed

lemma send_good:
  assumes "mss kcp = word_of_nat M" and "0 < M" and "M < 2 ^ 30" and "length msg < 2 ^ 30" and "stream kcp = 0"
    and "mem_good (kcp_mem kcp)"
  shows "ikcp_send kcp msg (int (length msg)) =
     (if length (chunks M msg) < 128 then Inr (int (length msg), enqueue (countdown (chunks M msg)) kcp)
      else Inr (- 2, kcp))"
proof -
  have m: "sint (mss kcp) = int M"
    using assms(1,3) by simp
  have m0: "mss kcp \<noteq> 0"
    using assms(1-3) by (auto simp: word_unat_eq_iff)
  have "nat (if int (length (chunks M msg)) = 0 then 1 else int (length (chunks M msg))) = length (chunks M msg)"
    by simp
  then show ?thesis
    using m m0 assms fragment_count_chunks [OF assms(2,3,1,4)] fragment_loop_chunks [OF assms(6,5,2) m, of msg 0]
    by (simp add: ikcp_send_def send_fragments_def Let_def)
qed

section \<open>Properties\<close>

text \<open>
  C26: \<open>ikcp_send\<close> against the reference definition of fragmentation. A message of fewer than 128
  fragments is accepted whole: its length is returned, and the segments appended to the send queue
  carry the pieces of the message in order, each of at most \<open>mss\<close> bytes, numbered down to 0. A
  longer message is refused with -2 and nothing is queued; a negative length is refused with -1.
\<close>

theorem send_is_fragmentation:
  assumes "mss kcp = word_of_nat M" and "0 < M" and "M < 2 ^ 30" and "length msg < 2 ^ 30" and "stream kcp = 0"
    and "mem_good (kcp_mem kcp)"
  shows "(length (chunks M msg) < 128 \<longrightarrow>
            (\<exists>kcp' segs. ikcp_send kcp msg (int (length msg)) = Inr (int (length msg), kcp') \<and>
               snd_queue kcp' = snd_queue kcp @ segs \<and> nsnd_que kcp' = nsnd_que kcp + word_of_nat (length segs) \<and>
               map frag segs = countdown (chunks M msg) \<and> concat (map sdata segs) = msg \<and>
               (\<forall>seg \<in> set segs. length (sdata seg) \<le> M))) \<and>
         (128 \<le> length (chunks M msg) \<longrightarrow> ikcp_send kcp msg (int (length msg)) = Inr (- 2, kcp)) \<and>
         (\<forall>n < 0. ikcp_send kcp msg n = Inr (- 1, kcp))"
proof -
  let ?segs = "map queued (countdown (chunks M msg))"
  have data: "map sdata ?segs = chunks M msg"
    by (simp add: comp_def countdown_data)
  then have "concat (map sdata ?segs) = msg" by simp
  moreover have "\<forall>seg \<in> set ?segs. length (sdata seg) \<le> M"
    using chunks_bound [OF assms(2)] data by (metis image_eqI list.set_map)
  moreover have "map frag ?segs = countdown (chunks M msg)"
    by (simp add: comp_def)
  moreover have "mss kcp \<noteq> 0"
    using assms(1-3) by (auto simp: word_unat_eq_iff)
  ultimately show ?thesis
    using send_good [OF assms] by (auto simp: enqueue_def ikcp_send_def intro!: exI [of _ ?segs])
qed

theorem send_is_fragmentation_witness:
  "\<exists>kcp' segs. ikcp_send (new_kcp 7 good_mem) (replicate 2000 0) 2000 = Inr (2000, kcp') \<and>
     snd_queue kcp' = segs \<and> length segs = 2 \<and> concat (map sdata segs) = replicate 2000 0"
proof -
  have two: "length (chunks 1376 (replicate 2000 0)) = 2"
    by (simp add: chunks_length)
  have "mss (new_kcp 7 good_mem) = word_of_nat 1376" "stream (new_kcp 7 good_mem) = 0"
    "mem_good (kcp_mem (new_kcp 7 good_mem))" "snd_queue (new_kcp 7 good_mem) = []"
    by (simp_all add: new_kcp_def)
  then show ?thesis
    using send_is_fragmentation [of "new_kcp 7 good_mem" 1376 "replicate 2000 0"] two
      countdown_length [of "chunks 1376 (replicate 2000 0)"]
    by (auto dest: arg_cong [of _ _ length])
qed

end
