(* ===== verification/KcpRecv.thy ===== *)
theory KcpRecv
  imports Prelude KcpBase KcpSend
begin

unbundle bit_operations_syntax

text \<open>
  Receiving on a KCP connection: \<open>ikcp_peeksize\<close>, \<open>ikcp_recv\<close> and \<open>ikcp_parse_data\<close> of
  \<open>src/third_party/kcp/ikcp.c\<close>. Segments wait in the receive buffer, sorted by sequence number, until
  they are next; then they move to the receive queue, from which \<open>ikcp_recv\<close> takes whole messages.
  The lemmas show that the buffer stays sorted, free of duplicates and within the window, and that
  the queue holds exactly the next fragments of the stream that the peer sends.
\<close>

section \<open>Operations\<close>

text \<open>The segments of the first message: up to the first fragment number 0, and the rest.\<close>

fun split_message :: "ikcpseg list \<Rightarrow> ikcpseg list \<times> ikcpseg list" where
  "split_message [] = ([], [])"
| "split_message (seg # segs) =
     (if sfrg seg = 0 then ([seg], segs)
      else let (msg, rest) = split_message segs in (seg # msg, rest))"

definition data_len :: "ikcpseg list \<Rightarrow> int" where
  "data_len segs = int (length (concat (map sdata segs)))"

definition ikcp_peeksize :: "ikcpcb \<Rightarrow> int" where
  "ikcp_peeksize kcp =
     (case rcv_queue kcp of
        [] \<Rightarrow> - 1
      | seg # _ \<Rightarrow>
          if sfrg seg = 0 then data_len [seg]
          else if nrcv_que kcp < sfrg seg + 1 then - 1
          else data_len (fst (split_message (rcv_queue kcp))))"

text \<open>The loop that moves the segments that are next from \<open>rcv_buf\<close> to \<open>rcv_queue\<close>.\<close>

fun move_ready :: "ikcpseg list \<Rightarrow> ikcpcb \<Rightarrow> ikcpcb" where
  "move_ready [] kcp = kcp\<lparr>rcv_buf := []\<rparr>"
| "move_ready (seg # buf) kcp =
     (if ssn seg = rcv_nxt kcp \<and> nrcv_que kcp < rcv_wnd kcp
      then move_ready buf (kcp\<lparr>nrcv_buf := nrcv_buf kcp - 1, rcv_queue := rcv_queue kcp @ [seg],
                               nrcv_que := nrcv_que kcp + 1, rcv_nxt := rcv_nxt kcp + 1\<rparr>)
      else kcp\<lparr>rcv_buf := seg # buf\<rparr>)"

text \<open>
  \<open>ikcp_recv\<close>: the return value and the bytes written to the caller's buffer. A negative \<open>len\<close> only
  peeks.
\<close>

definition ikcp_recv :: "ikcpcb \<Rightarrow> int \<Rightarrow> (int \<times> bytes \<times> ikcpcb) res" where
  "ikcp_recv kcp len =
     (let ispeek = (len < 0)
      in if rcv_queue kcp = [] then Inr (- 1, [], kcp)
         else rbind (if len < 0 then int32 (- len) else Inr len) (\<lambda>len.
           let peeksize = ikcp_peeksize kcp
           in if peeksize < 0 then Inr (- 2, [], kcp)
              else if len < peeksize then Inr (- 3, [], kcp)
              else
                let recover = (rcv_wnd kcp \<le> nrcv_que kcp);
                    (msg, rest) = split_message (rcv_queue kcp);
                    len = data_len msg;
                    kcp = (if ispeek then kcp
                           else (free_segments msg kcp)\<lparr>rcv_queue := rest,
                                  nrcv_que := nrcv_que kcp - word_of_nat (length msg)\<rparr>)
                in if len \<noteq> peeksize then Inl Assert_Fail
                   else
                     let kcp = move_ready (rcv_buf kcp) kcp;
                         kcp = (if nrcv_que kcp < rcv_wnd kcp \<and> recover
                                then kcp\<lparr>probe := probe kcp OR IKCP_ASK_TELL\<rparr> else kcp)
                     in Inr (len, concat (map sdata msg), kcp)))"

text \<open>
  The search of \<open>ikcp_parse_data\<close> for the place of a new segment, from the end of the buffer: on the
  reversed buffer. \<^term>\<open>None\<close>: the buffer has a segment with that number.
\<close>

fun insert_rev :: "ikcpseg \<Rightarrow> ikcpseg list \<Rightarrow> ikcpseg list option" where
  "insert_rev new [] = Some [new]"
| "insert_rev new (seg # segs) =
     (if ssn seg = ssn new then None
      else if 0 < itimediff (ssn new) (ssn seg) then Some (new # seg # segs)
      else map_option ((#) seg) (insert_rev new segs))"

definition ikcp_parse_data :: "ikcpcb \<Rightarrow> ikcpseg \<Rightarrow> ikcpcb" where
  "ikcp_parse_data kcp newseg =
     (let sn = ssn newseg
      in if 0 \<le> itimediff sn (rcv_nxt kcp + rcv_wnd kcp) \<or> itimediff sn (rcv_nxt kcp) < 0
         then ikcp_segment_delete newseg kcp
         else
           let kcp = (case insert_rev newseg (rev (rcv_buf kcp)) of
                        None \<Rightarrow> ikcp_segment_delete newseg kcp
                      | Some buf \<Rightarrow> kcp\<lparr>rcv_buf := rev buf, nrcv_buf := nrcv_buf kcp + 1\<rparr>)
           in move_ready (rcv_buf kcp) kcp)"

section \<open>The receive window\<close>

text \<open>How far a sequence number lies ahead of the next expected one.\<close>

definition rcv_off :: "ikcpcb \<Rightarrow> ikcpseg \<Rightarrow> nat" where
  "rcv_off kcp seg = unat (ssn seg - rcv_nxt kcp)"

text \<open>
  A well-formed receiving side: the window is below half of the range of sequence numbers, the buffer
  is sorted and within the window, the queue fits into the window, and the counters are right.
\<close>

definition rcv_wf :: "ikcpcb \<Rightarrow> bool" where
  "rcv_wf kcp \<longleftrightarrow>
     unat (rcv_wnd kcp) < 2147483648 \<and>
     sorted_wrt (<) (map (rcv_off kcp) (rcv_buf kcp)) \<and>
     (\<forall>seg \<in> set (rcv_buf kcp). rcv_off kcp seg < unat (rcv_wnd kcp)) \<and>
     length (rcv_queue kcp) \<le> unat (rcv_wnd kcp) \<and>
     nrcv_que kcp = word_of_nat (length (rcv_queue kcp)) \<and>
     nrcv_buf kcp = word_of_nat (length (rcv_buf kcp))"

text \<open>
  Agreement with the fragments \<open>frags\<close> that the peer sends, of which the first \<open>n\<close> have been moved to
  the queue: the queue ends with fragment \<open>n - 1\<close>, and what waits in the buffer are later fragments.
\<close>

definition rcv_stream :: "(u32 \<times> bytes) list \<Rightarrow> nat \<Rightarrow> ikcpcb \<Rightarrow> bool" where
  "rcv_stream frags n kcp \<longleftrightarrow>
     rcv_nxt kcp = word_of_nat n \<and> n \<le> length frags \<and> length (rcv_queue kcp) \<le> n \<and>
     map frag (rcv_queue kcp) = drop (n - length (rcv_queue kcp)) (take n frags) \<and>
     (\<forall>seg \<in> set (rcv_buf kcp). n + rcv_off kcp seg < length frags \<and> frag seg = frags ! (n + rcv_off kcp seg))"

lemma rcv_off_update [simp]:
  "rcv_off (kcp\<lparr>rcv_buf := b\<rparr>) = rcv_off kcp" "rcv_off (kcp\<lparr>rcv_queue := q\<rparr>) = rcv_off kcp"
  "rcv_off (kcp\<lparr>nrcv_buf := c\<rparr>) = rcv_off kcp" "rcv_off (kcp\<lparr>nrcv_que := d\<rparr>) = rcv_off kcp"
  "rcv_off (kcp\<lparr>probe := e\<rparr>) = rcv_off kcp" "rcv_off (kcp\<lparr>kcp_mem := f\<rparr>) = rcv_off kcp"
  by (simp_all add: rcv_off_def fun_eq_iff)

lemma rcv_off_next:
  "0 < rcv_off kcp seg \<Longrightarrow> rcv_off (kcp\<lparr>rcv_nxt := rcv_nxt kcp + 1\<rparr>) seg = rcv_off kcp seg - 1"
proof -
  assume "0 < rcv_off kcp seg"
  then have "ssn seg - rcv_nxt kcp \<noteq> 0" by (auto simp: rcv_off_def)
  from unat_minus_one [OF this] show ?thesis
    by (simp add: rcv_off_def diff_diff_eq)
qed

text \<open>One segment moves.\<close>

definition move_one :: "ikcpseg \<Rightarrow> ikcpcb \<Rightarrow> ikcpcb" where
  "move_one seg kcp = kcp\<lparr>nrcv_buf := nrcv_buf kcp - 1, rcv_queue := rcv_queue kcp @ [seg],
                          nrcv_que := nrcv_que kcp + 1, rcv_nxt := rcv_nxt kcp + 1\<rparr>"

lemma move_one_fields [simp]:
  "rcv_queue (move_one seg kcp) = rcv_queue kcp @ [seg]" "rcv_nxt (move_one seg kcp) = rcv_nxt kcp + 1"
  "nrcv_que (move_one seg kcp) = nrcv_que kcp + 1" "nrcv_buf (move_one seg kcp) = nrcv_buf kcp - 1"
  "rcv_wnd (move_one seg kcp) = rcv_wnd kcp"
  by (simp_all add: move_one_def)

lemma move_one_off:
  assumes "rcv_wf (kcp\<lparr>rcv_buf := seg # buf\<rparr>)" and "ssn seg = rcv_nxt kcp" and "seg' \<in> set buf"
  shows "0 < rcv_off kcp seg'" "rcv_off (move_one seg kcp) seg' = rcv_off kcp seg' - 1"
proof -
  show pos: "0 < rcv_off kcp seg'"
    using assms by (auto simp: rcv_wf_def)
  have "rcv_off (move_one seg kcp) seg' = rcv_off (kcp\<lparr>rcv_nxt := rcv_nxt kcp + 1\<rparr>) seg'"
    by (simp add: rcv_off_def move_one_def)
  with rcv_off_next [OF pos] show "rcv_off (move_one seg kcp) seg' = rcv_off kcp seg' - 1" by simp
qed

lemma move_one_wf:
  assumes wf: "rcv_wf (kcp\<lparr>rcv_buf := seg # buf\<rparr>)" and sn: "ssn seg = rcv_nxt kcp" and room: "nrcv_que kcp < rcv_wnd kcp"
  shows "rcv_wf ((move_one seg kcp)\<lparr>rcv_buf := buf\<rparr>)"
proof -
  let ?k = "move_one seg kcp"
  note off = move_one_off [OF wf sn]
  have wnd: "unat (rcv_wnd kcp) < 2147483648" and q: "nrcv_que kcp = word_of_nat (length (rcv_queue kcp))"
    "length (rcv_queue kcp) \<le> unat (rcv_wnd kcp)"
    using wf by (simp_all add: rcv_wf_def)
  then have "length (rcv_queue kcp) < unat (rcv_wnd kcp)"
    using room by (simp add: word_less_nat_alt)
  moreover have "sorted_wrt (<) (map (rcv_off kcp) buf)"
    using wf by (simp add: rcv_wf_def)
  then have "sorted_wrt (<) (map (rcv_off ?k) buf)"
    using off by (auto simp: sorted_wrt_map sorted_wrt_iff_nth_less) 
       (metis diff_less_mono nth_mem less_trans Suc_leI One_nat_def)
  moreover have "\<forall>seg' \<in> set buf. rcv_off ?k seg' < unat (rcv_wnd kcp)"
    using wf off by (auto simp: rcv_wf_def intro: less_imp_diff_less)
  moreover have "nrcv_buf kcp - 1 = word_of_nat (length buf)"
    using wf by (simp add: rcv_wf_def)
  ultimately show ?thesis
    using wnd q by (simp add: rcv_wf_def)
qed

lemma move_one_stream:
  assumes wf: "rcv_wf (kcp\<lparr>rcv_buf := seg # buf\<rparr>)" and sn: "ssn seg = rcv_nxt kcp"
    and st: "rcv_stream frags n (kcp\<lparr>rcv_buf := seg # buf\<rparr>)"
  shows "rcv_stream frags (Suc n) ((move_one seg kcp)\<lparr>rcv_buf := buf\<rparr>)"
proof -
  let ?q = "rcv_queue kcp"
  note off = move_one_off [OF wf sn]
  have "rcv_off kcp seg = 0" using sn by (simp add: rcv_off_def)
  then have n: "n < length frags" "frag seg = frags ! n" "length ?q \<le> n" "rcv_nxt kcp = word_of_nat n"
    "map frag ?q = drop (n - length ?q) (take n frags)"
    using st by (auto simp: rcv_stream_def)
  have "drop (n - length ?q) (take (Suc n) frags) = map frag ?q @ [frag seg]"
    using n by (simp add: take_Suc_conv_app_nth)
  moreover have "Suc n + rcv_off (move_one seg kcp) seg' < length frags \<and>
      frag seg' = frags ! (Suc n + rcv_off (move_one seg kcp) seg')" if seg': "seg' \<in> set buf" for seg'
  proof -
    have eq: "Suc n + rcv_off (move_one seg kcp) seg' = n + rcv_off kcp seg'"
      using off [OF seg'] by simp
    show ?thesis
      unfolding eq using st seg' by (simp add: rcv_stream_def)
  qed
  ultimately show ?thesis
    using n by (simp add: rcv_stream_def)
qed

lemma move_ready_wf: "rcv_wf (kcp\<lparr>rcv_buf := buf\<rparr>) \<Longrightarrow> rcv_wf (move_ready buf kcp)"
proof (induction buf kcp rule: move_ready.induct)
  case (2 seg buf kcp)
  then show ?case
    using move_one_wf [OF 2(2)] by (simp add: move_one_def)
qed simp

lemma move_ready_stream:
  "rcv_wf (kcp\<lparr>rcv_buf := buf\<rparr>) \<Longrightarrow> rcv_stream frags n (kcp\<lparr>rcv_buf := buf\<rparr>) \<Longrightarrow>
     \<exists>n'. n \<le> n' \<and> rcv_stream frags n' (move_ready buf kcp) \<and>
          length (rcv_queue (move_ready buf kcp)) = length (rcv_queue kcp) + (n' - n)"
proof (induction buf kcp arbitrary: n rule: move_ready.induct)
  case (2 seg buf kcp)
  show ?case
  proof (cases "ssn seg = rcv_nxt kcp \<and> nrcv_que kcp < rcv_wnd kcp")
    case True
    then obtain n' where "Suc n \<le> n'" "rcv_stream frags n' (move_ready buf (move_one seg kcp))"
        "length (rcv_queue (move_ready buf (move_one seg kcp))) = length (rcv_queue (move_one seg kcp)) + (n' - Suc n)"
      using 2(1) [OF True, of "Suc n"] move_one_wf [OF 2(2)] move_one_stream [OF 2(2) _ 2(3)]
      by (auto simp: move_one_def)
    then show ?thesis
      using True by (intro exI [of _ n']) (simp add: move_one_def [symmetric])
  next
    case False
    then show ?thesis using 2(3) by auto
  qed
qed auto

text \<open>What moving leaves alone.\<close>

lemma move_ready_keeps [simp]:
  "conv (move_ready buf kcp) = conv kcp" "mtu (move_ready buf kcp) = mtu kcp" "mss (move_ready buf kcp) = mss kcp"
  "kstate (move_ready buf kcp) = kstate kcp" "snd_una (move_ready buf kcp) = snd_una kcp"
  "snd_nxt (move_ready buf kcp) = snd_nxt kcp" "ts_recent (move_ready buf kcp) = ts_recent kcp"
  "ts_lastack (move_ready buf kcp) = ts_lastack kcp" "ssthresh (move_ready buf kcp) = ssthresh kcp"
  "rx_rttval (move_ready buf kcp) = rx_rttval kcp" "rx_srtt (move_ready buf kcp) = rx_srtt kcp"
  "rx_rto (move_ready buf kcp) = rx_rto kcp" "rx_minrto (move_ready buf kcp) = rx_minrto kcp"
  "snd_wnd (move_ready buf kcp) = snd_wnd kcp" "rcv_wnd (move_ready buf kcp) = rcv_wnd kcp"
  "rmt_wnd (move_ready buf kcp) = rmt_wnd kcp" "cwnd (move_ready buf kcp) = cwnd kcp"
  "probe (move_ready buf kcp) = probe kcp" "current (move_ready buf kcp) = current kcp"
  "interval (move_ready buf kcp) = interval kcp" "ts_flush (move_ready buf kcp) = ts_flush kcp"
  "xmit (move_ready buf kcp) = xmit kcp" "nsnd_buf (move_ready buf kcp) = nsnd_buf kcp"
  "nsnd_que (move_ready buf kcp) = nsnd_que kcp" "nodelay (move_ready buf kcp) = nodelay kcp"
  "updated (move_ready buf kcp) = updated kcp" "ts_probe (move_ready buf kcp) = ts_probe kcp"
  "probe_wait (move_ready buf kcp) = probe_wait kcp" "dead_link (move_ready buf kcp) = dead_link kcp"
  "incr (move_ready buf kcp) = incr kcp" "snd_queue (move_ready buf kcp) = snd_queue kcp"
  "snd_buf (move_ready buf kcp) = snd_buf kcp" "acklist (move_ready buf kcp) = acklist kcp"
  "ackblock (move_ready buf kcp) = ackblock kcp" "ackedlen (move_ready buf kcp) = ackedlen kcp"
  "fastresend (move_ready buf kcp) = fastresend kcp" "fastlimit (move_ready buf kcp) = fastlimit kcp"
  "nocwnd (move_ready buf kcp) = nocwnd kcp" "stream (move_ready buf kcp) = stream kcp"
  "has_output (move_ready buf kcp) = has_output kcp" "kcp_mem (move_ready buf kcp) = kcp_mem kcp"
  by (induction buf kcp rule: move_ready.induct; simp)+

text \<open>Inserting a segment into the sorted buffer.\<close>

lemma insert_rev_spec:
  assumes "sorted_wrt (\<lambda>a b. rcv_off kcp b < rcv_off kcp a) segs"
    and "\<forall>seg \<in> set (new # segs). rcv_off kcp seg < W" and "W \<le> 2147483648"
  shows "case insert_rev new segs of
           None \<Rightarrow> \<exists>seg \<in> set segs. ssn seg = ssn new
         | Some segs' \<Rightarrow> sorted_wrt (\<lambda>a b. rcv_off kcp b < rcv_off kcp a) segs' \<and>
                        set segs' = insert new (set segs) \<and> length segs' = Suc (length segs) \<and>
                        (\<forall>seg \<in> set segs. ssn seg \<noteq> ssn new)"
  using assms
proof (induction segs)
  case (Cons seg segs)
  have off: "rcv_off kcp seg < 2147483648" "rcv_off kcp new < 2147483648"
    using Cons.prems(2,3) by auto
  then have diff: "itimediff (ssn new) (ssn seg) = int (rcv_off kcp new) - int (rcv_off kcp seg)"
    unfolding rcv_off_def by (intro itimediff_offsets) simp_all
  have neq: "ssn seg \<noteq> ssn new \<longleftrightarrow> rcv_off kcp seg \<noteq> rcv_off kcp new"
    by (simp add: rcv_off_def word_unat_eq_iff [symmetric])
  have below: "rcv_off kcp s < rcv_off kcp seg" if "s \<in> set segs" for s
    using Cons.prems(1) that by simp
  consider "ssn seg = ssn new" | "rcv_off kcp seg < rcv_off kcp new" | "rcv_off kcp new < rcv_off kcp seg"
    using neq by linarith
  then show ?case
  proof cases
    case 2
    then have "ssn s \<noteq> ssn new" if "s \<in> set segs" for s
      using below [OF that] by (auto simp: rcv_off_def)
    moreover have "rcv_off kcp s < rcv_off kcp new" if "s \<in> set segs" for s
      using below [OF that] 2 by simp
    ultimately show ?thesis
      using 2 diff neq Cons.prems(1) by auto
  next
    case 3
    have "case insert_rev new segs of
           None \<Rightarrow> \<exists>seg \<in> set segs. ssn seg = ssn new
         | Some segs' \<Rightarrow> sorted_wrt (\<lambda>a b. rcv_off kcp b < rcv_off kcp a) segs' \<and>
                        set segs' = insert new (set segs) \<and> length segs' = Suc (length segs) \<and>
                        (\<forall>seg \<in> set segs. ssn seg \<noteq> ssn new)"
      using Cons by simp
    then show ?thesis
      using 3 diff neq below by (auto split: option.splits)
  qed simp
qed simp

section \<open>Taking in a segment\<close>

lemma ikcp_segment_delete_simps [simp]:
  "rcv_wf (ikcp_segment_delete seg kcp) = rcv_wf kcp"
  "rcv_stream frags n (ikcp_segment_delete seg kcp) = rcv_stream frags n kcp"
  "rcv_buf (ikcp_segment_delete seg kcp) = rcv_buf kcp" "rcv_queue (ikcp_segment_delete seg kcp) = rcv_queue kcp"
  "rcv_nxt (ikcp_segment_delete seg kcp) = rcv_nxt kcp" "rcv_wnd (ikcp_segment_delete seg kcp) = rcv_wnd kcp"
  by (simp_all add: ikcp_segment_delete_def ikcp_free_def rcv_wf_def rcv_stream_def)

text \<open>\<open>ikcp_parse_data\<close> up to the moving: the buffer gains a segment, or not.\<close>

definition take_in :: "ikcpcb \<Rightarrow> ikcpseg \<Rightarrow> ikcpcb" where
  "take_in kcp new =
     (case insert_rev new (rev (rcv_buf kcp)) of
        None \<Rightarrow> ikcp_segment_delete new kcp
      | Some buf \<Rightarrow> kcp\<lparr>rcv_buf := rev buf, nrcv_buf := nrcv_buf kcp + 1\<rparr>)"

lemma parse_data_unfold:
  "rcv_wf kcp \<Longrightarrow> ikcp_parse_data kcp new =
     (if unat (rcv_wnd kcp) \<le> rcv_off kcp new then ikcp_segment_delete new kcp
      else move_ready (rcv_buf (take_in kcp new)) (take_in kcp new))"
  using window_test [of "rcv_wnd kcp" "ssn new" "rcv_nxt kcp"]
  by (simp add: ikcp_parse_data_def take_in_def rcv_off_def rcv_wf_def Let_def)

lemma take_in_wf:
  assumes wf: "rcv_wf kcp" and win: "rcv_off kcp new < unat (rcv_wnd kcp)"
  shows "rcv_wf (take_in kcp new)" and "rcv_queue (take_in kcp new) = rcv_queue kcp"
    and "rcv_nxt (take_in kcp new) = rcv_nxt kcp" and "rcv_wnd (take_in kcp new) = rcv_wnd kcp"
    and "set (rcv_buf (take_in kcp new)) \<subseteq> insert new (set (rcv_buf kcp))"
    and "\<exists>seg \<in> set (rcv_buf (take_in kcp new)). ssn seg = ssn new"
    and "set (rcv_buf kcp) \<subseteq> set (rcv_buf (take_in kcp new))"
proof -
  have sorted: "sorted_wrt (\<lambda>a b. rcv_off kcp b < rcv_off kcp a) (rev (rcv_buf kcp))"
    using wf by (simp add: rcv_wf_def sorted_wrt_rev sorted_wrt_map)
  have bound: "\<forall>seg \<in> set (new # rev (rcv_buf kcp)). rcv_off kcp seg < unat (rcv_wnd kcp)"
    "unat (rcv_wnd kcp) \<le> 2147483648"
    using wf win by (auto simp: rcv_wf_def)
  note spec = insert_rev_spec [OF sorted bound]
  have "rcv_wf (take_in kcp new) \<and> rcv_queue (take_in kcp new) = rcv_queue kcp \<and>
      rcv_nxt (take_in kcp new) = rcv_nxt kcp \<and> rcv_wnd (take_in kcp new) = rcv_wnd kcp \<and>
      set (rcv_buf (take_in kcp new)) \<subseteq> insert new (set (rcv_buf kcp)) \<and>
      (\<exists>seg \<in> set (rcv_buf (take_in kcp new)). ssn seg = ssn new) \<and>
      set (rcv_buf kcp) \<subseteq> set (rcv_buf (take_in kcp new))"
  proof (cases "insert_rev new (rev (rcv_buf kcp))")
    case None
    then show ?thesis using wf spec by (auto simp: take_in_def)
  next
    case (Some buf)
    then have buf: "sorted_wrt (\<lambda>a b. rcv_off kcp b < rcv_off kcp a) buf" "set buf = insert new (set (rcv_buf kcp))"
      "length buf = Suc (length (rcv_buf kcp))"
      using spec by simp_all
    then have "sorted_wrt (<) (map (rcv_off kcp) (rev buf))"
      by (simp add: sorted_wrt_rev sorted_wrt_map rev_map)
    then show ?thesis
      using Some wf buf bound by (auto simp: take_in_def rcv_wf_def)
  qed
  then show "rcv_wf (take_in kcp new)" and "rcv_queue (take_in kcp new) = rcv_queue kcp"
    and "rcv_nxt (take_in kcp new) = rcv_nxt kcp" and "rcv_wnd (take_in kcp new) = rcv_wnd kcp"
    and "set (rcv_buf (take_in kcp new)) \<subseteq> insert new (set (rcv_buf kcp))"
    and "\<exists>seg \<in> set (rcv_buf (take_in kcp new)). ssn seg = ssn new"
    and "set (rcv_buf kcp) \<subseteq> set (rcv_buf (take_in kcp new))"
    by blast+
qed

lemma parse_data_wf: "rcv_wf kcp \<Longrightarrow> rcv_wf (ikcp_parse_data kcp new)"
  using take_in_wf(1) [of kcp new] move_ready_wf [of "rcv_buf (take_in kcp new)" "take_in kcp new"]
  by (simp add: parse_data_unfold)

text \<open>A segment that is what the peer sends under its number.\<close>

definition genuine :: "(u32 \<times> bytes) list \<Rightarrow> nat \<Rightarrow> ikcpcb \<Rightarrow> ikcpseg \<Rightarrow> bool" where
  "genuine frags n kcp seg \<longleftrightarrow>
     (rcv_off kcp seg < unat (rcv_wnd kcp) \<longrightarrow>
        n + rcv_off kcp seg < length frags \<and> frag seg = frags ! (n + rcv_off kcp seg))"

lemma parse_data_stream:
  assumes wf: "rcv_wf kcp" and st: "rcv_stream frags n kcp" and gen: "genuine frags n kcp new"
  shows "\<exists>n'. n \<le> n' \<and> rcv_stream frags n' (ikcp_parse_data kcp new) \<and>
           length (rcv_queue (ikcp_parse_data kcp new)) = length (rcv_queue kcp) + (n' - n)"
proof (cases "rcv_off kcp new < unat (rcv_wnd kcp)")
  case True
  let ?k = "take_in kcp new"
  note t = take_in_wf [OF wf True]
  have off: "rcv_off ?k = rcv_off kcp"
    using t(3) by (simp add: rcv_off_def fun_eq_iff)
  have "rcv_stream frags n ?k"
    using st gen True t unfolding rcv_stream_def genuine_def off by auto
  then show ?thesis
    using move_ready_stream [of "rcv_buf ?k" ?k frags n] t(1,2) wf True
    by (simp add: parse_data_unfold)
next
  case False
  then show ?thesis
    using wf st by (auto simp: parse_data_unfold)
qed

section \<open>Taking out messages\<close>

text \<open>The fragments that \<open>ikcp_send\<close> makes of a sequence of messages.\<close>

definition stream_of :: "nat \<Rightarrow> bytes list \<Rightarrow> (u32 \<times> bytes) list" where
  "stream_of M msgs = concat (map (\<lambda>m. countdown (chunks M m)) msgs)"

lemma stream_of_Nil [simp]: "stream_of M [] = []"
  by (simp add: stream_of_def)

lemma stream_of_Cons: "stream_of M (m # msgs) = countdown (chunks M m) @ stream_of M msgs"
  by (simp add: stream_of_def)

lemma stream_of_append: "stream_of M (a @ b) = stream_of M a @ stream_of M b"
  by (simp add: stream_of_def)

lemma split_message_countdown:
  "map frag segs = countdown cs @ rest \<Longrightarrow> cs \<noteq> [] \<Longrightarrow> length cs < 4294967296 \<Longrightarrow>
     split_message segs = (take (length cs) segs, drop (length cs) segs)"
proof (induction cs arbitrary: segs)
  case (Cons c cs)
  then obtain seg segs' where segs: "segs = seg # segs'"
    by (cases segs) auto
  have "frag seg = (word_of_nat (length cs), c)" and tl: "map frag segs' = countdown cs @ rest"
    using Cons.prems(1) segs by simp_all
  then have frg: "sfrg seg = word_of_nat (length cs)" by (simp add: frag_def)
  show ?case
  proof (cases "cs = []")
    case False
    then have "(word_of_nat (length cs) :: u32) \<noteq> 0"
      using Cons.prems(3) by (simp add: word_unat_eq_iff)
    with False Cons.IH [OF tl False] Cons.prems(3) segs frg show ?thesis by simp
  qed (use segs frg in simp)
qed simp

lemma free_segments_form: "\<exists>m. free_segments segs kcp = kcp\<lparr>kcp_mem := m\<rparr> \<and>
    mem_live m = mem_live (kcp_mem kcp) - int (length segs) \<and> mem_good m = mem_good (kcp_mem kcp)"
proof (induction segs arbitrary: kcp)
  case Nil
  show ?case by (intro exI [of _ "kcp_mem kcp"]) simp
next
  case (Cons seg segs)
  let ?k = "ikcp_segment_delete seg kcp"
  obtain m where m: "free_segments segs ?k = ?k\<lparr>kcp_mem := m\<rparr>"
    "mem_live m = mem_live (kcp_mem ?k) - int (length segs)" "mem_good m = mem_good (kcp_mem ?k)"
    using Cons by blast
  have "?k\<lparr>kcp_mem := m\<rparr> = kcp\<lparr>kcp_mem := m\<rparr>"
    by (simp add: ikcp_segment_delete_def ikcp_free_def)
  with m show ?case
    by (intro exI [of _ m]) (simp add: ikcp_segment_delete_def ikcp_free_def kvstore_free_live)
qed

text \<open>Removing the first segments of the queue.\<close>

lemma drop_queue_wf:
  assumes "rcv_wf kcp" and "c \<le> length (rcv_queue kcp)"
  shows "rcv_wf (kcp\<lparr>kcp_mem := m, rcv_queue := drop c (rcv_queue kcp), nrcv_que := nrcv_que kcp - word_of_nat c\<rparr>)"
  using assms by (auto simp: rcv_wf_def of_nat_diff)

lemma drop_queue_stream:
  assumes "rcv_stream frags n kcp" and "c \<le> length (rcv_queue kcp)"
  shows "rcv_stream frags n (kcp\<lparr>kcp_mem := m, rcv_queue := drop c (rcv_queue kcp), nrcv_que := q\<rparr>)"
proof -
  have n: "length (rcv_queue kcp) \<le> n" "map frag (rcv_queue kcp) = drop (n - length (rcv_queue kcp)) (take n frags)"
    using assms(1) by (simp_all add: rcv_stream_def)
  then have "map frag (drop c (rcv_queue kcp)) = drop (n - length (rcv_queue kcp) + c) (take n frags)"
    by (simp add: drop_map [symmetric] add.commute)
  moreover have "n - (length (rcv_queue kcp) - c) = n - length (rcv_queue kcp) + c"
    using n(1) assms(2) by simp
  ultimately show ?thesis
    using assms(1) by (auto simp: rcv_stream_def)
qed

lemma probe_update [simp]:
  "rcv_wf (kcp\<lparr>probe := p\<rparr>) = rcv_wf kcp" "rcv_stream frags n (kcp\<lparr>probe := p\<rparr>) = rcv_stream frags n kcp"
  by (simp_all add: rcv_wf_def rcv_stream_def)

text \<open>The receiving side, about to deliver the message number \<open>k\<close>.\<close>

definition rcv_at :: "nat \<Rightarrow> bytes list \<Rightarrow> nat \<Rightarrow> ikcpcb \<Rightarrow> bool" where
  "rcv_at M msgs k kcp \<longleftrightarrow>
     rcv_wf kcp \<and> k \<le> length msgs \<and>
     (\<exists>n. rcv_stream (stream_of M msgs) n kcp \<and>
          n - length (rcv_queue kcp) = length (stream_of M (take k msgs)))"

lemma rcv_at_queue:
  assumes "rcv_at M msgs k kcp"
  shows "map frag (rcv_queue kcp) = take (length (rcv_queue kcp)) (stream_of M (drop k msgs))"
proof -
  obtain n where n: "rcv_stream (stream_of M msgs) n kcp"
    "n - length (rcv_queue kcp) = length (stream_of M (take k msgs))"
    using assms by (auto simp: rcv_at_def)
  have "drop (length (stream_of M (take k msgs))) (stream_of M msgs) = stream_of M (drop k msgs)"
    using stream_of_append [of M "take k msgs" "drop k msgs"] by simp
  moreover have "length (rcv_queue kcp) \<le> n"
    and "map frag (rcv_queue kcp) = drop (n - length (rcv_queue kcp)) (take n (stream_of M msgs))"
    using n(1) by (simp_all add: rcv_stream_def)
  moreover from this(1) n(2) have "n - length (stream_of M (take k msgs)) = length (rcv_queue kcp)"
    by linarith
  ultimately show ?thesis
    using n(2) by (simp add: drop_take)
qed

lemma recv_nothing:
  assumes at: "rcv_at M msgs k kcp" and small: "\<forall>m \<in> set msgs. length (chunks M m) < 4294967296"
    and short: "k < length msgs \<longrightarrow> length (rcv_queue kcp) < length (chunks M (msgs ! k))"
  shows "ikcp_peeksize kcp = - 1"
proof (cases "rcv_queue kcp")
  case Nil
  then show ?thesis by (simp add: ikcp_peeksize_def)
next
  case (Cons seg segs)
  have "map frag (rcv_queue kcp) \<noteq> []" using Cons by simp
  then have "stream_of M (drop k msgs) \<noteq> []"
    unfolding rcv_at_queue [OF at] by auto
  then have k: "k < length msgs"
    by (cases "k < length msgs") simp_all
  let ?cs = "chunks M (msgs ! k)"
  have dk: "drop k msgs = msgs ! k # drop (Suc k) msgs"
    using k by (simp add: Cons_nth_drop_Suc)
  obtain c cs where cs: "?cs = c # cs" by (cases ?cs) auto
  have len: "length ?cs < 4294967296" "length (rcv_queue kcp) < length ?cs"
    using small short k by simp_all
  have "frag seg = hd (map frag (rcv_queue kcp))" using Cons by simp
  also have "\<dots> = hd (take (length (rcv_queue kcp)) (stream_of M (drop k msgs)))"
    using rcv_at_queue [OF at] by simp
  also have "\<dots> = (word_of_nat (length cs), c)"
    using Cons by (simp add: dk stream_of_Cons cs)
  finally have frg: "sfrg seg = word_of_nat (length cs)" by (simp add: frag_def)
  have q: "nrcv_que kcp = word_of_nat (length (rcv_queue kcp))"
    using at by (simp add: rcv_at_def rcv_wf_def)
  have "word_of_nat (length cs) + 1 = (word_of_nat (length ?cs) :: u32)"
    using cs by simp
  then have "nrcv_que kcp < sfrg seg + 1"
    using len frg q by (simp add: word_less_nat_alt)
  moreover have "sfrg seg \<noteq> 0"
    using frg len cs Cons by (auto simp: word_unat_eq_iff)
  ultimately show ?thesis
    using Cons by (simp add: ikcp_peeksize_def)
qed

lemma recv_split:
  assumes at: "rcv_at M msgs k kcp" and small: "\<forall>m \<in> set msgs. length (chunks M m) < 4294967296"
    and k: "k < length msgs" and full: "length (chunks M (msgs ! k)) \<le> length (rcv_queue kcp)"
  defines "c \<equiv> length (chunks M (msgs ! k))"
  shows "split_message (rcv_queue kcp) = (take c (rcv_queue kcp), drop c (rcv_queue kcp))"
    and "concat (map sdata (take c (rcv_queue kcp))) = msgs ! k"
    and "ikcp_peeksize kcp = int (length (msgs ! k))"
proof -
  let ?q = "rcv_queue kcp" and ?cs = "chunks M (msgs ! k)"
  have dk: "drop k msgs = msgs ! k # drop (Suc k) msgs"
    using k by (simp add: Cons_nth_drop_Suc)
  obtain rest where q: "map frag ?q = countdown ?cs @ rest"
    using rcv_at_queue [OF at] full by (auto simp: dk stream_of_Cons)
  have len: "length ?cs < 4294967296" using small k by simp
  show split: "split_message ?q = (take c ?q, drop c ?q)"
    unfolding c_def by (rule split_message_countdown [OF q _ len]) simp
  have "map frag (take c ?q) = countdown ?cs"
    using q by (simp add: take_map [symmetric] c_def)
  then have "map snd (map frag (take c ?q)) = ?cs" by (simp only: countdown_data)
  then have "map sdata (take c ?q) = ?cs" by (simp add: frag_def comp_def)
  then show msg: "concat (map sdata (take c ?q)) = msgs ! k" by simp
  obtain c1 cs1 where cs: "?cs = c1 # cs1" by (cases ?cs) auto
  obtain seg segs where seg: "?q = seg # segs" using full cs by (cases ?q) auto
  have frg: "sfrg seg = word_of_nat (length cs1)"
    using q seg cs by (simp add: frag_def)
  have que: "nrcv_que kcp = word_of_nat (length ?q)" "length ?q < 4294967296"
    using at by (simp_all add: rcv_at_def rcv_wf_def)
  have sum: "data_len (fst (split_message ?q)) = int (length (msgs ! k))"
    using split msg by (simp add: data_len_def)
  show "ikcp_peeksize kcp = int (length (msgs ! k))"
  proof (cases "cs1 = []")
    case True
    then have "fst (split_message ?q) = [seg]" using frg seg by simp
    with sum have "data_len [seg] = int (length (msgs ! k))" by simp
    with True frg seg show ?thesis by (simp add: ikcp_peeksize_def)
  next
    case False
    have "word_of_nat (length cs1) + 1 = (word_of_nat (length ?cs) :: u32)"
      using cs by simp
    then have "\<not> nrcv_que kcp < sfrg seg + 1"
      using len frg que full by (simp add: word_less_nat_alt)
    moreover have "sfrg seg \<noteq> 0"
      using frg len cs False by (simp add: word_unat_eq_iff)
    ultimately show ?thesis
      using seg sum by (simp add: ikcp_peeksize_def)
  qed
qed

lemma recv_state:
  assumes at: "rcv_at M msgs k kcp" and k: "k < length msgs"
    and full: "length (chunks M (msgs ! k)) \<le> length (rcv_queue kcp)"
  defines "c \<equiv> length (chunks M (msgs ! k))"
  defines "kcp1 \<equiv> (free_segments (take c (rcv_queue kcp)) kcp)\<lparr>rcv_queue := drop c (rcv_queue kcp),
                      nrcv_que := nrcv_que kcp - word_of_nat (length (take c (rcv_queue kcp)))\<rparr>"
  shows "rcv_at M msgs (Suc k) (move_ready (rcv_buf kcp1) kcp1)"
proof -
  have c: "c \<le> length (rcv_queue kcp)" using full by (simp add: c_def)
  obtain m where "free_segments (take c (rcv_queue kcp)) kcp = kcp\<lparr>kcp_mem := m\<rparr>"
    using free_segments_form by blast
  then have k1: "kcp1 = kcp\<lparr>kcp_mem := m, rcv_queue := drop c (rcv_queue kcp), nrcv_que := nrcv_que kcp - word_of_nat c\<rparr>"
    using c by (simp add: kcp1_def min_def)
  obtain n where n: "rcv_stream (stream_of M msgs) n kcp"
    "n - length (rcv_queue kcp) = length (stream_of M (take k msgs))"
    using at by (auto simp: rcv_at_def)
  have wf1: "rcv_wf kcp1"
    unfolding k1 by (rule drop_queue_wf [OF _ c]) (use at in \<open>simp add: rcv_at_def\<close>)
  have st1: "rcv_stream (stream_of M msgs) n kcp1"
    unfolding k1 by (rule drop_queue_stream [OF n(1) c])
  have "\<exists>n'. n \<le> n' \<and> rcv_stream (stream_of M msgs) n' (move_ready (rcv_buf kcp1) kcp1) \<and>
      length (rcv_queue (move_ready (rcv_buf kcp1) kcp1)) = length (rcv_queue kcp1) + (n' - n)"
    by (rule move_ready_stream) (use wf1 st1 in simp_all)
  then obtain n' where n': "n \<le> n'" "rcv_stream (stream_of M msgs) n' (move_ready (rcv_buf kcp1) kcp1)"
    "length (rcv_queue (move_ready (rcv_buf kcp1) kcp1)) = length (rcv_queue kcp1) + (n' - n)"
    by blast
  have "length (rcv_queue kcp1) = length (rcv_queue kcp) - c" by (simp add: k1)
  moreover have "length (rcv_queue kcp) \<le> n" using n(1) by (simp add: rcv_stream_def)
  moreover have "length (stream_of M (take (Suc k) msgs)) = length (stream_of M (take k msgs)) + c"
    using k by (simp add: take_Suc_conv_app_nth stream_of_append stream_of_Cons c_def)
  ultimately have "n' - length (rcv_queue (move_ready (rcv_buf kcp1) kcp1)) = length (stream_of M (take (Suc k) msgs))"
    using n(2) n' c by linarith
  moreover have "rcv_wf (move_ready (rcv_buf kcp1) kcp1)"
    using move_ready_wf [of "rcv_buf kcp1" kcp1] wf1 by simp
  ultimately show ?thesis
    using n'(2) k by (auto simp: rcv_at_def)
qed

lemma rcv_at_probe [simp]: "rcv_at M msgs k (kcp\<lparr>probe := p\<rparr>) = rcv_at M msgs k kcp"
  by (simp add: rcv_at_def)

lemma recv_message:
  assumes at: "rcv_at M msgs k kcp" and small: "\<forall>m \<in> set msgs. length (chunks M m) < 4294967296"
    and k: "k < length msgs" and full: "length (chunks M (msgs ! k)) \<le> length (rcv_queue kcp)"
    and len: "int (length (msgs ! k)) \<le> len"
  shows "\<exists>kcp'. ikcp_recv kcp len = Inr (int (length (msgs ! k)), msgs ! k, kcp') \<and> rcv_at M msgs (Suc k) kcp'"
proof -
  note split = recv_split [OF at small k full] and state = recv_state [OF at k full]
  have "rcv_queue kcp \<noteq> []" using full by auto
  moreover have "0 \<le> len" using len by linarith
  ultimately show ?thesis
    using split state len by (simp add: ikcp_recv_def data_len_def Let_def)
qed

section \<open>Properties\<close>

text \<open>
  C27: the receive buffer under any segment that arrives. \<open>ikcp_parse_data\<close> keeps the buffer sorted by
  sequence number without duplicates, inside the window, the queue within the window and the counters
  right, whatever the segment's number; a segment inside the window is then in the queue or in the
  buffer, and one outside it changes neither.
\<close>

theorem parse_data_keeps_window:
  assumes "rcv_wf kcp"
  shows "rcv_wf (ikcp_parse_data kcp new) \<and>
         (rcv_off kcp new < unat (rcv_wnd kcp) \<longrightarrow>
            ssn new \<in> ssn ` set (rcv_queue (ikcp_parse_data kcp new) @ rcv_buf (ikcp_parse_data kcp new))) \<and>
         (unat (rcv_wnd kcp) \<le> rcv_off kcp new \<longrightarrow>
            rcv_queue (ikcp_parse_data kcp new) = rcv_queue kcp \<and> rcv_buf (ikcp_parse_data kcp new) = rcv_buf kcp)"
proof -
  have moved: "set (rcv_queue (move_ready buf k) @ rcv_buf (move_ready buf k)) = set (rcv_queue k @ buf)" for buf k
    by (induction buf k rule: move_ready.induct) auto
  have "ssn new \<in> ssn ` set (rcv_queue (ikcp_parse_data kcp new) @ rcv_buf (ikcp_parse_data kcp new))"
    if win: "rcv_off kcp new < unat (rcv_wnd kcp)"
  proof -
    obtain seg where seg: "seg \<in> set (rcv_buf (take_in kcp new))" "ssn seg = ssn new"
      using take_in_wf(6) [OF assms win] by blast
    let ?k = "move_ready (rcv_buf (take_in kcp new)) (take_in kcp new)"
    have "seg \<in> set (rcv_queue ?k @ rcv_buf ?k)"
      unfolding moved using seg(1) by simp
    then have "seg \<in> set (rcv_queue (ikcp_parse_data kcp new) @ rcv_buf (ikcp_parse_data kcp new))"
      using win by (simp add: parse_data_unfold [OF assms])
    with seg(2) show ?thesis by (metis image_eqI)
  qed
  then show ?thesis
    using parse_data_wf [OF assms, of new] by (simp add: parse_data_unfold [OF assms])
qed

lemma new_kcp_rcv_wf: "rcv_wf (new_kcp cv m)"
  by (simp add: rcv_wf_def new_kcp_def)

theorem parse_data_keeps_window_witness:
  "rcv_wf (ikcp_parse_data (new_kcp 7 good_mem) (fresh_seg\<lparr>ssn := 3\<rparr>)) \<and>
   3 \<in> ssn ` set (rcv_queue (ikcp_parse_data (new_kcp 7 good_mem) (fresh_seg\<lparr>ssn := 3\<rparr>)) @
                  rcv_buf (ikcp_parse_data (new_kcp 7 good_mem) (fresh_seg\<lparr>ssn := 3\<rparr>)))"
proof -
  have "rcv_off (new_kcp 7 good_mem) (fresh_seg\<lparr>ssn := 3\<rparr>) < unat (rcv_wnd (new_kcp 7 good_mem))"
    by (simp add: rcv_off_def new_kcp_def fresh_seg_def)
  with parse_data_keeps_window [OF new_kcp_rcv_wf [of 7 good_mem], of "fresh_seg\<lparr>ssn := 3\<rparr>"] show ?thesis
    by (simp only: ikcpseg.select_convs ikcpseg.update_convs fresh_seg_def)
qed

text \<open>
  C28: \<open>ikcp_recv\<close> delivers whole messages in order. When the queue is about to deliver message \<open>k\<close> of
  those the peer sent, \<open>ikcp_recv\<close> either returns exactly that message, if all its fragments are
  queued and the caller's buffer is large enough, and is then about to deliver message \<open>k + 1\<close>; or
  it returns -1, -2 (nothing complete) or -3 (buffer too small) and changes nothing. Its internal
  assertion never fails.
\<close>

theorem recv_delivers_messages_in_order:
  assumes "rcv_at M msgs k kcp" and "\<forall>m \<in> set msgs. length (chunks M m) < 4294967296" and "0 \<le> len"
  shows "(k < length msgs \<and> length (chunks M (msgs ! k)) \<le> length (rcv_queue kcp) \<and> int (length (msgs ! k)) \<le> len \<longrightarrow>
            (\<exists>kcp'. ikcp_recv kcp len = Inr (int (length (msgs ! k)), msgs ! k, kcp') \<and> rcv_at M msgs (Suc k) kcp')) \<and>
         (\<not> (k < length msgs \<and> length (chunks M (msgs ! k)) \<le> length (rcv_queue kcp) \<and> int (length (msgs ! k)) \<le> len) \<longrightarrow>
            (\<exists>r \<in> {- 1, - 2, - 3}. ikcp_recv kcp len = Inr (r, [], kcp)))"
proof -
  have waiting: "\<exists>r \<in> {- 1, - 2, - 3}. ikcp_recv kcp len = Inr (r, [], kcp)"
    if "k < length msgs \<longrightarrow> length (rcv_queue kcp) < length (chunks M (msgs ! k))"
    using recv_nothing [OF assms(1,2) that] assms(3) by (simp add: ikcp_recv_def)
  have small: "\<exists>r \<in> {- 1, - 2, - 3}. ikcp_recv kcp len = Inr (r, [], kcp)"
    if "k < length msgs" "length (chunks M (msgs ! k)) \<le> length (rcv_queue kcp)" "len < int (length (msgs ! k))"
    using recv_split(3) [OF assms(1,2) that(1,2)] that assms(3) by (auto simp: ikcp_recv_def)
  show ?thesis
  proof (cases "k < length msgs \<and> length (chunks M (msgs ! k)) \<le> length (rcv_queue kcp) \<and> int (length (msgs ! k)) \<le> len")
    case True
    then show ?thesis
      using recv_message [OF assms(1,2), of len] by simp
  next
    case False
    have "\<exists>r \<in> {- 1, - 2, - 3}. ikcp_recv kcp len = Inr (r, [], kcp)"
    proof (cases "k < length msgs \<and> length (chunks M (msgs ! k)) \<le> length (rcv_queue kcp)")
      case True
      with False show ?thesis by (intro small) simp_all
    next
      case False
      show ?thesis by (rule waiting) (use False in auto)
    qed
    with False show ?thesis by blast
  qed
qed

text \<open>A connection on which the message of two bytes has arrived.\<close>

definition one_message :: ikcpcb where
  "one_message = (new_kcp 7 good_mem)\<lparr>rcv_queue := [fresh_seg\<lparr>sdata := [1, 2]\<rparr>], nrcv_que := 1, rcv_nxt := 1\<rparr>"

lemma one_message_at: "rcv_at 1376 [[1, 2]] 0 one_message"
proof -
  have "stream_of 1376 [[1, 2]] = [(0, [1, 2])]"
    by (simp add: stream_of_def chunks.simps [of 1376 "[1, 2]"])
  then have "rcv_stream (stream_of 1376 [[1, 2]]) 1 one_message"
    by (simp add: rcv_stream_def one_message_def new_kcp_def fresh_seg_def frag_def)
  moreover have "rcv_wf one_message"
    by (simp add: rcv_wf_def one_message_def new_kcp_def)
  ultimately show ?thesis
    by (auto simp: rcv_at_def one_message_def intro: exI [of _ 1])
qed

theorem recv_delivers_messages_in_order_witness:
  "\<exists>kcp'. ikcp_recv one_message 1500 = Inr (2, [1, 2], kcp') \<and> rcv_at 1376 [[1, 2]] 1 kcp'"
proof -
  have "length (chunks 1376 [1, 2]) = 1" by (simp add: chunks.simps [of 1376 "[1, 2]"])
  moreover have "length (rcv_queue one_message) = 1" by (simp add: one_message_def)
  ultimately show ?thesis
    using recv_delivers_messages_in_order [OF one_message_at, of 1500] by simp
qed

end
