(* ===== verification/KcpAck.thy ===== *)
theory KcpAck
  imports Prelude KcpBase KcpSend KcpRecv
begin

text \<open>
  Acknowledgements on a KCP connection, from \<open>src/third_party/kcp/ikcp.c\<close>: the round-trip estimate
  (\<open>ikcp_update_ack\<close>), removing acknowledged segments from the send buffer (\<open>ikcp_parse_ack\<close>,
  \<open>ikcp_parse_una\<close>, \<open>ikcp_shrink_buf\<close>), counting skipped ones (\<open>ikcp_parse_fastack\<close>) and the list of
  acknowledgements to send (\<open>ikcp_ack_push\<close>).
\<close>

section \<open>Round-trip time\<close>

definition ikcp_update_ack :: "ikcpcb \<Rightarrow> int \<Rightarrow> ikcpcb res" where
  "ikcp_update_ack kcp rtt =
     rbind
       (if rx_srtt kcp = 0 then Inr (rtt, rtt sdiv 2)
        else
          rbind (int32 (rtt - rx_srtt kcp)) (\<lambda>d.
          let delta = (if d < 0 then - d else d)
          in rbind (int32 (3 * rx_rttval kcp)) (\<lambda>a.
             rbind (int32 (7 * rx_srtt kcp)) (\<lambda>b.
             rbind (int32 (b + rtt)) (\<lambda>c.
               Inr (if c sdiv 8 < 1 then 1 else c sdiv 8, (a + delta) sdiv 4))))))
       (\<lambda>(srtt, rttval).
          rbind (int32 (4 * rttval)) (\<lambda>q.
          let rto = sint (word_of_int srtt + imax (interval kcp) (word_of_int q))
          in Inr (kcp\<lparr>rx_srtt := srtt, rx_rttval := rttval,
                      rx_rto := sint (ibound (word_of_int (rx_minrto kcp)) (word_of_int rto) IKCP_RTO_MAX)\<rparr>)))"

section \<open>The send buffer\<close>

definition ikcp_shrink_buf :: "ikcpcb \<Rightarrow> ikcpcb" where
  "ikcp_shrink_buf kcp =
     kcp\<lparr>snd_una := (case snd_buf kcp of seg # _ \<Rightarrow> ssn seg | [] \<Rightarrow> snd_nxt kcp)\<rparr>"

text \<open>The search for a segment by number, which stops at the first later one.\<close>

fun remove_sn :: "u32 \<Rightarrow> ikcpseg list \<Rightarrow> (ikcpseg \<times> ikcpseg list) option" where
  "remove_sn sn [] = None"
| "remove_sn sn (seg # segs) =
     (if sn = ssn seg then Some (seg, segs)
      else if itimediff sn (ssn seg) < 0 then None
      else map_option (\<lambda>(x, rest). (x, seg # rest)) (remove_sn sn segs))"

definition ikcp_parse_ack :: "ikcpcb \<Rightarrow> u32 \<Rightarrow> ikcpcb" where
  "ikcp_parse_ack kcp sn =
     (if itimediff sn (snd_una kcp) < 0 \<or> 0 \<le> itimediff sn (snd_nxt kcp) then kcp
      else (case remove_sn sn (snd_buf kcp) of
              None \<Rightarrow> kcp
            | Some (seg, rest) \<Rightarrow>
                ikcp_segment_delete seg (kcp\<lparr>ackedlen := ackedlen kcp + seg_len seg, snd_buf := rest,
                                             nsnd_buf := nsnd_buf kcp - 1\<rparr>)))"

fun una_loop :: "u32 \<Rightarrow> ikcpseg list \<Rightarrow> ikcpcb \<Rightarrow> ikcpcb" where
  "una_loop una [] kcp = kcp\<lparr>snd_buf := []\<rparr>"
| "una_loop una (seg # segs) kcp =
     (if 0 < itimediff una (ssn seg)
      then una_loop una segs (ikcp_segment_delete seg
             (kcp\<lparr>ackedlen := ackedlen kcp + seg_len seg, nsnd_buf := nsnd_buf kcp - 1\<rparr>))
      else kcp\<lparr>snd_buf := seg # segs\<rparr>)"

definition ikcp_parse_una :: "ikcpcb \<Rightarrow> u32 \<Rightarrow> ikcpcb" where
  "ikcp_parse_una kcp una = una_loop una (snd_buf kcp) kcp"

text \<open>The loop of \<open>ikcp_parse_fastack\<close>, with \<open>IKCP_FASTACK_CONSERVE\<close> defined as in the source.\<close>

fun fastack_loop :: "u32 \<Rightarrow> u32 \<Rightarrow> ikcpseg list \<Rightarrow> ikcpseg list" where
  "fastack_loop sn ts [] = []"
| "fastack_loop sn ts (seg # segs) =
     (if itimediff sn (ssn seg) < 0 then seg # segs
      else (if sn \<noteq> ssn seg \<and> 0 \<le> itimediff ts (sts seg) then seg\<lparr>sfastack := sfastack seg + 1\<rparr> else seg)
             # fastack_loop sn ts segs)"

definition ikcp_parse_fastack :: "ikcpcb \<Rightarrow> u32 \<Rightarrow> u32 \<Rightarrow> ikcpcb" where
  "ikcp_parse_fastack kcp sn ts =
     (if itimediff sn (snd_una kcp) < 0 \<or> 0 \<le> itimediff sn (snd_nxt kcp) then kcp
      else kcp\<lparr>snd_buf := fastack_loop sn ts (snd_buf kcp)\<rparr>)"

section \<open>Acknowledgements to send\<close>

text \<open>
  The doubling loop for the size of the block. In the source it runs on 32 bits, and never ends when
  more than 2^31 acknowledgements are asked for.
\<close>

function grow_block :: "nat \<Rightarrow> nat \<Rightarrow> nat" where
  "grow_block newsize newblock =
     (if newblock < newsize \<and> 0 < newblock then grow_block newsize (2 * newblock) else newblock)"
  by pat_completeness auto
termination by (relation "measure (\<lambda>(s, b). s - b)") auto

declare grow_block.simps [simp del]

definition ikcp_ack_push :: "ikcpcb \<Rightarrow> u32 \<Rightarrow> u32 \<Rightarrow> ikcpcb res" where
  "ikcp_ack_push kcp sn ts =
     (let newsize = length (acklist kcp) + 1
      in rbind
           (if unat (ackblock kcp) < newsize then
              if 2147483648 < newsize then Inl Diverges else
              let newblock = grow_block newsize 8;
                  old = acklist_ptr kcp;
                  (ok, kcp) = ikcp_malloc (newblock * 8) kcp
              in if \<not> ok then Inl Assert_Fail
                 else Inr ((ikcp_free old kcp)\<lparr>ackblock := word_of_nat newblock\<rparr>)
            else Inr kcp)
           (\<lambda>kcp. Inr (kcp\<lparr>acklist := acklist kcp @ [(sn, ts)]\<rparr>)))"

definition ikcp_ack_get :: "ikcpcb \<Rightarrow> nat \<Rightarrow> u32 \<times> u32" where
  "ikcp_ack_get kcp p = acklist kcp ! p"

section \<open>Bounds of the round-trip estimate\<close>

lemma int32_ok [simp]: "- 2147483648 \<le> x \<Longrightarrow> x \<le> INT_MAX \<Longrightarrow> int32 x = Inr x"
  by (simp add: int32_def)

lemma sdiv_pos: "0 \<le> a \<Longrightarrow> 0 < b \<Longrightarrow> (a :: int) sdiv b = a div b"
  by (cases "a = 0") (simp_all add: signed_divide_int_def)

lemma ibound_range:
  assumes "lower \<le> upper"
  shows "lower \<le> ibound lower x upper \<and> ibound lower x upper \<le> upper"
  using assms by (auto simp: ibound_def imin_def imax_def)

lemma sint_u32_le:
  fixes a b :: u32
  assumes "a \<le> b" and "b \<le> 60000"
  shows "sint a \<le> sint b \<and> 0 \<le> sint a \<and> sint b \<le> 60000"
proof -
  have "uint a \<le> uint b" "uint b \<le> 60000"
    using assms by (simp_all add: word_le_def)
  then show ?thesis by (simp add: sint_u32)
qed

text \<open>No round-trip time of the estimator can overflow while the samples stay below 2^28 ms.\<close>

abbreviation RTT_LIMIT :: int where "RTT_LIMIT \<equiv> 268435455"

definition rtt_ok :: "ikcpcb \<Rightarrow> bool" where
  "rtt_ok kcp \<longleftrightarrow>
     0 \<le> rx_srtt kcp \<and> rx_srtt kcp \<le> RTT_LIMIT \<and> 0 \<le> rx_rttval kcp \<and> rx_rttval kcp \<le> RTT_LIMIT \<and>
     30 \<le> rx_minrto kcp \<and> rx_minrto kcp \<le> 60000"

lemma update_ack_ok:
  assumes ok: "rtt_ok kcp" and rtt: "0 \<le> rtt" "rtt \<le> RTT_LIMIT"
  obtains srtt rttval rto where "ikcp_update_ack kcp rtt = Inr (kcp\<lparr>rx_srtt := srtt, rx_rttval := rttval, rx_rto := rto\<rparr>)"
    "0 \<le> srtt" "srtt \<le> RTT_LIMIT" "0 \<le> rttval" "rttval \<le> RTT_LIMIT" "rx_minrto kcp \<le> rto" "rto \<le> 60000"
proof -
  let ?rto = "\<lambda>srtt rttval. sint (ibound (word_of_int (rx_minrto kcp))
      (word_of_int (sint (word_of_int srtt + imax (interval kcp) (word_of_int (4 * rttval))))) IKCP_RTO_MAX)"
  have min: "(word_of_int (rx_minrto kcp) :: u32) \<le> 60000" "sint (word_of_int (rx_minrto kcp) :: u32) = rx_minrto kcp"
    using ok by (simp_all add: rtt_ok_def word_le_def sint_u32 take_bit_int_eq_self unsigned_of_int)
  have rto: "rx_minrto kcp \<le> ?rto s v \<and> ?rto s v \<le> 60000" for s v
    using ibound_range [OF min(1)] sint_u32_le min(2) by (metis (no_types, lifting))
  show thesis
  proof (cases "rx_srtt kcp = 0")
    case True
    then show ?thesis
      using rtt rto [of rtt "rtt div 2"]
      by (intro that [of "?rto rtt (rtt div 2)" "rtt div 2" rtt])
         (simp_all add: ikcp_update_ack_def sdiv_pos)
  next
    case False
    let ?d = "rtt - rx_srtt kcp"
    let ?delta = "if ?d < 0 then - ?d else ?d"
    let ?v = "(3 * rx_rttval kcp + ?delta) div 4" and ?s = "(7 * rx_srtt kcp + rtt) div 8"
    let ?s' = "if ?s < 1 then 1 else ?s"
    have b: "0 \<le> rx_srtt kcp" "rx_srtt kcp \<le> RTT_LIMIT" "0 \<le> rx_rttval kcp" "rx_rttval kcp \<le> RTT_LIMIT"
      using ok by (simp_all add: rtt_ok_def)
    have delta: "0 \<le> ?delta" "?delta \<le> RTT_LIMIT" using b rtt by auto
    have v: "0 \<le> ?v" "?v \<le> RTT_LIMIT" using b delta by linarith+
    have s: "0 \<le> ?s" "?s \<le> RTT_LIMIT" using b rtt by linarith+
    have i: "int32 ?d = Inr ?d" "int32 (3 * rx_rttval kcp) = Inr (3 * rx_rttval kcp)"
      "int32 (7 * rx_srtt kcp) = Inr (7 * rx_srtt kcp)"
      "int32 (7 * rx_srtt kcp + rtt) = Inr (7 * rx_srtt kcp + rtt)" "int32 (4 * ?v) = Inr (4 * ?v)"
      using b rtt v by (intro int32_ok; linarith)+
    have q: "(3 * rx_rttval kcp + ?delta) sdiv 4 = ?v" "(7 * rx_srtt kcp + rtt) sdiv 8 = ?s"
      using b rtt delta by (intro sdiv_pos; linarith)+
    have "ikcp_update_ack kcp rtt = Inr (kcp\<lparr>rx_srtt := ?s', rx_rttval := ?v, rx_rto := ?rto ?s' ?v\<rparr>)"
      unfolding ikcp_update_ack_def Let_def
      by (simp only: False if_False i q rbind.simps prod.case)
    then show ?thesis
      using s v rto by (intro that [of "?rto ?s' ?v" ?v ?s']) auto
  qed
qed

section \<open>Properties\<close>

text \<open>
  C35: The retransmission timeout stays within its bounds. For round-trip times of at most 2^28 - 1 ms
  the estimator does not overflow, its smoothed values stay in that range, and the timeout lies
  between \<open>rx_minrto\<close> and \<open>IKCP_RTO_MAX\<close> (60 s).
\<close>

theorem rto_stays_bounded:
  assumes "rtt_ok kcp" and "0 \<le> rtt" and "rtt \<le> RTT_LIMIT"
  shows "\<exists>kcp'. ikcp_update_ack kcp rtt = Inr kcp' \<and> rtt_ok kcp' \<and>
    rx_minrto kcp \<le> rx_rto kcp' \<and> rx_rto kcp' \<le> 60000"
proof -
  obtain srtt rttval rto where u: "ikcp_update_ack kcp rtt = Inr (kcp\<lparr>rx_srtt := srtt, rx_rttval := rttval, rx_rto := rto\<rparr>)"
    "0 \<le> srtt" "srtt \<le> RTT_LIMIT" "0 \<le> rttval" "rttval \<le> RTT_LIMIT" "rx_minrto kcp \<le> rto" "rto \<le> 60000"
    by (rule update_ack_ok [OF assms])
  then have "rtt_ok (kcp\<lparr>rx_srtt := srtt, rx_rttval := rttval, rx_rto := rto\<rparr>)"
    using assms(1) by (simp add: rtt_ok_def)
  then show ?thesis using u by auto
qed

theorem rto_stays_bounded_witness:
  "\<exists>kcp'. ikcp_update_ack (new_kcp 1 good_mem) 50 = Inr kcp' \<and> rtt_ok kcp' \<and>
     rx_minrto (new_kcp 1 good_mem) \<le> rx_rto kcp' \<and> rx_rto kcp' \<le> 60000"
  by (rule rto_stays_bounded) (simp_all add: rtt_ok_def new_kcp_def)

text \<open>
  C40: A forged timestamp overflows the estimator. When the first acknowledgement of a connection
  claims a round-trip time of 2^30 ms or more, the computation of the timeout overflows a signed
  integer, which the C standard leaves undefined.
\<close>

theorem forged_timestamp_overflows:
  assumes "rx_srtt kcp = 0" and "1073741824 \<le> rtt"
  shows "ikcp_update_ack kcp rtt = Inl Int_Overflow"
proof -
  have "2147483648 \<le> 4 * (rtt div 2)" using zdiv_mono1 [OF assms(2), of 2] by simp
  then have "int32 (4 * (rtt sdiv 2)) = Inl Int_Overflow"
    using assms(2) by (simp add: int32_def sdiv_pos)
  then show ?thesis using assms(1) by (simp add: ikcp_update_ack_def)
qed

theorem forged_timestamp_overflows_witness:
  "ikcp_update_ack (new_kcp 1 good_mem) 1073741824 = Inl Int_Overflow"
  by (rule forged_timestamp_overflows) (simp_all add: new_kcp_def)

end
