(* ===== verification/KcpInput.thy ===== *)
theory KcpInput
  imports Prelude KcpBase KcpSend KcpRecv KcpAck
begin

unbundle bit_operations_syntax

text \<open>
  The wire format of KCP segments and what a connection does with a datagram from its peer:
  \<open>ikcp_encode_seg\<close> and \<open>ikcp_input\<close> of \<open>src/third_party/kcp/ikcp.c\<close>. The congestion-control hooks
  \<open>ccops\<close> and the log are NULL, as the gateway and the client leave them.
\<close>

section \<open>Segments on the wire\<close>

definition ikcp_encode_seg :: "bytes \<Rightarrow> ikcpseg \<Rightarrow> bytes" where
  "ikcp_encode_seg ptr seg =
     (let ptr = ikcp_encode32u ptr (sconv seg);
          ptr = ikcp_encode8u ptr (ucast (scmd seg));
          ptr = ikcp_encode8u ptr (ucast (sfrg seg));
          ptr = ikcp_encode16u ptr (ucast (swnd seg));
          ptr = ikcp_encode32u ptr (sts seg);
          ptr = ikcp_encode32u ptr (ssn seg);
          ptr = ikcp_encode32u ptr (suna seg)
      in ikcp_encode32u ptr (seg_len seg))"

text \<open>The header as \<open>ikcp_input\<close> decodes it.\<close>

record header =
  hconv :: u32
  hcmd :: u8
  hfrg :: u8
  hwnd :: u16
  hts :: u32
  hsn :: u32
  huna :: u32
  hlen :: u32

definition decode_header :: "bytes \<Rightarrow> (header \<times> bytes) res" where
  "decode_header p =
     rbind (ikcp_decode32u p) (\<lambda>(cv, p).
     rbind (ikcp_decode8u p) (\<lambda>(cmd, p).
     rbind (ikcp_decode8u p) (\<lambda>(frg, p).
     rbind (ikcp_decode16u p) (\<lambda>(wnd, p).
     rbind (ikcp_decode32u p) (\<lambda>(ts, p).
     rbind (ikcp_decode32u p) (\<lambda>(sn, p).
     rbind (ikcp_decode32u p) (\<lambda>(una, p).
     rbind (ikcp_decode32u p) (\<lambda>(len, p).
       Inr (\<lparr>hconv = cv, hcmd = cmd, hfrg = frg, hwnd = wnd, hts = ts, hsn = sn, huna = una, hlen = len\<rparr>, p)))))))))"

section \<open>Input\<close>

text \<open>
  One segment of a datagram, after its header has been checked. \<open>acks\<close> holds \<open>maxack\<close> and
  \<open>latest_ts\<close> once \<open>flag\<close> is set.
\<close>

definition input_ack :: "ikcpcb \<Rightarrow> (u32 \<times> u32) option \<Rightarrow> u32 \<Rightarrow> u32 \<Rightarrow> (ikcpcb \<times> (u32 \<times> u32) option) res" where
  "input_ack kcp acks sn ts =
     rbind (if 0 \<le> itimediff (current kcp) ts then ikcp_update_ack kcp (itimediff (current kcp) ts) else Inr kcp)
       (\<lambda>kcp. Inr (ikcp_shrink_buf (ikcp_parse_ack kcp sn),
          case acks of
            None \<Rightarrow> Some (sn, ts)
          | Some (maxack, latest_ts) \<Rightarrow>
              if 0 < itimediff sn maxack \<and> 0 < itimediff ts latest_ts then Some (sn, ts) else acks))"

definition push_seg :: "header \<Rightarrow> bytes \<Rightarrow> ikcpseg" where
  "push_seg h data =
     fresh_seg\<lparr>sconv := hconv h, scmd := ucast (hcmd h), sfrg := ucast (hfrg h), swnd := ucast (hwnd h),
               sts := hts h, ssn := hsn h, suna := huna h, sdata := data\<rparr>"

definition input_push :: "ikcpcb \<Rightarrow> header \<Rightarrow> bytes \<Rightarrow> ikcpcb res" where
  "input_push kcp h data =
     (if itimediff (hsn h) (rcv_nxt kcp + rcv_wnd kcp) < 0 then
        rbind (ikcp_ack_push kcp (hsn h) (hts h)) (\<lambda>kcp.
          if 0 \<le> itimediff (hsn h) (rcv_nxt kcp) then
            let (ok, kcp) = ikcp_segment_new (unat (hlen h)) kcp
            in if \<not> ok then Inl Null_Deref else Inr (ikcp_parse_data kcp (push_seg h data))
          else Inr kcp)
      else Inr kcp)"

definition input_seg :: "ikcpcb \<Rightarrow> (u32 \<times> u32) option \<Rightarrow> header \<Rightarrow> bytes \<Rightarrow> (ikcpcb \<times> (u32 \<times> u32) option) res" where
  "input_seg kcp acks h data =
     (let kcp = ikcp_shrink_buf (ikcp_parse_una (kcp\<lparr>rmt_wnd := ucast (hwnd h)\<rparr>) (huna h));
          cmd = ucast (hcmd h)
      in if cmd = IKCP_CMD_ACK then input_ack kcp acks (hsn h) (hts h)
         else if cmd = IKCP_CMD_PUSH then rbind (input_push kcp h data) (\<lambda>kcp. Inr (kcp, acks))
         else if cmd = IKCP_CMD_WASK then Inr (kcp\<lparr>probe := probe kcp OR IKCP_ASK_TELL\<rparr>, acks)
         else Inr (kcp, acks))"

definition known_cmd :: "u8 \<Rightarrow> bool" where
  "known_cmd cmd \<longleftrightarrow> ucast cmd \<in> {IKCP_CMD_PUSH, IKCP_CMD_ACK, IKCP_CMD_WASK, IKCP_CMD_WINS}"

lemma decode8_length: "ikcp_decode8u p = Inr (c, q) \<Longrightarrow> length p = length q + 1"
  by (cases p rule: ikcp_decode8u.cases) auto

lemma decode16_length: "ikcp_decode16u p = Inr (w, q) \<Longrightarrow> length p = length q + 2"
  by (cases p rule: ikcp_decode16u.cases) auto

lemma decode32_length: "ikcp_decode32u p = Inr (l, q) \<Longrightarrow> length p = length q + 4"
  by (cases p rule: ikcp_decode32u.cases) auto

lemma decode_header_length: "decode_header p = Inr (h, q) \<Longrightarrow> length p = length q + 24"
  by (auto simp: decode_header_def res_simps dest!: decode8_length decode16_length decode32_length)

function input_loop ::
    "bytes \<Rightarrow> ikcpcb \<Rightarrow> (u32 \<times> u32) option \<Rightarrow> (int \<times> ikcpcb \<times> (u32 \<times> u32) option) res" where
  "input_loop data kcp acks =
     (if length data < 24 then Inr (0, kcp, acks)
      else case decode_header data of
        Inl e \<Rightarrow> Inl e
      | Inr (h, data) \<Rightarrow>
          if hconv h \<noteq> conv kcp then Inr (- 1, kcp, acks)
          else if length data < unat (hlen h) \<or> sint (hlen h) < 0 then Inr (- 2, kcp, acks)
          else if \<not> known_cmd (hcmd h) then Inr (- 3, kcp, acks)
          else case input_seg kcp acks h (take (unat (hlen h)) data) of
                 Inl e \<Rightarrow> Inl e
               | Inr (kcp, acks) \<Rightarrow> input_loop (drop (unat (hlen h)) data) kcp acks)"
  by pat_completeness auto
termination by (relation "measure (\<lambda>(data, _, _). length data)") (auto dest!: decode_header_length)

declare input_loop.simps [simp del]

text \<open>The growth of the congestion window when the send window has moved.\<close>

definition grow_cwnd :: "ikcpcb \<Rightarrow> ikcpcb res" where
  "grow_cwnd kcp =
     (if cwnd kcp < rmt_wnd kcp then
        rbind
          (if cwnd kcp < ssthresh kcp then Inr (kcp\<lparr>cwnd := cwnd kcp + 1, incr := incr kcp + mss kcp\<rparr>)
           else
             let m = mss kcp;
                 inc = (if incr kcp < m then m else incr kcp)
             in if inc = 0 then Inl Div_By_Zero
                else let inc = inc + m * m div inc + m div 16
                     in Inr (if (cwnd kcp + 1) * m \<le> inc
                             then kcp\<lparr>incr := inc, cwnd := (inc + m - 1) div (if 0 < m then m else 1)\<rparr>
                             else kcp\<lparr>incr := inc\<rparr>))
          (\<lambda>kcp. Inr (if rmt_wnd kcp < cwnd kcp
                      then kcp\<lparr>cwnd := rmt_wnd kcp, incr := rmt_wnd kcp * mss kcp\<rparr> else kcp))
      else Inr kcp)"

definition ikcp_input :: "ikcpcb \<Rightarrow> bytes \<Rightarrow> (int \<times> ikcpcb) res" where
  "ikcp_input kcp data =
     (let prev_una = snd_una kcp;
          kcp = kcp\<lparr>ackedlen := 0\<rparr>
      in if sint (word_of_nat (length data) :: u32) < 24 then Inr (- 1, kcp)
         else rbind (input_loop data kcp None) (\<lambda>(r, kcp, acks).
           if r \<noteq> 0 then Inr (r, kcp)
           else
             let kcp = (case acks of None \<Rightarrow> kcp | Some (maxack, latest_ts) \<Rightarrow> ikcp_parse_fastack kcp maxack latest_ts)
             in rbind (if 0 < itimediff (snd_una kcp) prev_una then grow_cwnd kcp else Inr kcp)
                  (\<lambda>kcp. Inr (0, kcp))))"

end
