(* ===== verification/KcpFlush.thy ===== *)
theory KcpFlush
  imports Prelude KcpBase KcpSend KcpRecv KcpAck KcpInput
begin

unbundle bit_operations_syntax

text \<open>
  What a KCP connection sends: \<open>ikcp_flush\<close>, \<open>ikcp_update\<close> and \<open>ikcp_check\<close> of
  \<open>src/third_party/kcp/ikcp.c\<close>. The datagrams handed to the output callback are the list \<open>fl_sent\<close>;
  the callback's result is not used by the source.
\<close>

section \<open>Datagrams under construction\<close>

record flush =
  fl_kcp :: ikcpcb
  fl_sent :: "bytes list"
  fl_buf :: bytes
  fl_change :: nat
  fl_lost :: bool

definition ikcp_output :: "flush \<Rightarrow> flush res" where
  "ikcp_output f =
     (if \<not> has_output (fl_kcp f) then Inl Assert_Fail
      else if fl_buf f = [] then Inr f
      else Inr (f\<lparr>fl_sent := fl_sent f @ [fl_buf f]\<rparr>))"

text \<open>
  Appending a segment to the buffer, after sending what is in it when the segment does not fit. The
  buffer has room for three times \<open>mtu + IKCP_OVERHEAD\<close> bytes.
\<close>

definition emit :: "ikcpseg \<Rightarrow> flush \<Rightarrow> flush res" where
  "emit seg f =
     rbind (if sint (mtu (fl_kcp f)) < int (length (fl_buf f)) + (24 + int (length (sdata seg)))
            then rbind (ikcp_output f) (\<lambda>f. Inr (f\<lparr>fl_buf := []\<rparr>)) else Inr f)
       (\<lambda>f. let buf = ikcp_encode_seg (fl_buf f) seg @ sdata seg
            in if unat ((mtu (fl_kcp f) + IKCP_OVERHEAD) * 3) < length buf then Inl Out_Of_Bounds
               else Inr (f\<lparr>fl_buf := buf\<rparr>))"

section \<open>Acknowledgements and window probes\<close>

definition ikcp_wnd_unused :: "ikcpcb \<Rightarrow> u32" where
  "ikcp_wnd_unused kcp = (if nrcv_que kcp < rcv_wnd kcp then rcv_wnd kcp - nrcv_que kcp else 0)"

definition ctl_seg :: "ikcpcb \<Rightarrow> ikcpseg" where
  "ctl_seg kcp =
     fresh_seg\<lparr>sconv := conv kcp, scmd := IKCP_CMD_ACK, sfrg := 0, swnd := ikcp_wnd_unused kcp,
               suna := rcv_nxt kcp, ssn := 0, sts := 0, sdata := []\<rparr>"

fun flush_acks :: "(u32 \<times> u32) list \<Rightarrow> ikcpseg \<Rightarrow> flush \<Rightarrow> (ikcpseg \<times> flush) res" where
  "flush_acks [] seg f = Inr (seg, f)"
| "flush_acks ((sn, ts) # acks) seg f =
     (let seg = seg\<lparr>ssn := sn, sts := ts\<rparr>
      in rbind (emit seg f) (\<lambda>f. flush_acks acks seg f))"

definition probe_window :: "ikcpcb \<Rightarrow> ikcpcb" where
  "probe_window kcp =
     (if rmt_wnd kcp = 0 then
        if probe_wait kcp = 0
        then kcp\<lparr>probe_wait := IKCP_PROBE_INIT, ts_probe := current kcp + IKCP_PROBE_INIT\<rparr>
        else if 0 \<le> itimediff (current kcp) (ts_probe kcp) then
          let w = (if probe_wait kcp < IKCP_PROBE_INIT then IKCP_PROBE_INIT else probe_wait kcp);
              w = w + w div 2;
              w = (if IKCP_PROBE_LIMIT < w then IKCP_PROBE_LIMIT else w)
          in kcp\<lparr>probe_wait := w, ts_probe := current kcp + w, probe := probe kcp OR IKCP_ASK_SEND\<rparr>
        else kcp
      else kcp\<lparr>ts_probe := 0, probe_wait := 0\<rparr>)"

text \<open>The two window commands, which keep the \<open>sn\<close> and \<open>ts\<close> of the last acknowledgement.\<close>

definition flush_probes :: "ikcpseg \<Rightarrow> flush \<Rightarrow> flush res" where
  "flush_probes seg f =
     rbind (if probe (fl_kcp f) AND IKCP_ASK_SEND \<noteq> 0 then emit (seg\<lparr>scmd := IKCP_CMD_WASK\<rparr>) f else Inr f) (\<lambda>f.
     rbind (if probe (fl_kcp f) AND IKCP_ASK_TELL \<noteq> 0 then emit (seg\<lparr>scmd := IKCP_CMD_WINS\<rparr>) f else Inr f) (\<lambda>f.
       Inr (f\<lparr>fl_kcp := (fl_kcp f)\<lparr>probe := 0\<rparr>\<rparr>)))"

section \<open>Data\<close>

definition send_window :: "ikcpcb \<Rightarrow> u32" where
  "send_window kcp =
     (let w = imin (snd_wnd kcp) (rmt_wnd kcp) in if nocwnd kcp = 0 then imin (cwnd kcp) w else w)"

text \<open>The loop that moves segments from \<open>snd_queue\<close> to \<open>snd_buf\<close> while the window is open.\<close>

fun move_snd :: "u32 \<Rightarrow> u32 \<Rightarrow> ikcpseg list \<Rightarrow> ikcpcb \<Rightarrow> ikcpcb" where
  "move_snd cw wnd [] kcp = kcp\<lparr>snd_queue := []\<rparr>"
| "move_snd cw wnd (seg # segs) kcp =
     (if itimediff (snd_nxt kcp) (snd_una kcp + cw) < 0 then
        let newseg = seg\<lparr>sconv := conv kcp, scmd := IKCP_CMD_PUSH, swnd := wnd, sts := current kcp,
                         ssn := snd_nxt kcp, suna := rcv_nxt kcp, sresendts := current kcp,
                         srto := word_of_int (rx_rto kcp), sfastack := 0, sxmit := 0\<rparr>
        in move_snd cw wnd segs (kcp\<lparr>snd_buf := snd_buf kcp @ [newseg], nsnd_que := nsnd_que kcp - 1,
                                     nsnd_buf := nsnd_buf kcp + 1, snd_nxt := snd_nxt kcp + 1\<rparr>)
      else kcp\<lparr>snd_queue := seg # segs\<rparr>)"

text \<open>Why a segment of the send buffer is sent now.\<close>

datatype send_reason = Not_Due | First_Send | Timed_Out | Fast_Resend

definition send_reason :: "ikcpcb \<Rightarrow> u32 \<Rightarrow> ikcpseg \<Rightarrow> send_reason" where
  "send_reason kcp resent seg =
     (if sxmit seg = 0 then First_Send
      else if 0 \<le> itimediff (current kcp) (sresendts seg) then Timed_Out
      else if resent \<le> sfastack seg \<and> (sint (sxmit seg) \<le> fastlimit kcp \<or> fastlimit kcp \<le> 0) then Fast_Resend
      else Not_Due)"

definition retime :: "ikcpcb \<Rightarrow> u32 \<Rightarrow> send_reason \<Rightarrow> ikcpseg \<Rightarrow> ikcpseg" where
  "retime kcp rtomin why seg =
     (case why of
        Not_Due \<Rightarrow> seg
      | First_Send \<Rightarrow>
          let rto = word_of_int (rx_rto kcp)
          in seg\<lparr>sxmit := sxmit seg + 1, srto := rto, sresendts := current kcp + rto + rtomin\<rparr>
      | Timed_Out \<Rightarrow>
          let rto = (if nodelay kcp = 0 then srto seg + imax (srto seg) (word_of_int (rx_rto kcp))
                     else srto seg + word_of_int ((if nodelay kcp < 2 then sint (srto seg) else rx_rto kcp) sdiv 2))
          in seg\<lparr>sxmit := sxmit seg + 1, srto := rto, sresendts := current kcp + rto\<rparr>
      | Fast_Resend \<Rightarrow>
          seg\<lparr>sxmit := sxmit seg + 1, sfastack := 0, sresendts := current kcp + srto seg\<rparr>)"

definition count_reason :: "send_reason \<Rightarrow> flush \<Rightarrow> flush" where
  "count_reason why f =
     (case why of
        Timed_Out \<Rightarrow> f\<lparr>fl_lost := True, fl_kcp := (fl_kcp f)\<lparr>xmit := xmit (fl_kcp f) + 1\<rparr>\<rparr>
      | Fast_Resend \<Rightarrow> f\<lparr>fl_change := fl_change f + 1\<rparr>
      | _ \<Rightarrow> f)"

fun flush_segs :: "u32 \<Rightarrow> u32 \<Rightarrow> u32 \<Rightarrow> ikcpseg list \<Rightarrow> flush \<Rightarrow> (ikcpseg list \<times> flush) res" where
  "flush_segs resent rtomin wnd [] f = Inr ([], f)"
| "flush_segs resent rtomin wnd (seg # segs) f =
     (let kcp = fl_kcp f;
          why = send_reason kcp resent seg;
          seg = retime kcp rtomin why seg;
          f = count_reason why f
      in rbind
           (if why = Not_Due then Inr (seg, f)
            else
              let seg = seg\<lparr>sts := current kcp, swnd := wnd, suna := rcv_nxt kcp\<rparr>
              in rbind (emit seg f) (\<lambda>f.
                   Inr (seg, if dead_link kcp \<le> sxmit seg
                             then f\<lparr>fl_kcp := (fl_kcp f)\<lparr>kstate := - 1\<rparr>\<rparr> else f)))
           (\<lambda>(seg, f). rbind (flush_segs resent rtomin wnd segs f) (\<lambda>(segs, f). Inr (seg # segs, f))))"

text \<open>The congestion window after the segments have been looked at.\<close>

definition adjust_cwnd :: "u32 \<Rightarrow> u32 \<Rightarrow> nat \<Rightarrow> bool \<Rightarrow> ikcpcb \<Rightarrow> ikcpcb" where
  "adjust_cwnd prior_cwnd resent change lost kcp =
     (let kcp = (if change \<noteq> 0 then
                   let s = (snd_nxt kcp - snd_una kcp) div 2;
                       s = (if s < IKCP_THRESH_MIN then IKCP_THRESH_MIN else s)
                   in kcp\<lparr>ssthresh := s, cwnd := s + resent, incr := (s + resent) * mss kcp\<rparr>
                 else kcp);
          kcp = (if lost then
                   let s = prior_cwnd div 2
                   in kcp\<lparr>ssthresh := (if s < IKCP_THRESH_MIN then IKCP_THRESH_MIN else s),
                          cwnd := 1, incr := mss kcp\<rparr>
                 else kcp)
      in if cwnd kcp < 1 then kcp\<lparr>cwnd := 1, incr := mss kcp\<rparr> else kcp)"

definition flush_start :: "ikcpcb \<Rightarrow> flush" where
  "flush_start kcp = \<lparr>fl_kcp = kcp, fl_sent = [], fl_buf = [], fl_change = 0, fl_lost = False\<rparr>"

definition ikcp_flush :: "ikcpcb \<Rightarrow> (bytes list \<times> ikcpcb) res" where
  "ikcp_flush kcp =
     (if updated kcp = 0 then Inr ([], kcp)
      else
        let seg = ctl_seg kcp
        in rbind (flush_acks (acklist kcp) seg (flush_start kcp)) (\<lambda>(seg, f).
           rbind (flush_probes seg (f\<lparr>fl_kcp := probe_window ((fl_kcp f)\<lparr>acklist := []\<rparr>)\<rparr>)) (\<lambda>f.
             let k = move_snd (send_window (fl_kcp f)) (swnd seg) (snd_queue (fl_kcp f)) (fl_kcp f);
                 resent = (if 0 < fastresend k then word_of_int (fastresend k) else 4294967295);
                 rtomin = (if nodelay k = 0 then word_of_int (rx_rto k div 8) else 0)
             in rbind (flush_segs resent rtomin (swnd seg) (snd_buf k) (f\<lparr>fl_kcp := k\<rparr>)) (\<lambda>(segs, f).
                rbind (if fl_buf f = [] then Inr f else ikcp_output f) (\<lambda>f.
                  Inr (fl_sent f, adjust_cwnd (cwnd kcp) resent (fl_change f) (fl_lost f)
                                    ((fl_kcp f)\<lparr>snd_buf := segs\<rparr>)))))))"

section \<open>The clock\<close>

definition ikcp_update :: "ikcpcb \<Rightarrow> u32 \<Rightarrow> (bytes list \<times> ikcpcb) res" where
  "ikcp_update kcp now =
     (let kcp = kcp\<lparr>current := now\<rparr>;
          kcp = (if updated kcp = 0 then kcp\<lparr>updated := 1, ts_flush := now\<rparr> else kcp);
          slap = itimediff now (ts_flush kcp);
          (slap, kcp) = (if 10000 \<le> slap \<or> slap < - 10000 then (0, kcp\<lparr>ts_flush := now\<rparr>) else (slap, kcp))
      in if 0 \<le> slap then
           let kcp = kcp\<lparr>ts_flush := ts_flush kcp + interval kcp\<rparr>;
               kcp = (if 0 \<le> itimediff now (ts_flush kcp) then kcp\<lparr>ts_flush := now + interval kcp\<rparr> else kcp)
           in ikcp_flush kcp
         else Inr ([], kcp))"

text \<open>The nearest retransmission, or \<^term>\<open>None\<close> when one is due.\<close>

fun nearest :: "u32 \<Rightarrow> ikcpseg list \<Rightarrow> int \<Rightarrow> int option" where
  "nearest now [] tm_packet = Some tm_packet"
| "nearest now (seg # segs) tm_packet =
     (let diff = itimediff (sresendts seg) now
      in if diff \<le> 0 then None else nearest now segs (if diff < tm_packet then diff else tm_packet))"

definition ikcp_check :: "ikcpcb \<Rightarrow> u32 \<Rightarrow> u32" where
  "ikcp_check kcp now =
     (if updated kcp = 0 then now
      else
        let ts = (if 10000 \<le> itimediff now (ts_flush kcp) \<or> itimediff now (ts_flush kcp) < - 10000
                  then now else ts_flush kcp)
        in if 0 \<le> itimediff now ts then now
           else
             let tm_flush = itimediff ts now
             in case nearest now (snd_buf kcp) INT_MAX of
                  None \<Rightarrow> now
                | Some tm_packet \<Rightarrow>
                    let minimal = word_of_int (if tm_packet < tm_flush then tm_packet else tm_flush)
                    in now + (if interval kcp \<le> minimal then interval kcp else minimal))"

end
