(* ===== verification/KcpSafe.thy ===== *)
theory KcpSafe
  imports Prelude KcpBase KcpSend KcpRecv KcpAck KcpInput KcpFlush
begin

unbundle bit_operations_syntax

text \<open>
  What the users of a KCP connection rely on: while memory lasts no operation faults, whatever the peer
  sends, except by the signed overflow that a forged timestamp causes in the round-trip estimate; every
  block that an operation allocates is accounted for by the queues and the list of acknowledgements,
  and \<open>ikcp_release\<close> frees exactly those; and no datagram is longer than the \<open>mtu\<close>.
\<close>

section \<open>Connections in order\<close>

definition fits :: "ikcpcb \<Rightarrow> bool" where
  "fits k \<longleftrightarrow> (\<forall>seg \<in> set (snd_queue k @ snd_buf k). length (sdata seg) \<le> unat (mss k))"

definition kcp_shape :: "ikcpcb \<Rightarrow> bool" where
  "kcp_shape k \<longleftrightarrow>
     has_output k \<and> stream k = 0 \<and>
     24 < unat (mtu k) \<and> unat (mtu k) \<le> 65535 \<and> mss k = mtu k - IKCP_OVERHEAD \<and> fits k"

definition kcp_ok :: "ikcpcb \<Rightarrow> bool" where
  "kcp_ok k \<longleftrightarrow> kcp_shape k \<and> mem_good (kcp_mem k)"

text \<open>The blocks that a connection owns: itself, the output buffer, its segments, the list of acknowledgements.\<close>

definition kcp_blocks :: "ikcpcb \<Rightarrow> nat" where
  "kcp_blocks k =
     2 + length (snd_queue k) + length (snd_buf k) + length (rcv_queue k) + length (rcv_buf k) +
     (if ackblock k = 0 then 0 else 1)"

definition owed :: "ikcpcb \<Rightarrow> int" where
  "owed k = mem_live (kcp_mem k) - int (kcp_blocks k)"

definition keeps :: "ikcpcb \<Rightarrow> ikcpcb \<Rightarrow> bool" where
  "keeps k k' \<longleftrightarrow> kcp_ok k' \<and> owed k' = owed k \<and> conv k' = conv k \<and> mtu k' = mtu k"

lemma keeps_trans: "keeps a b \<Longrightarrow> keeps b c \<Longrightarrow> keeps a c"
  by (simp add: keeps_def)

lemma keeps_refl: "kcp_ok k \<Longrightarrow> keeps k k"
  by (simp add: keeps_def)

lemma keeps_ok: "keeps k k' \<Longrightarrow> kcp_ok k'"
  by (simp add: keeps_def)

text \<open>An operation that leaves these fields alone keeps the connection in order.\<close>

lemma keeps_frame:
  assumes "kcp_ok k" and "has_output k' = has_output k" "stream k' = stream k" "mtu k' = mtu k" "mss k' = mss k" "conv k' = conv k"
    and "mem_good (kcp_mem k') = mem_good (kcp_mem k)" "fits k \<Longrightarrow> fits k'" "owed k' = owed k"
  shows "keeps k k'"
  using assms by (simp add: keeps_def kcp_ok_def kcp_shape_def)

lemma mss_bound: "kcp_ok k \<Longrightarrow> unat (mss k) + 24 = unat (mtu k)"
  by (simp add: kcp_ok_def kcp_shape_def unat_sub word_le_nat_alt)

lemma new_kcp_ok:
  assumes "mem_good h"
  shows "kcp_ok (snd (ikcp_nodelay (ikcp_setoutput (new_kcp cv h)) a b c d))"
    and "owed (snd (ikcp_nodelay (ikcp_setoutput (new_kcp cv h)) a b c d)) = mem_live h - 2"
    and "conv (snd (ikcp_nodelay (ikcp_setoutput (new_kcp cv h)) a b c d)) = cv"
  using assms
  by (simp_all add: kcp_ok_def kcp_shape_def fits_def owed_def kcp_blocks_def new_kcp_def ikcp_nodelay_def ikcp_setoutput_def Let_def)

text \<open>Giving the connection the current state of the allocator.\<close>

lemma kcp_shape_mem [simp]: "kcp_shape (k\<lparr>kcp_mem := h\<rparr>) = kcp_shape k"
  by (simp add: kcp_shape_def fits_def)

section \<open>Sending and receiving\<close>

lemma send_keeps:
  assumes ok: "kcp_ok k" and len: "length msg < 2 ^ 30"
  shows "\<exists>r k'. ikcp_send k msg (int (length msg)) = Inr (r, k') \<and> keeps k k'"
proof -
  let ?M = "unat (mss k)"
  have M: "mss k = word_of_nat ?M" "0 < ?M" "?M < 2 ^ 30"
    using ok mss_bound [OF ok] by (simp_all add: kcp_ok_def kcp_shape_def)
  have st: "stream k = 0" "mem_good (kcp_mem k)" using ok by (simp_all add: kcp_ok_def kcp_shape_def)
  note s = send_good [OF M len st]
  have "keeps k (enqueue (countdown (chunks ?M msg)) k)"
  proof (rule keeps_frame [OF ok])
    let ?segs = "map queued (countdown (chunks ?M msg))"
    have "map sdata ?segs = chunks ?M msg" by (simp add: comp_def)
    then have "\<forall>seg \<in> set ?segs. length (sdata seg) \<le> ?M"
      using chunks_bound [OF M(2)] by (metis image_eqI list.set_map)
    then show "fits (enqueue (countdown (chunks ?M msg)) k)" if "fits k"
      using that by (auto simp: fits_def enqueue_def)
  qed (simp_all add: enqueue_def owed_def kcp_blocks_def)
  then show ?thesis using s keeps_refl [OF ok] by auto
qed

lemma move_ready_total:
  "length (rcv_queue (move_ready buf k)) + length (rcv_buf (move_ready buf k)) = length (rcv_queue k) + length buf"
  by (induction buf k rule: move_ready.induct) auto

lemma keeps_move_ready: "kcp_ok k \<Longrightarrow> keeps k (move_ready (rcv_buf k) k)"
  by (rule keeps_frame) (use move_ready_total [of "rcv_buf k" k] in \<open>simp_all add: fits_def owed_def kcp_blocks_def\<close>)

lemma keeps_probe: "kcp_ok k \<Longrightarrow> keeps k (k\<lparr>probe := p\<rparr>)"
  by (rule keeps_frame) (simp_all add: fits_def owed_def kcp_blocks_def)

lemma split_message_append: "split_message segs = (msg, rest) \<Longrightarrow> segs = msg @ rest"
  by (induction segs arbitrary: msg rest) (auto split: if_splits prod.splits)

lemma peeksize_split:
  assumes "rcv_queue k \<noteq> []" and "0 \<le> ikcp_peeksize k"
  shows "ikcp_peeksize k = data_len (fst (split_message (rcv_queue k)))"
  using assms by (cases "rcv_queue k") (auto simp: ikcp_peeksize_def split: if_splits)

lemma recv_keeps:
  assumes ok: "kcp_ok k" and len: "0 \<le> len"
  shows "\<exists>r d k'. ikcp_recv k len = Inr (r, d, k') \<and> keeps k k' \<and>
    (0 < r \<longrightarrow> r = int (length d) \<and> r \<le> len \<and>
       length (rcv_queue k') + length (rcv_buf k') < length (rcv_queue k) + length (rcv_buf k)) \<and>
    (r \<le> 0 \<longrightarrow> r < 0 \<and> k' = k \<or> r = 0)"
proof (cases "rcv_queue k = [] \<or> ikcp_peeksize k < 0 \<or> len < ikcp_peeksize k")
  case True
  then show ?thesis
    using keeps_refl [OF ok] len by (auto simp: ikcp_recv_def)
next
  case False
  obtain msg rest where split: "split_message (rcv_queue k) = (msg, rest)" by force
  then have peek: "ikcp_peeksize k = data_len msg" using peeksize_split False by fastforce
  have app: "rcv_queue k = msg @ rest" using split_message_append [OF split] .
  have msg: "msg \<noteq> []" using False split
    by (cases "rcv_queue k") (auto split: if_splits prod.splits)
  obtain m where m: "free_segments msg k = k\<lparr>kcp_mem := m\<rparr>" "mem_live m = mem_live (kcp_mem k) - int (length msg)"
      "mem_good m = mem_good (kcp_mem k)"
    using free_segments_form by blast
  let ?k1 = "(free_segments msg k)\<lparr>rcv_queue := rest, nrcv_que := nrcv_que k - word_of_nat (length msg)\<rparr>"
  let ?k2 = "move_ready (rcv_buf ?k1) ?k1"
  let ?k3 = "if nrcv_que ?k2 < rcv_wnd ?k2 \<and> rcv_wnd k \<le> nrcv_que k then ?k2\<lparr>probe := probe ?k2 OR IKCP_ASK_TELL\<rparr> else ?k2"
  have k1: "keeps k ?k1"
    by (rule keeps_frame [OF ok]) (use m app in \<open>simp_all add: fits_def owed_def kcp_blocks_def\<close>)
  have k2: "keeps k ?k2" using keeps_trans [OF k1 keeps_move_ready [OF keeps_ok [OF k1]]] .
  have k3: "keeps k ?k3" using keeps_trans [OF k2 keeps_probe [OF keeps_ok [OF k2]]] k2 by simp
  have r: "ikcp_recv k len = Inr (data_len msg, concat (map sdata msg), ?k3)"
    using False len peek split by (simp add: ikcp_recv_def Let_def)
  have "length (rcv_queue ?k3) + length (rcv_buf ?k3) = length rest + length (rcv_buf k)"
    using move_ready_total [of "rcv_buf ?k1" ?k1] m by simp
  then have "length (rcv_queue ?k3) + length (rcv_buf ?k3) < length (rcv_queue k) + length (rcv_buf k)"
    using app msg by simp
  moreover have "data_len msg \<le> len" "data_len msg = int (length (concat (map sdata msg)))"
    using False peek by (simp_all add: data_len_def)
  moreover have "0 \<le> data_len msg" by (simp add: data_len_def)
  ultimately show ?thesis using r k3 by fastforce
qed

section \<open>Input\<close>

lemma segment_delete_form:
  "ikcp_segment_delete seg k = k\<lparr>kcp_mem := (kcp_mem k)\<lparr>mem_live := mem_live (kcp_mem k) - 1\<rparr>\<rparr>"
  by (simp add: ikcp_segment_delete_def ikcp_free_def kvstore_free_def)

lemma una_loop_form:
  "una_loop una segs k =
     k\<lparr>snd_buf := dropWhile (\<lambda>s. 0 < itimediff una (ssn s)) segs,
       nsnd_buf := nsnd_buf k - word_of_nat (length (takeWhile (\<lambda>s. 0 < itimediff una (ssn s)) segs)),
       ackedlen := ackedlen k + sum_list (map seg_len (takeWhile (\<lambda>s. 0 < itimediff una (ssn s)) segs)),
       kcp_mem := (kcp_mem k)\<lparr>mem_live := mem_live (kcp_mem k) - int (length (takeWhile (\<lambda>s. 0 < itimediff una (ssn s)) segs))\<rparr>\<rparr>"
  by (induction una segs k rule: una_loop.induct) (simp_all add: segment_delete_form algebra_simps)

lemma parse_una_form:
  "ikcp_parse_una k una =
     k\<lparr>snd_buf := dropWhile (\<lambda>s. 0 < itimediff una (ssn s)) (snd_buf k),
       nsnd_buf := nsnd_buf k - word_of_nat (length (takeWhile (\<lambda>s. 0 < itimediff una (ssn s)) (snd_buf k))),
       ackedlen := ackedlen k + sum_list (map seg_len (takeWhile (\<lambda>s. 0 < itimediff una (ssn s)) (snd_buf k))),
       kcp_mem := (kcp_mem k)\<lparr>mem_live := mem_live (kcp_mem k) - int (length (takeWhile (\<lambda>s. 0 < itimediff una (ssn s)) (snd_buf k)))\<rparr>\<rparr>"
  unfolding ikcp_parse_una_def by (rule una_loop_form)

lemma take_drop_length: "length (takeWhile P xs) + length (dropWhile P xs) = length xs"
  by (metis length_append takeWhile_dropWhile_id)

lemma keeps_parse_una: "kcp_ok k \<Longrightarrow> keeps k (ikcp_parse_una k una)"
  unfolding parse_una_form
  by (rule keeps_frame)
     (use take_drop_length [of "\<lambda>s. 0 < itimediff una (ssn s)" "snd_buf k"] in
       \<open>auto simp: fits_def owed_def kcp_blocks_def dest: set_dropWhileD\<close>)

lemma keeps_shrink: "kcp_ok k \<Longrightarrow> keeps k (ikcp_shrink_buf k)"
  by (rule keeps_frame) (simp_all add: ikcp_shrink_buf_def fits_def owed_def kcp_blocks_def)

lemma remove_sn_Some: "remove_sn sn segs = Some (seg, rest) \<Longrightarrow> length segs = Suc (length rest) \<and> set rest \<subseteq> set segs"
  by (induction sn segs arbitrary: rest rule: remove_sn.induct) (auto split: if_splits option.splits)

lemma keeps_parse_ack: "kcp_ok k \<Longrightarrow> keeps k (ikcp_parse_ack k sn)"
proof (cases "itimediff sn (snd_una k) < 0 \<or> 0 \<le> itimediff sn (snd_nxt k) \<or> remove_sn sn (snd_buf k) = None")
  case True
  assume "kcp_ok k"
  then show ?thesis using True keeps_refl by (auto simp: ikcp_parse_ack_def)
next
  case False
  assume ok: "kcp_ok k"
  obtain seg rest where r: "remove_sn sn (snd_buf k) = Some (seg, rest)" using False by auto
  have "ikcp_parse_ack k sn = k\<lparr>ackedlen := ackedlen k + seg_len seg, snd_buf := rest, nsnd_buf := nsnd_buf k - 1,
      kcp_mem := (kcp_mem k)\<lparr>mem_live := mem_live (kcp_mem k) - 1\<rparr>\<rparr>"
    using False r by (simp add: ikcp_parse_ack_def segment_delete_form)
  then show ?thesis
    by (simp only:) (rule keeps_frame [OF ok], use remove_sn_Some [OF r] in \<open>auto simp: fits_def owed_def kcp_blocks_def\<close>)
qed

lemma fastack_data: "map sdata (fastack_loop sn ts segs) = map sdata segs"
  by (induction sn ts segs rule: fastack_loop.induct) auto

lemma same_data_fits:
  assumes "map sdata segs' = map sdata segs" and "\<forall>seg \<in> set segs. length (sdata seg) \<le> n"
  shows "\<forall>seg \<in> set segs'. length (sdata seg) \<le> n"
proof
  fix seg assume "seg \<in> set segs'"
  then have "sdata seg \<in> set (map sdata segs')" by simp
  then show "length (sdata seg) \<le> n" unfolding assms(1) using assms(2) by auto
qed

lemma keeps_parse_fastack: "kcp_ok k \<Longrightarrow> keeps k (ikcp_parse_fastack k sn ts)"
proof (cases "itimediff sn (snd_una k) < 0 \<or> 0 \<le> itimediff sn (snd_nxt k)")
  case True
  assume "kcp_ok k"
  then show ?thesis using True keeps_refl by (auto simp: ikcp_parse_fastack_def)
next
  case False
  assume ok: "kcp_ok k"
  have f: "ikcp_parse_fastack k sn ts = k\<lparr>snd_buf := fastack_loop sn ts (snd_buf k)\<rparr>"
    using False by (simp add: ikcp_parse_fastack_def)
  show ?thesis unfolding f
  proof (rule keeps_frame [OF ok])
    show "fits (k\<lparr>snd_buf := fastack_loop sn ts (snd_buf k)\<rparr>)" if "fits k"
      using that same_data_fits [OF fastack_data [of sn ts "snd_buf k"]] by (auto simp: fits_def)
    show "owed (k\<lparr>snd_buf := fastack_loop sn ts (snd_buf k)\<rparr>) = owed k"
      using arg_cong [OF fastack_data [of sn ts "snd_buf k"], of length] by (simp add: owed_def kcp_blocks_def)
  qed simp_all
qed

text \<open>A result that can be a fault only by signed overflow.\<close>

definition only_overflow :: "'a res \<Rightarrow> bool" where
  "only_overflow r \<longleftrightarrow> (\<forall>e. r = Inl e \<longrightarrow> e = Int_Overflow)"

lemma only_overflow_simps [simp]: "only_overflow (Inr x)" "only_overflow (Inl e) \<longleftrightarrow> e = Int_Overflow" "only_overflow (int32 i)"
  by (simp_all add: only_overflow_def int32_def)

lemma rbindE: "rbind r f = Inr y \<Longrightarrow> (\<And>x. r = Inr x \<Longrightarrow> f x = Inr y \<Longrightarrow> thesis) \<Longrightarrow> thesis"
  by (cases r) simp_all

lemma only_overflow_rbind:
  assumes "only_overflow r" and "\<And>x. r = Inr x \<Longrightarrow> only_overflow (f x)"
  shows "only_overflow (rbind r f)"
  using assms by (cases r) simp_all

lemma update_ack_overflow: "only_overflow (ikcp_update_ack k rtt)"
  unfolding ikcp_update_ack_def Let_def
  by (intro only_overflow_rbind) (auto intro!: only_overflow_rbind)

lemma update_ack_cases:
  assumes "ikcp_update_ack k rtt = Inr k'"
  shows "\<exists>srtt rttval rto. k' = k\<lparr>rx_srtt := srtt, rx_rttval := rttval, rx_rto := rto\<rparr>"
  using assms unfolding ikcp_update_ack_def Let_def
  by (elim rbindE) (simp split: prod.splits, elim rbindE, blast)

lemma keeps_rtt: "kcp_ok k \<Longrightarrow> keeps k (k\<lparr>rx_srtt := a, rx_rttval := b, rx_rto := c\<rparr>)"
  by (rule keeps_frame) (simp_all add: fits_def owed_def kcp_blocks_def)

lemma grow_block_range: "0 < b \<Longrightarrow> b \<le> 2147483648 \<Longrightarrow> n \<le> 2147483648 \<Longrightarrow>
    n \<le> grow_block n b \<and> 0 < grow_block n b \<and> grow_block n b < 4294967296"
proof (induction n b rule: grow_block.induct)
  case (1 n b)
  show ?case
  proof (cases "b < n")
    case True
    then show ?thesis
      using 1 by (cases "2 * b \<le> 2147483648") (simp_all add: grow_block.simps [of n b] grow_block.simps [of n "2 * b"])
  next
    case False
    then show ?thesis using 1 by (simp add: grow_block.simps [of n b])
  qed
qed

lemma ack_push_keeps:
  assumes ok: "kcp_ok k" and few: "length (acklist k) < 2147483648"
  shows "\<exists>k'. ikcp_ack_push k sn ts = Inr k' \<and> keeps k k' \<and> acklist k' = acklist k @ [(sn, ts)] \<and>
    rcv_nxt k' = rcv_nxt k \<and> rcv_wnd k' = rcv_wnd k"
proof (cases "unat (ackblock k) < length (acklist k) + 1")
  case False
  then have "ikcp_ack_push k sn ts = Inr (k\<lparr>acklist := acklist k @ [(sn, ts)]\<rparr>)"
    by (simp add: ikcp_ack_push_def)
  moreover have "keeps k (k\<lparr>acklist := acklist k @ [(sn, ts)]\<rparr>)"
    by (rule keeps_frame [OF ok]) (simp_all add: fits_def owed_def kcp_blocks_def)
  ultimately show ?thesis by simp
next
  case True
  let ?b = "grow_block (length (acklist k) + 1) 8"
  let ?h = "(kcp_mem k)\<lparr>mem_next := Suc (mem_next (kcp_mem k)), mem_live := mem_live (kcp_mem k) + 1\<rparr>"
  let ?k = "k\<lparr>kcp_mem := kvstore_free (acklist_ptr k) ?h, ackblock := word_of_nat ?b, acklist := acklist k @ [(sn, ts)]\<rparr>"
  have good: "mem_good (kcp_mem k)" using ok by (simp add: kcp_ok_def)
  have "ikcp_ack_push k sn ts = Inr ?k"
    using True few good
    by (simp add: ikcp_ack_push_def ikcp_malloc_def ikcp_free_def kvstore_malloc_good Let_def acklist_ptr_def)
  moreover have "(word_of_nat ?b :: u32) \<noteq> 0"
    using grow_block_range [of 8 "length (acklist k) + 1"] few by (simp add: word_unat_eq_iff)
  then have "keeps k ?k"
    by (intro keeps_frame [OF ok]) (simp_all add: fits_def owed_def kcp_blocks_def kvstore_free_live acklist_ptr_def)
  ultimately show ?thesis by simp
qed

lemma insert_rev_length: "insert_rev new segs = Some segs' \<Longrightarrow> length segs' = Suc (length segs)"
  by (induction new segs arbitrary: segs' rule: insert_rev.induct) (auto split: if_splits)

text \<open>Taking in a segment that was allocated for it.\<close>

lemma new_segment_keeps:
  assumes ok: "kcp_ok k"
  shows "\<exists>k'. ikcp_segment_new sz k = (True, k') \<and> keeps k (ikcp_parse_data k' seg) \<and> acklist (ikcp_parse_data k' seg) = acklist k"
proof -
  let ?h = "(kcp_mem k)\<lparr>mem_next := Suc (mem_next (kcp_mem k)), mem_live := mem_live (kcp_mem k) + 1\<rparr>"
  let ?k = "k\<lparr>kcp_mem := ?h\<rparr>"
  have new: "ikcp_segment_new sz k = (True, ?k)"
    using ok by (simp add: segment_new_good kcp_ok_def)
  have undo: "keeps k (ikcp_segment_delete seg ?k)"
    by (rule keeps_frame [OF ok]) (simp_all add: segment_delete_form fits_def owed_def kcp_blocks_def)
  have "keeps k (move_ready (rcv_buf k') k') \<and> acklist (move_ready (rcv_buf k') k') = acklist k"
    if "k' = (case insert_rev seg (rev (rcv_buf ?k)) of None \<Rightarrow> ikcp_segment_delete seg ?k
      | Some buf \<Rightarrow> ?k\<lparr>rcv_buf := rev buf, nrcv_buf := nrcv_buf ?k + 1\<rparr>)" for k'
  proof -
    have "keeps k k' \<and> acklist k' = acklist k"
    proof (cases "insert_rev seg (rev (rcv_buf ?k))")
      case None
      then show ?thesis using that undo by (simp add: segment_delete_form)
    next
      case (Some buf)
      have "keeps k (?k\<lparr>rcv_buf := rev buf, nrcv_buf := nrcv_buf ?k + 1\<rparr>)"
        by (rule keeps_frame [OF ok]) (use insert_rev_length [OF Some] in \<open>simp_all add: fits_def owed_def kcp_blocks_def\<close>)
      then show ?thesis using that Some by simp
    qed
    then show ?thesis using keeps_trans keeps_move_ready keeps_ok by fastforce
  qed
  then have "keeps k (ikcp_parse_data ?k seg) \<and> acklist (ikcp_parse_data ?k seg) = acklist k"
    using undo by (simp add: ikcp_parse_data_def Let_def segment_delete_form)
  then show ?thesis using new by blast
qed

lemma push_keeps:
  assumes ok: "kcp_ok k" and few: "length (acklist k) < 2147483648"
  shows "\<exists>k'. input_push k h d = Inr k' \<and> keeps k k' \<and> length (acklist k') \<le> Suc (length (acklist k))"
proof (cases "itimediff (hsn h) (rcv_nxt k + rcv_wnd k) < 0")
  case True
  obtain k1 where k1: "ikcp_ack_push k (hsn h) (hts h) = Inr k1" "keeps k k1" "acklist k1 = acklist k @ [(hsn h, hts h)]"
    using ack_push_keeps [OF ok few] by blast
  obtain k2 where k2: "ikcp_segment_new (unat (hlen h)) k1 = (True, k2)" "keeps k1 (ikcp_parse_data k2 (push_seg h d))"
      "acklist (ikcp_parse_data k2 (push_seg h d)) = acklist k1"
    using new_segment_keeps [OF keeps_ok [OF k1(2)]] by blast
  show ?thesis
    using True k1 k2 keeps_trans [OF k1(2) k2(2)] by (cases "0 \<le> itimediff (hsn h) (rcv_nxt k1)") (simp_all add: input_push_def)
next
  case False
  then show ?thesis using keeps_refl [OF ok] by (simp add: input_push_def)
qed

lemma ack_fields [simp]:
  "acklist (ikcp_shrink_buf k) = acklist k" "acklist (ikcp_parse_una k una) = acklist k"
  "acklist (ikcp_parse_ack k sn) = acklist k" "acklist (ikcp_parse_fastack k sn ts) = acklist k"
  by (auto simp: ikcp_shrink_buf_def parse_una_form ikcp_parse_ack_def ikcp_parse_fastack_def segment_delete_form
      split: option.splits)

lemma ack_keeps:
  assumes ok: "kcp_ok k"
  shows "only_overflow (input_ack k acks sn ts)"
    and "input_ack k acks sn ts = Inr (k', acks') \<Longrightarrow> keeps k k' \<and> acklist k' = acklist k"
proof -
  let ?r = "if 0 \<le> itimediff (current k) ts then ikcp_update_ack k (itimediff (current k) ts) else Inr k"
  show "only_overflow (input_ack k acks sn ts)"
    unfolding input_ack_def by (rule only_overflow_rbind) (simp_all add: update_ack_overflow)
  assume "input_ack k acks sn ts = Inr (k', acks')"
  then obtain k1 where k1: "?r = Inr k1" "k' = ikcp_shrink_buf (ikcp_parse_ack k1 sn)"
    unfolding input_ack_def by (elim rbindE) auto
  have "keeps k k1 \<and> acklist k1 = acklist k"
    using k1(1) keeps_refl [OF ok] keeps_rtt [OF ok] by (auto split: if_splits dest!: update_ack_cases)
  then show "keeps k k' \<and> acklist k' = acklist k"
    using k1(2) keeps_trans keeps_parse_ack keeps_shrink keeps_ok by (metis ack_fields(1,3))
qed

lemma seg_keeps:
  assumes ok: "kcp_ok k" and few: "length (acklist k) < 2147483648"
  shows "only_overflow (input_seg k acks h d)"
    and "input_seg k acks h d = Inr (k', acks') \<Longrightarrow> keeps k k' \<and> length (acklist k') \<le> Suc (length (acklist k))"
proof -
  let ?k = "ikcp_shrink_buf (ikcp_parse_una (k\<lparr>rmt_wnd := ucast (hwnd h)\<rparr>) (huna h))"
  have "keeps k (k\<lparr>rmt_wnd := ucast (hwnd h)\<rparr>)"
    by (rule keeps_frame [OF ok]) (simp_all add: fits_def owed_def kcp_blocks_def)
  then have k: "keeps k ?k" using keeps_trans keeps_parse_una keeps_shrink keeps_ok by blast
  have a: "acklist ?k = acklist k" by simp
  obtain kp where kp: "input_push ?k h d = Inr kp" "keeps ?k kp" "length (acklist kp) \<le> Suc (length (acklist ?k))"
    using push_keeps [OF keeps_ok [OF k], of h d] few by auto
  show "only_overflow (input_seg k acks h d)"
    using ack_keeps(1) [OF keeps_ok [OF k]] kp(1) by (simp add: input_seg_def Let_def)
  assume r: "input_seg k acks h d = Inr (k', acks')"
  have "keeps ?k k' \<and> length (acklist k') \<le> Suc (length (acklist ?k))"
    using r kp keeps_refl [OF keeps_ok [OF k]] keeps_probe [OF keeps_ok [OF k]]
      ack_keeps(2) [OF keeps_ok [OF k], of acks "hsn h" "hts h" k' acks']
    by (auto simp: input_seg_def Let_def split: if_splits)
  then show "keeps k k' \<and> length (acklist k') \<le> Suc (length (acklist k))"
    using keeps_trans [OF k] a by simp
qed

lemma decode_header_total: "24 \<le> length p \<Longrightarrow> \<exists>h q. decode_header p = Inr (h, q)"
  by (auto simp: eval_nat_numeral Suc_le_length_iff decode_header_def)

lemma loop_keeps:
  assumes "kcp_ok k" and "length (acklist k) + length data < 2147483648"
  shows "only_overflow (input_loop data k acks) \<and>
    (\<forall>r k' acks'. input_loop data k acks = Inr (r, k', acks') \<longrightarrow>
       keeps k k' \<and> length (acklist k') \<le> length (acklist k) + length data)"
  using assms
proof (induction data k acks rule: input_loop.induct)
  case (1 data k acks)
  note simps = input_loop.simps [of data k acks]
  show ?case
  proof (cases "length data < 24")
    case True
    then show ?thesis using 1(2) keeps_refl by (auto simp: simps)
  next
    case False
    then obtain h q where h: "decode_header data = Inr (h, q)" using decode_header_total [of data] by auto
    then have len: "length data = length q + 24" by (rule decode_header_length)
    let ?bad = "hconv h \<noteq> conv k \<or> (length q < unat (hlen h) \<or> sint (hlen h) < 0) \<or> \<not> known_cmd (hcmd h)"
    show ?thesis
    proof (cases ?bad)
      case True
      then show ?thesis using False h 1(2) keeps_refl by (auto simp: simps)
    next
      case good: False
      let ?n = "unat (hlen h)"
      have few: "length (acklist k) < 2147483648" using 1(3) by simp
      note s = seg_keeps [OF 1(2) few, of acks h "take ?n q"]
      show ?thesis
      proof (cases "input_seg k acks h (take ?n q)")
        case (Inl e)
        then show ?thesis using False h good s(1) by (simp add: simps)
      next
        case (Inr p)
        obtain k1 acks1 where p: "p = (k1, acks1)" by force
        have k1: "keeps k k1" "length (acklist k1) \<le> Suc (length (acklist k))"
          using s(2) Inr p by blast+
        have rest: "length (acklist k1) + length (drop ?n q) < 2147483648"
          using k1(2) 1(3) len by simp
        have eq: "input_loop data k acks = input_loop (drop ?n q) k1 acks1"
          using False h good Inr p by (simp add: simps)
        have ih: "only_overflow (input_loop (drop ?n q) k1 acks1) \<and>
            (\<forall>r k' acks'. input_loop (drop ?n q) k1 acks1 = Inr (r, k', acks') \<longrightarrow>
              keeps k1 k' \<and> length (acklist k') \<le> length (acklist k1) + length (drop ?n q))"
          by (rule 1(1) [OF False h refl _ _ _ Inr]) (use good p rest keeps_ok [OF k1(1)] in auto)
        have "length (acklist k1) + length (drop ?n q) \<le> length (acklist k) + length data"
          using k1(2) len by simp
        then show ?thesis unfolding eq using ih keeps_trans [OF k1(1)] by (meson le_trans)
      qed
    qed
  qed
qed

lemma keeps_cwnd: "kcp_ok k \<Longrightarrow> keeps k (k\<lparr>cwnd := a, incr := b\<rparr>)" "kcp_ok k \<Longrightarrow> keeps k (k\<lparr>incr := b\<rparr>)"
  "kcp_ok k \<Longrightarrow> keeps k (k\<lparr>incr := b, cwnd := a\<rparr>)"
  by (rule keeps_frame, simp_all add: fits_def owed_def kcp_blocks_def)+

lemma grow_keeps:
  assumes ok: "kcp_ok k"
  shows "\<exists>k'. grow_cwnd k = Inr k' \<and> keeps k k' \<and> acklist k' = acklist k"
proof (cases "cwnd k < rmt_wnd k")
  case False
  then show ?thesis using keeps_refl [OF ok] by (simp add: grow_cwnd_def)
next
  case True
  let ?m = "mss k"
  let ?i = "if incr k < ?m then ?m else incr k"
  let ?j = "?i + ?m * ?m div ?i + ?m div 16"
  let ?k1 = "if cwnd k < ssthresh k then k\<lparr>cwnd := cwnd k + 1, incr := incr k + ?m\<rparr>
    else if (cwnd k + 1) * ?m \<le> ?j then k\<lparr>incr := ?j, cwnd := (?j + ?m - 1) div (if 0 < ?m then ?m else 1)\<rparr>
    else k\<lparr>incr := ?j\<rparr>"
  let ?k2 = "if rmt_wnd ?k1 < cwnd ?k1 then ?k1\<lparr>cwnd := rmt_wnd ?k1, incr := rmt_wnd ?k1 * mss ?k1\<rparr> else ?k1"
  have "?m \<noteq> 0" using mss_bound [OF ok] ok by (auto simp: kcp_ok_def kcp_shape_def)
  then have "?i \<noteq> 0" by (auto simp: word_gt_0)
  then have "grow_cwnd k = Inr ?k2"
    using True unfolding grow_cwnd_def Let_def by (cases "cwnd k < ssthresh k") simp_all
  moreover have k1: "keeps k ?k1" using keeps_cwnd [OF ok] by simp
  moreover have "keeps k ?k2" using keeps_trans [OF k1 keeps_cwnd(1) [OF keeps_ok [OF k1]]] k1 by simp
  moreover have "acklist ?k2 = acklist k" by simp
  ultimately show ?thesis by blast
qed

lemma input_keeps:
  assumes ok: "kcp_ok k" and few: "length (acklist k) + length data < 2147483648"
  shows "only_overflow (ikcp_input k data)"
    and "ikcp_input k data = Inr (r, k') \<Longrightarrow> keeps k k' \<and> length (acklist k') \<le> length (acklist k) + length data"
proof -
  let ?k = "k\<lparr>ackedlen := 0\<rparr>"
  have k: "keeps k ?k" by (rule keeps_frame [OF ok]) (simp_all add: fits_def owed_def kcp_blocks_def)
  have few': "length (acklist ?k) + length data < 2147483648" using few by simp
  note loop = loop_keeps [OF keeps_ok [OF k] few', of None]
  define fin where "fin = (\<lambda>k1 acks. case acks of None \<Rightarrow> k1 | Some (maxack, latest_ts) \<Rightarrow> ikcp_parse_fastack k1 maxack latest_ts)"
  have fin: "keeps k1 (fin k1 acks) \<and> acklist (fin k1 acks) = acklist k1" if "kcp_ok k1" for k1 acks
    using that keeps_refl keeps_parse_fastack by (auto simp: fin_def split: option.splits)
  define grow where "grow = (\<lambda>k2. if 0 < itimediff (snd_una k2) (snd_una k) then grow_cwnd k2 else Inr k2)"
  have grow: "\<exists>k'. grow k2 = Inr k' \<and> keeps k2 k' \<and> acklist k' = acklist k2" if "kcp_ok k2" for k2
    using that grow_keeps keeps_refl by (simp add: grow_def)
  have eq: "ikcp_input k data =
      (if sint (word_of_nat (length data) :: u32) < 24 then Inr (- 1, ?k)
       else rbind (input_loop data ?k None) (\<lambda>(r, k1, acks). if r \<noteq> 0 then Inr (r, k1)
         else rbind (grow (fin k1 acks)) (\<lambda>k2. Inr (0, k2))))"
    unfolding ikcp_input_def grow_def fin_def Let_def by simp
  have step: "\<exists>r' k2. (if r1 \<noteq> 0 then Inr (r1, k1) else rbind (grow (fin k1 acks)) (\<lambda>k2. Inr (0, k2))) = Inr (r', k2) \<and>
      keeps k k2 \<and> length (acklist k2) \<le> length (acklist k) + length data"
    if "input_loop data ?k None = Inr (r1, k1, acks)" for r1 k1 acks
  proof -
    have k1: "keeps k k1" "length (acklist k1) \<le> length (acklist k) + length data"
      using conjunct2 [OF loop, rule_format, OF that] keeps_trans [OF k] by auto
    have f: "keeps k1 (fin k1 acks)" "acklist (fin k1 acks) = acklist k1"
      using fin [OF keeps_ok [OF k1(1)], of acks] by blast+
    obtain k2 where k2: "grow (fin k1 acks) = Inr k2" "keeps (fin k1 acks) k2" "acklist k2 = acklist (fin k1 acks)"
      using grow [OF keeps_ok [OF f(1)]] by blast
    have "keeps k k2" using keeps_trans [OF k1(1) keeps_trans [OF f(1) k2(2)]] .
    then show ?thesis using k1 k2 f by (cases "r1 = 0") simp_all
  qed
  show "only_overflow (ikcp_input k data)"
  proof (cases "sint (word_of_nat (length data) :: u32) < 24")
    case False
    have "only_overflow (rbind (input_loop data ?k None) (\<lambda>(r, k1, acks). if r \<noteq> 0 then Inr (r, k1)
        else rbind (grow (fin k1 acks)) (\<lambda>k2. Inr (0, k2))))"
    proof (rule only_overflow_rbind)
      fix x assume x: "input_loop data ?k None = Inr x"
      obtain r1 k1 acks where xx: "x = (r1, k1, acks)" by (cases x) auto
      obtain p where "(if r1 \<noteq> 0 then Inr (r1, k1) else rbind (grow (fin k1 acks)) (\<lambda>k2. Inr (0, k2))) = (Inr p :: (int \<times> ikcpcb) res)"
        using step [of r1 k1 acks] x xx by blast
      then show "only_overflow (case x of (r, k1, acks) \<Rightarrow> if r \<noteq> 0 then Inr (r, k1)
          else rbind (grow (fin k1 acks)) (\<lambda>k2. Inr (0, k2)))"
        by (simp only: xx prod.case only_overflow_simps)
    qed (rule conjunct1 [OF loop])
    then show ?thesis unfolding eq using False by simp
  qed (simp add: eq)
  assume res: "ikcp_input k data = Inr (r, k')"
  show "keeps k k' \<and> length (acklist k') \<le> length (acklist k) + length data"
  proof (cases "sint (word_of_nat (length data) :: u32) < 24")
    case True
    then show ?thesis using res k unfolding eq by auto
  next
    case False
    then have "rbind (input_loop data ?k None) (\<lambda>(r, k1, acks). if r \<noteq> 0 then Inr (r, k1)
        else rbind (grow (fin k1 acks)) (\<lambda>k2. Inr (0, k2))) = Inr (r, k')"
      using res unfolding eq by simp
    then obtain x where x: "input_loop data ?k None = Inr x"
        "(case x of (r, k1, acks) \<Rightarrow> if r \<noteq> 0 then Inr (r, k1) else rbind (grow (fin k1 acks)) (\<lambda>k2. Inr (0, k2))) = Inr (r, k')"
      by (rule rbindE)
    obtain r1 k1 acks where "x = (r1, k1, acks)" by (cases x) auto
    then show ?thesis using step [of r1 k1 acks] x by auto
  qed
qed

section \<open>Flush\<close>

text \<open>What has been handed to the output callback and what is being assembled stays within the \<open>mtu\<close>.\<close>

definition flush_ok :: "flush \<Rightarrow> bool" where
  "flush_ok f \<longleftrightarrow> kcp_ok (fl_kcp f) \<and> length (fl_buf f) \<le> unat (mtu (fl_kcp f)) \<and>
     (\<forall>d \<in> set (fl_sent f). d \<noteq> [] \<and> length d \<le> unat (mtu (fl_kcp f)))"

lemma encode_seg_length [wire_simps]: "length (ikcp_encode_seg p seg) = length p + 24"
  by (simp add: ikcp_encode_seg_def Let_def wire_simps)

lemma output_ok:
  assumes "flush_ok f"
  shows "\<exists>f'. ikcp_output f = Inr f' \<and> flush_ok f' \<and> fl_kcp f' = fl_kcp f \<and> fl_buf f' = fl_buf f \<and>
    fl_change f' = fl_change f \<and> fl_lost f' = fl_lost f"
  using assms by (auto simp: ikcp_output_def flush_ok_def kcp_ok_def kcp_shape_def)

lemma mtu_sint:
  assumes "kcp_ok k"
  shows "sint (mtu k) = int (unat (mtu k))"
proof -
  have "unat (mtu k) < 2147483648" using assms by (simp add: kcp_ok_def kcp_shape_def)
  then have "uint (mtu k) < 2147483648" by (simp add: unat_less_uint)
  then show ?thesis by (simp add: sint_u32)
qed

lemma emit_ok:
  assumes ok: "flush_ok f" and fit: "length (sdata seg) \<le> unat (mss (fl_kcp f))"
  shows "\<exists>f'. emit seg f = Inr f' \<and> flush_ok f' \<and> fl_kcp f' = fl_kcp f \<and> fl_buf f' \<noteq> [] \<and>
    fl_change f' = fl_change f \<and> fl_lost f' = fl_lost f"
proof -
  let ?k = "fl_kcp f"
  have k: "kcp_ok ?k" using ok by (simp add: flush_ok_def)
  have m: "unat (mss ?k) + 24 = unat (mtu ?k)" "unat (mtu ?k) \<le> 65535"
    using mss_bound [OF k] k by (simp_all add: kcp_ok_def kcp_shape_def)
  have cap: "unat ((mtu ?k + IKCP_OVERHEAD) * 3) = (unat (mtu ?k) + 24) * 3"
    using m(2) by (simp add: unat_word_ariths)
  let ?full = "sint (mtu ?k) < int (length (fl_buf f)) + (24 + int (length (sdata seg)))"
  obtain f1 where f1: "(if ?full then rbind (ikcp_output f) (\<lambda>f. Inr (f\<lparr>fl_buf := []\<rparr>)) else Inr f) = Inr f1"
      "flush_ok f1" "fl_kcp f1 = ?k" "fl_change f1 = fl_change f" "fl_lost f1 = fl_lost f"
      "length (fl_buf f1) + 24 + length (sdata seg) \<le> unat (mtu ?k)"
  proof (cases ?full)
    case True
    obtain f' where "ikcp_output f = Inr f'" "flush_ok f'" "fl_kcp f' = ?k" "fl_change f' = fl_change f" "fl_lost f' = fl_lost f"
      using output_ok [OF ok] by blast
    then show thesis
      using True fit m by (intro that [of "f'\<lparr>fl_buf := []\<rparr>"]) (simp_all add: flush_ok_def)
  next
    case False
    then have "length (fl_buf f) + 24 + length (sdata seg) \<le> unat (mtu ?k)"
      unfolding mtu_sint [OF k] by linarith
    then show thesis using False ok by (intro that [of f]) simp_all
  qed
  let ?buf = "ikcp_encode_seg (fl_buf f1) seg @ sdata seg"
  have len: "length ?buf = length (fl_buf f1) + 24 + length (sdata seg)" by (simp add: wire_simps)
  then have room: "\<not> unat ((mtu ?k + IKCP_OVERHEAD) * 3) < length ?buf" using f1(6) unfolding cap by simp
  have "emit seg f = Inr (f1\<lparr>fl_buf := ?buf\<rparr>)"
    unfolding emit_def f1(1) using room f1(3) by (simp add: Let_def)
  moreover have "flush_ok (f1\<lparr>fl_buf := ?buf\<rparr>)" using f1 len by (simp add: flush_ok_def)
  moreover have "?buf \<noteq> []" using len by fastforce
  ultimately show ?thesis using f1 by auto
qed

lemma emit_if_ok:
  assumes ok: "flush_ok f" and fit: "length (sdata seg) \<le> unat (mss (fl_kcp f))"
  obtains f' where "(if c then emit seg f else Inr f) = Inr f'" "flush_ok f'" "fl_kcp f' = fl_kcp f"
    "fl_change f' = fl_change f" "fl_lost f' = fl_lost f"
proof (cases c)
  case True
  then show thesis using emit_ok [OF assms] that by (metis (full_types))
next
  case False
  then show thesis using ok that [of f] by simp
qed

lemma flush_acks_ok:
  assumes "flush_ok f" and "sdata seg = []"
  shows "\<exists>seg' f'. flush_acks acks seg f = Inr (seg', f') \<and> flush_ok f' \<and> fl_kcp f' = fl_kcp f \<and> sdata seg' = [] \<and>
    swnd seg' = swnd seg \<and> fl_change f' = fl_change f \<and> fl_lost f' = fl_lost f"
  using assms
proof (induction acks seg f rule: flush_acks.induct)
  case (2 sn ts acks seg f)
  let ?seg = "seg\<lparr>ssn := sn, sts := ts\<rparr>"
  obtain f1 where f1: "emit ?seg f = Inr f1" "flush_ok f1" "fl_kcp f1 = fl_kcp f" "fl_change f1 = fl_change f" "fl_lost f1 = fl_lost f"
    using emit_ok [OF 2(2), of ?seg] 2(3) by auto
  have "\<exists>seg' f'. flush_acks acks ?seg f1 = Inr (seg', f') \<and> flush_ok f' \<and> fl_kcp f' = fl_kcp f1 \<and> sdata seg' = [] \<and>
    swnd seg' = swnd ?seg \<and> fl_change f' = fl_change f1 \<and> fl_lost f' = fl_lost f1"
    by (rule 2(1)) (use f1 2(3) in simp_all)
  then show ?case using f1 by auto
qed simp

lemma keeps_probe_window: "kcp_ok k \<Longrightarrow> keeps k (probe_window (k\<lparr>acklist := []\<rparr>))"
  by (rule keeps_frame) (simp_all add: probe_window_def Let_def fits_def owed_def kcp_blocks_def)

lemma probe_window_acklist [simp]: "acklist (probe_window k) = acklist k" "updated (probe_window k) = updated k"
  by (simp_all add: probe_window_def Let_def)

lemma flush_probes_ok:
  assumes "flush_ok f" and "sdata seg = []"
  shows "\<exists>f'. flush_probes seg f = Inr f' \<and> flush_ok f' \<and> fl_kcp f' = (fl_kcp f)\<lparr>probe := 0\<rparr> \<and>
    fl_change f' = fl_change f \<and> fl_lost f' = fl_lost f"
proof -
  have fit: "length (sdata (seg\<lparr>scmd := c\<rparr>)) \<le> n" for c n using assms(2) by simp
  obtain f1 where f1: "(if probe (fl_kcp f) AND IKCP_ASK_SEND \<noteq> 0 then emit (seg\<lparr>scmd := IKCP_CMD_WASK\<rparr>) f else Inr f) = Inr f1"
      "flush_ok f1" "fl_kcp f1 = fl_kcp f" "fl_change f1 = fl_change f" "fl_lost f1 = fl_lost f"
    by (rule emit_if_ok [OF assms(1) fit])
  obtain f2 where f2: "(if probe (fl_kcp f1) AND IKCP_ASK_TELL \<noteq> 0 then emit (seg\<lparr>scmd := IKCP_CMD_WINS\<rparr>) f1 else Inr f1) = Inr f2"
      "flush_ok f2" "fl_kcp f2 = fl_kcp f1" "fl_change f2 = fl_change f1" "fl_lost f2 = fl_lost f1"
    by (rule emit_if_ok [OF f1(2) fit])
  have "flush_ok (f2\<lparr>fl_kcp := (fl_kcp f2)\<lparr>probe := 0\<rparr>\<rparr>)"
    using f2(2) keeps_ok [OF keeps_probe] by (simp add: flush_ok_def)
  then show ?thesis
    unfolding flush_probes_def f1(1) rbind.simps f2(1) using f1 f2 by simp
qed

lemma move_snd_keeps:
  assumes "kcp_ok (k\<lparr>snd_queue := segs\<rparr>)"
  shows "keeps (k\<lparr>snd_queue := segs\<rparr>) (move_snd cw wnd segs k) \<and> acklist (move_snd cw wnd segs k) = acklist k \<and>
    updated (move_snd cw wnd segs k) = updated k \<and> current (move_snd cw wnd segs k) = current k"
  using assms
proof (induction cw wnd segs k rule: move_snd.induct)
  case (1 cw wnd k)
  then show ?case using keeps_refl by simp
next
  case (2 cw wnd seg segs k)
  show ?case
  proof (cases "itimediff (snd_nxt k) (snd_una k + cw) < 0")
    case False
    then show ?thesis using 2(2) keeps_refl by simp
  next
    case True
    let ?new = "seg\<lparr>sconv := conv k, scmd := IKCP_CMD_PUSH, swnd := wnd, sts := current k,
      ssn := snd_nxt k, suna := rcv_nxt k, sresendts := current k,
      srto := word_of_int (rx_rto k), sfastack := 0, sxmit := 0\<rparr>"
    let ?k = "k\<lparr>snd_buf := snd_buf k @ [?new], nsnd_que := nsnd_que k - 1, nsnd_buf := nsnd_buf k + 1, snd_nxt := snd_nxt k + 1\<rparr>"
    have step: "keeps (k\<lparr>snd_queue := seg # segs\<rparr>) (?k\<lparr>snd_queue := segs\<rparr>)"
      by (rule keeps_frame [OF 2(2)]) (auto simp: fits_def owed_def kcp_blocks_def)
    have "keeps (?k\<lparr>snd_queue := segs\<rparr>) (move_snd cw wnd segs ?k) \<and> acklist (move_snd cw wnd segs ?k) = acklist ?k \<and>
      updated (move_snd cw wnd segs ?k) = updated ?k \<and> current (move_snd cw wnd segs ?k) = current ?k"
      by (rule 2(1) [OF True refl keeps_ok [OF step]])
    moreover have "move_snd cw wnd (seg # segs) k = move_snd cw wnd segs ?k" using True by simp
    ultimately show ?thesis using keeps_trans [OF step] by simp
  qed
qed

lemma keeps_xmit: "kcp_ok k \<Longrightarrow> keeps k (k\<lparr>xmit := x, kstate := st\<rparr>)"
  by (rule keeps_frame) (simp_all add: fits_def owed_def kcp_blocks_def)

lemma flush_ok_xmit: "flush_ok f \<Longrightarrow> flush_ok (f\<lparr>fl_kcp := (fl_kcp f)\<lparr>xmit := x, kstate := st\<rparr>, fl_lost := l, fl_change := c\<rparr>)"
  using keeps_ok [OF keeps_xmit] by (simp add: flush_ok_def)

lemma xmit_id: "k\<lparr>xmit := xmit k, kstate := kstate k\<rparr> = (k :: ikcpcb)"
  by simp

lemma count_reason_form:
  "\<exists>x l c. count_reason why f = f\<lparr>fl_kcp := (fl_kcp f)\<lparr>xmit := x, kstate := kstate (fl_kcp f)\<rparr>, fl_lost := l, fl_change := c\<rparr>"
proof (cases why)
  case Not_Due
  then show ?thesis by (intro exI [of _ "xmit (fl_kcp f)"] exI [of _ "fl_lost f"] exI [of _ "fl_change f"]) (simp add: count_reason_def)
next
  case First_Send
  then show ?thesis by (intro exI [of _ "xmit (fl_kcp f)"] exI [of _ "fl_lost f"] exI [of _ "fl_change f"]) (simp add: count_reason_def)
next
  case Timed_Out
  then show ?thesis by (intro exI [of _ "xmit (fl_kcp f) + 1"] exI [of _ True] exI [of _ "fl_change f"]) (simp add: count_reason_def)
next
  case Fast_Resend
  then show ?thesis by (intro exI [of _ "xmit (fl_kcp f)"] exI [of _ "fl_lost f"] exI [of _ "fl_change f + 1"]) (simp add: count_reason_def)
qed

lemma retime_data [simp]: "sdata (retime k rtomin why seg) = sdata seg"
  by (simp add: retime_def Let_def split: send_reason.splits)

lemma flush_seg_ok:
  assumes ok: "flush_ok f" and fit: "length (sdata seg) \<le> unat (mss (fl_kcp f))"
  obtains seg' f' x st where
    "(if why = Not_Due then Inr (retime k rtomin why seg, count_reason why f)
      else let s = (retime k rtomin why seg)\<lparr>sts := t, swnd := w, suna := u\<rparr>
           in rbind (emit s (count_reason why f)) (\<lambda>f. Inr (s, if d \<le> sxmit s then f\<lparr>fl_kcp := (fl_kcp f)\<lparr>kstate := - 1\<rparr>\<rparr> else f)))
     = Inr (seg', f')"
    "flush_ok f'" "sdata seg' = sdata seg" "fl_kcp f' = (fl_kcp f)\<lparr>xmit := x, kstate := st\<rparr>"
proof -
  obtain x l c where cr: "count_reason why f = f\<lparr>fl_kcp := (fl_kcp f)\<lparr>xmit := x, kstate := kstate (fl_kcp f)\<rparr>, fl_lost := l, fl_change := c\<rparr>"
    using count_reason_form by blast
  have ok1: "flush_ok (count_reason why f)" unfolding cr by (rule flush_ok_xmit [OF ok])
  have k1: "fl_kcp (count_reason why f) = (fl_kcp f)\<lparr>xmit := x, kstate := kstate (fl_kcp f)\<rparr>" unfolding cr by simp
  show thesis
  proof (cases "why = Not_Due")
    case True
    show ?thesis
      by (rule that [of "retime k rtomin why seg" "count_reason why f" "kstate (fl_kcp f)" x])
         (use True ok1 k1 in \<open>simp_all\<close>)
  next
    case False
    let ?s = "(retime k rtomin why seg)\<lparr>sts := t, swnd := w, suna := u\<rparr>"
    obtain f1 where f1: "emit ?s (count_reason why f) = Inr f1" "flush_ok f1" "fl_kcp f1 = fl_kcp (count_reason why f)"
      using emit_ok [OF ok1, of ?s] fit k1 by auto
    let ?st = "if d \<le> sxmit ?s then - 1 else kstate (fl_kcp f)"
    let ?f2 = "if d \<le> sxmit ?s then f1\<lparr>fl_kcp := (fl_kcp f1)\<lparr>kstate := - 1\<rparr>\<rparr> else f1"
    have "fl_kcp ?f2 = (fl_kcp f)\<lparr>xmit := x, kstate := ?st\<rparr>" using f1(3) k1 by simp
    moreover have "flush_ok ?f2"
      using f1(2) flush_ok_xmit [OF f1(2), where x = "xmit (fl_kcp f1)" and st = "- 1" and l = "fl_lost f1" and c = "fl_change f1"] by simp
    ultimately show ?thesis using False f1(1) by (intro that [of ?s ?f2 ?st x]) (simp_all add: Let_def)
  qed
qed

lemma flush_segs_ok:
  assumes "flush_ok f" and "\<forall>seg \<in> set segs. length (sdata seg) \<le> unat (mss (fl_kcp f))"
  shows "\<exists>segs' f' x st. flush_segs resent rtomin wnd segs f = Inr (segs', f') \<and> flush_ok f' \<and>
    map sdata segs' = map sdata segs \<and> fl_kcp f' = (fl_kcp f)\<lparr>xmit := x, kstate := st\<rparr>"
  using assms
proof (induction segs arbitrary: f)
  case Nil
  then show ?case by (intro exI [of _ "[]"] exI [of _ f] exI [of _ "xmit (fl_kcp f)"] exI [of _ "kstate (fl_kcp f)"]) simp
next
  case (Cons seg segs)
  have fit: "length (sdata seg) \<le> unat (mss (fl_kcp f))" using Cons.prems(2) by simp
  obtain seg1 f1 x1 st1 where s1:
    "(if send_reason (fl_kcp f) resent seg = Not_Due
      then Inr (retime (fl_kcp f) rtomin (send_reason (fl_kcp f) resent seg) seg, count_reason (send_reason (fl_kcp f) resent seg) f)
      else let s = (retime (fl_kcp f) rtomin (send_reason (fl_kcp f) resent seg) seg)\<lparr>sts := current (fl_kcp f), swnd := wnd, suna := rcv_nxt (fl_kcp f)\<rparr>
           in rbind (emit s (count_reason (send_reason (fl_kcp f) resent seg) f))
                (\<lambda>f'. Inr (s, if dead_link (fl_kcp f) \<le> sxmit s then f'\<lparr>fl_kcp := (fl_kcp f')\<lparr>kstate := - 1\<rparr>\<rparr> else f')))
     = Inr (seg1, f1)"
    "flush_ok f1" "sdata seg1 = sdata seg" "fl_kcp f1 = (fl_kcp f)\<lparr>xmit := x1, kstate := st1\<rparr>"
    by (rule flush_seg_ok [OF Cons.prems(1) fit])
  have "\<forall>seg \<in> set segs. length (sdata seg) \<le> unat (mss (fl_kcp f1))" using Cons.prems(2) s1(4) by simp
  then obtain segs' f' x st where r: "flush_segs resent rtomin wnd segs f1 = Inr (segs', f')" "flush_ok f'"
      "map sdata segs' = map sdata segs" "fl_kcp f' = (fl_kcp f1)\<lparr>xmit := x, kstate := st\<rparr>"
    using Cons.IH [OF s1(2)] by blast
  have "flush_segs resent rtomin wnd (seg # segs) f = Inr (seg1 # segs', f')"
    unfolding flush_segs.simps Let_def s1(1) [unfolded Let_def] using r(1) by simp
  moreover have "fl_kcp f' = (fl_kcp f)\<lparr>xmit := x, kstate := st\<rparr>" using r(4) s1(4) by simp
  ultimately show ?case using r(2,3) s1(3) by auto
qed

lemma keeps_adjust: "kcp_ok k \<Longrightarrow> keeps k (adjust_cwnd pc resent change lost k)"
  by (rule keeps_frame) (simp_all add: adjust_cwnd_def Let_def fits_def owed_def kcp_blocks_def)

lemma adjust_fields [simp]: "acklist (adjust_cwnd pc resent change lost k) = acklist k" "updated (adjust_cwnd pc resent change lost k) = updated k"
  by (simp_all add: adjust_cwnd_def Let_def)

lemma same_data_keeps:
  assumes ok: "kcp_ok k" and same: "map sdata segs = map sdata (snd_buf k)"
  shows "keeps k (k\<lparr>snd_buf := segs\<rparr>)"
proof (rule keeps_frame [OF ok])
  show "fits (k\<lparr>snd_buf := segs\<rparr>)" if "fits k"
    using that same_data_fits [OF same] by (auto simp: fits_def)
  show "owed (k\<lparr>snd_buf := segs\<rparr>) = owed k"
    using arg_cong [OF same, of length] by (simp add: owed_def kcp_blocks_def)
qed simp_all

lemma flush_keeps:
  assumes ok: "kcp_ok k"
  shows "\<exists>outs k'. ikcp_flush k = Inr (outs, k') \<and> keeps k k' \<and> (\<forall>d \<in> set outs. d \<noteq> [] \<and> length d \<le> unat (mtu k)) \<and>
    updated k' = updated k \<and> acklist k' = (if updated k = 0 then acklist k else [])"
proof (cases "updated k = 0")
  case True
  then show ?thesis using keeps_refl [OF ok] by (simp add: ikcp_flush_def)
next
  case False
  have f0: "flush_ok (flush_start k)" using ok by (simp add: flush_ok_def flush_start_def)
  have c0: "sdata (ctl_seg k) = []" by (simp add: ctl_seg_def)
  obtain seg1 f1 where f1: "flush_acks (acklist k) (ctl_seg k) (flush_start k) = Inr (seg1, f1)" "flush_ok f1" "fl_kcp f1 = k" "sdata seg1 = []"
    using flush_acks_ok [OF f0 c0, of "acklist k"] by (auto simp: flush_start_def)
  let ?k2 = "probe_window (k\<lparr>acklist := []\<rparr>)"
  have k2: "keeps k ?k2" by (rule keeps_probe_window [OF ok])
  have "flush_ok (f1\<lparr>fl_kcp := ?k2\<rparr>)" using f1(2,3) k2 by (simp add: flush_ok_def keeps_def)
  then obtain f3 where f3: "flush_probes seg1 (f1\<lparr>fl_kcp := ?k2\<rparr>) = Inr f3" "flush_ok f3" "fl_kcp f3 = ?k2\<lparr>probe := 0\<rparr>"
    using flush_probes_ok [of "f1\<lparr>fl_kcp := ?k2\<rparr>" seg1] f1(4) by auto
  have k3: "keeps k (fl_kcp f3)" unfolding f3(3) using keeps_trans [OF k2 keeps_probe [OF keeps_ok [OF k2]]] .
  let ?k4 = "move_snd (send_window (fl_kcp f3)) (swnd seg1) (snd_queue (fl_kcp f3)) (fl_kcp f3)"
  have m4: "keeps (fl_kcp f3) ?k4" "acklist ?k4 = acklist (fl_kcp f3)" "updated ?k4 = updated (fl_kcp f3)"
    using move_snd_keeps [of "snd_queue (fl_kcp f3)" "fl_kcp f3"] keeps_ok [OF k3] by simp_all
  have k4: "keeps k ?k4" using keeps_trans [OF k3 m4(1)] .
  have ok4: "flush_ok (f3\<lparr>fl_kcp := ?k4\<rparr>)" using f3(2) m4(1) by (simp add: flush_ok_def keeps_def)
  have fit4: "\<forall>seg \<in> set (snd_buf ?k4). length (sdata seg) \<le> unat (mss ?k4)"
    using keeps_ok [OF k4] unfolding kcp_ok_def kcp_shape_def fits_def by auto
  let ?resent = "if 0 < fastresend ?k4 then word_of_int (fastresend ?k4) else 4294967295 :: u32"
  let ?rtomin = "if nodelay ?k4 = 0 then word_of_int (rx_rto ?k4 div 8) else 0 :: u32"
  obtain segs f5 x st where f5: "flush_segs ?resent ?rtomin (swnd seg1) (snd_buf ?k4) (f3\<lparr>fl_kcp := ?k4\<rparr>) = Inr (segs, f5)"
      "flush_ok f5" "map sdata segs = map sdata (snd_buf ?k4)" "fl_kcp f5 = ?k4\<lparr>xmit := x, kstate := st\<rparr>"
    using flush_segs_ok [OF ok4, of "snd_buf ?k4" ?resent ?rtomin "swnd seg1"] fit4 by auto
  obtain f6 where f6: "(if fl_buf f5 = [] then Inr f5 else ikcp_output f5) = Inr f6" "flush_ok f6" "fl_kcp f6 = fl_kcp f5"
    using output_ok [OF f5(2)] f5(2) by (cases "fl_buf f5 = []") auto
  let ?k7 = "adjust_cwnd (cwnd k) ?resent (fl_change f6) (fl_lost f6) ((fl_kcp f6)\<lparr>snd_buf := segs\<rparr>)"
  have k6: "keeps k (fl_kcp f6)" unfolding f6(3) f5(4) using keeps_trans [OF k4 keeps_xmit [OF keeps_ok [OF k4]]] .
  have s6: "keeps k ((fl_kcp f6)\<lparr>snd_buf := segs\<rparr>)"
    by (rule keeps_trans [OF k6 same_data_keeps [OF keeps_ok [OF k6]]]) (simp add: f5 f6(3))
  have k7: "keeps k ?k7" using keeps_trans [OF s6 keeps_adjust [OF keeps_ok [OF s6]]] .
  have flush: "ikcp_flush k = Inr (fl_sent f6, ?k7)"
    using False by (simp add: ikcp_flush_def Let_def f1 f3(1) f5(1) f6(1) del: flush_segs.simps)
  have "\<forall>d \<in> set (fl_sent f6). d \<noteq> [] \<and> length d \<le> unat (mtu k)"
    using f6(2) k6 by (simp add: flush_ok_def keeps_def)
  moreover have "acklist ?k7 = []" "updated ?k7 = updated k"
    using f6(3) f5(4) m4(2,3) f3(3) by simp_all
  ultimately show ?thesis using flush k7 False by auto
qed

lemma keeps_clock: "kcp_ok k \<Longrightarrow> keeps k (k\<lparr>current := a, updated := b, ts_flush := c\<rparr>)"
  by (rule keeps_frame) (simp_all add: fits_def owed_def kcp_blocks_def)

text \<open>\<open>ikcp_update\<close> sets the clock fields and flushes, or not.\<close>

lemma update_form:
  "\<exists>u ts fl. u \<noteq> 0 \<and> ikcp_update k now = (if fl then ikcp_flush (k\<lparr>current := now, updated := u, ts_flush := ts\<rparr>)
     else Inr ([], k\<lparr>current := now, updated := u, ts_flush := ts\<rparr>))"
proof -
  let ?u = "if updated k = 0 then 1 else updated k" and ?t0 = "if updated k = 0 then now else ts_flush k"
  let ?s0 = "itimediff now ?t0"
  let ?far = "10000 \<le> ?s0 \<or> ?s0 < - 10000"
  let ?t1 = "if ?far then now else ?t0" and ?s1 = "if ?far then 0 else ?s0"
  let ?t2 = "if 0 \<le> itimediff now (?t1 + interval k) then now + interval k else ?t1 + interval k"
  have "ikcp_update k now = (if 0 \<le> ?s1 then ikcp_flush (k\<lparr>current := now, updated := ?u, ts_flush := ?t2\<rparr>)
      else Inr ([], k\<lparr>current := now, updated := ?u, ts_flush := ?t1\<rparr>))"
    by (cases "updated k = 0"; cases ?far) (simp_all add: ikcp_update_def Let_def)
  moreover have "?u \<noteq> 0" by simp
  ultimately show ?thesis
    by (intro exI [of _ ?u] exI [of _ "if 0 \<le> ?s1 then ?t2 else ?t1"] exI [of _ "0 \<le> ?s1"]) (cases "0 \<le> ?s1"; simp only: if_True if_False simp_thms)
qed

lemma update_keeps:
  assumes ok: "kcp_ok k"
  shows "\<exists>outs k'. ikcp_update k now = Inr (outs, k') \<and> keeps k k' \<and> (\<forall>d \<in> set outs. d \<noteq> [] \<and> length d \<le> unat (mtu k)) \<and>
    updated k' \<noteq> 0 \<and> (acklist k' = acklist k \<or> acklist k' = [])"
proof -
  obtain u ts fl where u: "u \<noteq> 0" "ikcp_update k now = (if fl then ikcp_flush (k\<lparr>current := now, updated := u, ts_flush := ts\<rparr>)
     else Inr ([], k\<lparr>current := now, updated := u, ts_flush := ts\<rparr>))"
    using update_form by blast
  let ?k = "k\<lparr>current := now, updated := u, ts_flush := ts\<rparr>"
  have k1: "keeps k ?k" by (rule keeps_clock [OF ok])
  show ?thesis
  proof (cases fl)
    case True
    then show ?thesis
      using flush_keeps [OF keeps_ok [OF k1]] u keeps_trans [OF k1] by auto
  next
    case False
    then show ?thesis using u k1 by simp
  qed
qed

section \<open>The life of a connection\<close>

lemma free_segments_live: "mem_live (kcp_mem (free_segments segs k)) = mem_live (kcp_mem k) - int (length segs)"
  using free_segments_form [of segs k] by auto

lemma free_segments_fields [simp]:
  "snd_buf (free_segments segs k) = snd_buf k" "rcv_buf (free_segments segs k) = rcv_buf k"
  "snd_queue (free_segments segs k) = snd_queue k" "rcv_queue (free_segments segs k) = rcv_queue k"
  "ackblock (free_segments segs k) = ackblock k"
  using free_segments_form [of segs k] by auto

lemma release_live: "mem_live (ikcp_release k) = owed k"
  by (simp add: ikcp_release_def Let_def ikcp_free_def kvstore_free_live free_segments_live owed_def kcp_blocks_def acklist_ptr_def)

text \<open>What a program does with a connection; sending, receiving and input take the lengths as they are.\<close>

datatype kcp_op = Op_Send bytes | Op_Recv nat | Op_Input bytes | Op_Update u32 | Op_Flush

definition kcp_do :: "kcp_op \<Rightarrow> ikcpcb \<Rightarrow> (bytes list \<times> ikcpcb) res" where
  "kcp_do op k =
     (case op of
        Op_Send msg \<Rightarrow> rbind (ikcp_send k msg (int (length msg))) (\<lambda>(_, k). Inr ([], k))
      | Op_Recv len \<Rightarrow> rbind (ikcp_recv k (int len)) (\<lambda>(_, _, k). Inr ([], k))
      | Op_Input d \<Rightarrow> rbind (ikcp_input k d) (\<lambda>(_, k). Inr ([], k))
      | Op_Update now \<Rightarrow> ikcp_update k now
      | Op_Flush \<Rightarrow> ikcp_flush k)"

fun kcp_run :: "kcp_op list \<Rightarrow> ikcpcb \<Rightarrow> (bytes list \<times> ikcpcb) res" where
  "kcp_run [] k = Inr ([], k)"
| "kcp_run (op # ops) k =
     rbind (kcp_do op k) (\<lambda>(d, k). rbind (kcp_run ops k) (\<lambda>(ds, k). Inr (d @ ds, k)))"

definition op_input :: "kcp_op \<Rightarrow> nat" where
  "op_input op = (case op of Op_Input d \<Rightarrow> length d | _ \<Rightarrow> 0)"

definition op_fits :: "kcp_op \<Rightarrow> bool" where
  "op_fits op \<longleftrightarrow> (case op of Op_Send msg \<Rightarrow> length msg < 2 ^ 30 | _ \<Rightarrow> True)"

lemma send_recv_acklist:
  "ikcp_send k msg len = Inr (r, k') \<Longrightarrow> stream k = 0 \<Longrightarrow> acklist k' = acklist k"
  "ikcp_recv k len' = Inr (r, d, k') \<Longrightarrow> acklist k' = acklist k"
proof -
  have loop: "fragment_loop n buf len k s = Inr (r, k') \<Longrightarrow> acklist k' = acklist k" for n buf len k s r k'
  proof (induction n arbitrary: buf len k s)
    case (Suc n)
    have "acklist (snd (ikcp_segment_new sz k)) = acklist k" for sz
      by (simp add: ikcp_segment_new_def ikcp_malloc_def case_prod_beta)
    then show ?case
      using Suc.prems by (auto simp: Let_def case_prod_beta split: if_splits dest!: Suc.IH)
  qed simp
  show "acklist k' = acklist k" if "ikcp_send k msg len = Inr (r, k')" "stream k = 0"
    using that by (auto simp: ikcp_send_def send_fragments_def Let_def simp del: fragment_loop.simps split: if_splits dest!: loop)
  have fs: "acklist (free_segments segs k) = acklist k" for segs k
    using free_segments_form [of segs k] by auto
  show "acklist k' = acklist k" if "ikcp_recv k len' = Inr (r, d, k')"
    using that fs by (auto simp: ikcp_recv_def Let_def case_prod_beta res_simps split: if_splits)
qed

lemma do_keeps:
  assumes ok: "kcp_ok k" and few: "length (acklist k) + op_input op < 2147483648" and fit: "op_fits op"
  shows "only_overflow (kcp_do op k)"
    and "kcp_do op k = Inr (ds, k') \<Longrightarrow>
      keeps k k' \<and> (\<forall>d \<in> set ds. d \<noteq> [] \<and> length d \<le> unat (mtu k)) \<and> length (acklist k') \<le> length (acklist k) + op_input op"
proof -
  have "only_overflow (kcp_do op k) \<and> (\<forall>ds k'. kcp_do op k = Inr (ds, k') \<longrightarrow>
      keeps k k' \<and> (\<forall>d \<in> set ds. d \<noteq> [] \<and> length d \<le> unat (mtu k)) \<and> length (acklist k') \<le> length (acklist k) + op_input op)"
  proof (cases op)
    case (Op_Send msg)
    obtain r k1 where s: "ikcp_send k msg (int (length msg)) = Inr (r, k1)" "keeps k k1"
      using send_keeps [OF ok, of msg] fit Op_Send by (auto simp: op_fits_def)
    moreover have "acklist k1 = acklist k" using send_recv_acklist(1) [OF s(1)] ok by (simp add: kcp_ok_def kcp_shape_def)
    ultimately show ?thesis using Op_Send by (simp add: kcp_do_def)
  next
    case (Op_Recv len)
    obtain r d k1 where s: "ikcp_recv k (int len) = Inr (r, d, k1)" "keeps k k1"
      using recv_keeps [OF ok, of "int len"] by auto
    then show ?thesis using Op_Recv send_recv_acklist(2) [OF s(1)] by (simp add: kcp_do_def)
  next
    case (Op_Input d)
    have few': "length (acklist k) + length d < 2147483648" using few Op_Input by (simp add: op_input_def)
    show ?thesis
      using Op_Input input_keeps [OF ok few'] by (cases "ikcp_input k d") (auto simp: kcp_do_def op_input_def)
  next
    case (Op_Update now)
    then show ?thesis using update_keeps [OF ok, of now] by (auto simp: kcp_do_def)
  next
    case Op_Flush
    then show ?thesis using flush_keeps [OF ok] by (auto simp: kcp_do_def)
  qed
  then show "only_overflow (kcp_do op k)"
    "kcp_do op k = Inr (ds, k') \<Longrightarrow>
      keeps k k' \<and> (\<forall>d \<in> set ds. d \<noteq> [] \<and> length d \<le> unat (mtu k)) \<and> length (acklist k') \<le> length (acklist k) + op_input op"
    by blast+
qed

lemma run_keeps:
  assumes "kcp_ok k" and "length (acklist k) + sum_list (map op_input ops) < 2147483648" and "list_all op_fits ops"
  shows "only_overflow (kcp_run ops k) \<and>
    (\<forall>ds k'. kcp_run ops k = Inr (ds, k') \<longrightarrow> keeps k k' \<and> (\<forall>d \<in> set ds. d \<noteq> [] \<and> length d \<le> unat (mtu k)))"
  using assms
proof (induction ops arbitrary: k)
  case Nil
  then show ?case using keeps_refl by simp
next
  case (Cons op ops)
  have few: "length (acklist k) + op_input op < 2147483648" using Cons.prems(2) by simp
  have fit: "op_fits op" using Cons.prems(3) by simp
  note d = do_keeps [OF Cons.prems(1) few fit]
  show ?case
  proof (cases "kcp_do op k")
    case (Inl e)
    then show ?thesis using d(1) by simp
  next
    case (Inr p)
    obtain ds1 k1 where p: "p = (ds1, k1)" by force
    have k1: "keeps k k1" "\<forall>d \<in> set ds1. d \<noteq> [] \<and> length d \<le> unat (mtu k)" "length (acklist k1) \<le> length (acklist k) + op_input op"
      using d(2) [OF Inr [unfolded p]] by blast+
    have "length (acklist k1) + sum_list (map op_input ops) < 2147483648" using k1(3) Cons.prems(2) by simp
    then have ih: "only_overflow (kcp_run ops k1) \<and> (\<forall>ds k'. kcp_run ops k1 = Inr (ds, k') \<longrightarrow>
        keeps k1 k' \<and> (\<forall>d \<in> set ds. d \<noteq> [] \<and> length d \<le> unat (mtu k1)))"
      using Cons.IH [OF keeps_ok [OF k1(1)]] Cons.prems(3) by simp
    have m: "mtu k1 = mtu k" using k1(1) by (simp add: keeps_def)
    show ?thesis
    proof (cases "kcp_run ops k1")
      case (Inl e)
      then show ?thesis using Inr p ih by simp
    next
      case r: (Inr q)
      obtain ds2 k2 where q: "q = (ds2, k2)" by force
      have "keeps k1 k2 \<and> (\<forall>d \<in> set ds2. d \<noteq> [] \<and> length d \<le> unat (mtu k1))" using ih r q by blast
      then show ?thesis using Inr p r q k1 m keeps_trans [OF k1(1)] by auto
    qed
  qed
qed

text \<open>
  C6: A connection cannot be broken by its peer or its user. From creation on, whatever messages are
  sent, whatever bytes the network delivers - 2^31 in total at most -, in whatever order and however
  often the operations are called: no operation faults, except by the signed overflow of the
  round-trip estimate; every datagram handed to the output callback is non-empty and at most
  \<open>mtu\<close> = 1400 bytes long; and when the connection is released, exactly the memory that was allocated
  for it since its creation has been freed.
\<close>

theorem connection_never_breaks:
  assumes "mem_good h" and "sum_list (map op_input ops) < 2147483648" and "list_all op_fits ops"
  shows "\<exists>k h'. ikcp_create cv h = (Some k, h') \<and>
    (case kcp_run ops (ikcp_setoutput k) of
       Inl e \<Rightarrow> e = Int_Overflow
     | Inr (ds, k') \<Rightarrow> list_all (\<lambda>d. 0 < length d \<and> length d \<le> 1400) ds \<and> mem_live (ikcp_release k') = mem_live h)"
proof -
  let ?h = "snd (kvstore_malloc (unat ((IKCP_MTU_DEF + IKCP_OVERHEAD) * 3)) (snd (kvstore_malloc 296 h)))"
  have h: "mem_good ?h" "mem_live ?h = mem_live h + 2" using assms(1) by (simp_all add: res_simps)
  have c: "ikcp_create cv h = (Some (new_kcp cv ?h), ?h)"
    using assms(1) by (simp add: ikcp_create_def res_simps case_prod_beta)
  let ?k = "ikcp_setoutput (new_kcp cv ?h)"
  have k: "kcp_ok ?k" "owed ?k = mem_live h" "acklist ?k = []" "mtu ?k = 1400"
    using h by (simp_all add: kcp_ok_def kcp_shape_def fits_def owed_def kcp_blocks_def new_kcp_def ikcp_setoutput_def)
  have few: "length (acklist ?k) + sum_list (map op_input ops) < 2147483648" using k(3) assms(2) by simp
  note r = run_keeps [OF k(1) few assms(3)]
  have "case kcp_run ops ?k of Inl e \<Rightarrow> e = Int_Overflow
     | Inr (ds, k') \<Rightarrow> list_all (\<lambda>d. 0 < length d \<and> length d \<le> 1400) ds \<and> mem_live (ikcp_release k') = mem_live h"
  proof (cases "kcp_run ops ?k")
    case (Inl e)
    then show ?thesis using r by simp
  next
    case (Inr p)
    obtain ds k' where p: "p = (ds, k')" by force
    then have "keeps ?k k' \<and> (\<forall>d \<in> set ds. d \<noteq> [] \<and> length d \<le> unat (mtu ?k))" using r Inr by blast
    then show ?thesis using Inr p k by (simp add: list_all_iff release_live keeps_def)
  qed
  then show ?thesis using c by blast
qed

theorem connection_never_breaks_witness:
  "\<exists>k h'. ikcp_create 7 good_mem = (Some k, h') \<and>
    (case kcp_run [Op_Send [1, 2, 3], Op_Update 10, Op_Input (replicate 24 0), Op_Recv 100] (ikcp_setoutput k) of
       Inl e \<Rightarrow> e = Int_Overflow
     | Inr (ds, k') \<Rightarrow> list_all (\<lambda>d. 0 < length d \<and> length d \<le> 1400) ds \<and> mem_live (ikcp_release k') = mem_live good_mem)"
  by (rule connection_never_breaks) (simp_all add: op_input_def op_fits_def)

end
