(* ===== verification/Tunnel.thy ===== *)
theory Tunnel
  imports Prelude
begin

unbundle bit_operations_syntax

text \<open>
  The packets that travel between client and gateway, above KCP (\<open>src/common/tunnel_protocol.h\<close>), and
  the addresses of \<open>src/common/net_utils.cpp\<close>. Packing returns the bytes that it writes, and faults
  when they do not fit into the caller's buffer. The lemmas are the round trips between packing and
  parsing, and that parsing never looks outside the packet.
\<close>

section \<open>Packets\<close>

abbreviation PACKET_CONNECT :: u8 where "PACKET_CONNECT \<equiv> 1"
abbreviation PACKET_DATA :: u8 where "PACKET_DATA \<equiv> 2"
abbreviation PACKET_CLOSE :: u8 where "PACKET_CLOSE \<equiv> 3"
abbreviation PACKET_REGISTER :: u8 where "PACKET_REGISTER \<equiv> 4"
abbreviation PACKET_REGISTERED :: u8 where "PACKET_REGISTERED \<equiv> 5"
abbreviation ROUTE_MAX :: nat where "ROUTE_MAX \<equiv> 255"

text \<open>The bytes of \<open>htons(w)\<close> and \<open>htonl(l)\<close> in memory, and reading them back.\<close>

definition net16 :: "u16 \<Rightarrow> bytes" where
  "net16 w = [ucast (drop_bit 8 w), ucast w]"

definition net32 :: "u32 \<Rightarrow> bytes" where
  "net32 l = [ucast (drop_bit 24 l), ucast (drop_bit 16 l), ucast (drop_bit 8 l), ucast l]"

definition host16 :: "u8 \<Rightarrow> u8 \<Rightarrow> u16" where
  "host16 a b = push_bit 8 (ucast a) OR ucast b"

definition host32 :: "u8 \<Rightarrow> u8 \<Rightarrow> u8 \<Rightarrow> u8 \<Rightarrow> u32" where
  "host32 a b c d = push_bit 24 (ucast a) OR push_bit 16 (ucast b) OR push_bit 8 (ucast c) OR ucast d"

text \<open>
  The result of \<open>memcpy(dst, src, n)\<close> into a buffer with room for \<open>cap\<close> bytes, of which \<open>hd\<close> have been
  written: what the buffer holds.
\<close>

definition memcpy_after :: "nat \<Rightarrow> bytes \<Rightarrow> bytes \<Rightarrow> nat \<Rightarrow> bytes res" where
  "memcpy_after cap head src n =
     (if length src < n \<or> cap < length head + n then Inl Out_Of_Bounds else Inr (head @ take n src))"

definition pack_connect :: "nat \<Rightarrow> bytes \<Rightarrow> u8 \<Rightarrow> bytes res" where
  "pack_connect cap route route_len = memcpy_after cap [PACKET_CONNECT, route_len] route (unat route_len)"

definition pack_data :: "nat \<Rightarrow> bytes \<Rightarrow> u16 \<Rightarrow> bytes res" where
  "pack_data cap data len = memcpy_after cap (PACKET_DATA # net16 len) data (unat len)"

definition pack_close :: bytes where
  "pack_close = [PACKET_CLOSE]"

definition pack_register :: bytes where
  "pack_register = [PACKET_REGISTER]"

definition pack_registered :: "u32 \<Rightarrow> bytes" where
  "pack_registered cv = PACKET_REGISTERED # net32 cv"

fun read_registered :: "bytes \<Rightarrow> u32 option" where
  "read_registered (t # a # b # c # d # rest) =
     (if t \<noteq> PACKET_REGISTERED then None else Some (host32 a b c d))"
| "read_registered _ = None"

text \<open>
  \<open>tunnel::parse\<close>: the type and, for DATA, the payload (\<open>data\<close> and \<open>len\<close>); \<^term>\<open>None\<close> is the result
  \<open>false\<close>.
\<close>

record packet =
  ptype :: u8
  pdata :: "bytes option"

definition parse :: "bytes \<Rightarrow> packet option" where
  "parse buf =
     (if length buf < 1 then None
      else if buf ! 0 = PACKET_DATA then
        if length buf < 3 then None
        else let len = unat (host16 (buf ! 1) (buf ! 2))
             in if length buf < 3 + len then None
                else Some \<lparr>ptype = PACKET_DATA, pdata = Some (take len (drop 3 buf))\<rparr>
      else if buf ! 0 = PACKET_CONNECT then
        if length buf < 2 then None
        else if length buf < 2 + unat (buf ! 1) then None
        else Some \<lparr>ptype = PACKET_CONNECT, pdata = None\<rparr>
      else Some \<lparr>ptype = buf ! 0, pdata = None\<rparr>)"

text \<open>The route of a CONNECT packet, as the characters in \<open>out\<close> before the terminating NUL.\<close>

definition read_connect_route :: "bytes \<Rightarrow> nat \<Rightarrow> bytes res" where
  "read_connect_route buf cap =
     (if length buf < 2 then Inl Out_Of_Bounds
      else
        let rl = unat (buf ! 1);
            rl = (if cap \<le> rl then cap - 1 else rl)
        in if length buf < 2 + rl then Inl Out_Of_Bounds else Inr (take rl (drop 2 buf)))"

section \<open>Addresses and time\<close>

text \<open>An IPv4 endpoint, address and port in network byte order.\<close>

record sockaddr =
  sin_addr :: u32
  sin_port :: u16

definition same_addr :: "sockaddr \<Rightarrow> sockaddr \<Rightarrow> bool" where
  "same_addr a b \<longleftrightarrow> sin_addr a = sin_addr b \<and> sin_port a = sin_port b"

text \<open>\<open>now32\<close> truncates the 64-bit clock.\<close>

definition now32 :: "u64 \<Rightarrow> u32" where
  "now32 now = ucast now"

definition htons :: "u16 \<Rightarrow> u16" where
  "htons w = push_bit 8 w OR drop_bit 8 w"

text \<open>\<open>strtoul(s, NULL, 10)\<close>: leading white space, a sign, the digits; saturating at \<open>ULONG_MAX\<close>.\<close>

abbreviation ULONG_MAX :: nat where "ULONG_MAX \<equiv> 18446744073709551615"

definition is_digit :: "char \<Rightarrow> bool" where
  "is_digit c \<longleftrightarrow> 48 \<le> (of_char c :: nat) \<and> (of_char c :: nat) \<le> 57"

definition is_space :: "char \<Rightarrow> bool" where
  "is_space c \<longleftrightarrow> (of_char c :: nat) = 32 \<or> 9 \<le> (of_char c :: nat) \<and> (of_char c :: nat) \<le> 13"

definition digits_value :: "string \<Rightarrow> nat" where
  "digits_value s = foldl (\<lambda>n c. n * 10 + (of_char c - 48)) 0 s"

definition strtoul :: "string \<Rightarrow> u64" where
  "strtoul s =
     (let s = dropWhile is_space s;
          neg = (s \<noteq> [] \<and> hd s = CHR ''-'');
          s = (if s \<noteq> [] \<and> (hd s = CHR ''-'' \<or> hd s = CHR ''+'') then tl s else s);
          n = digits_value (takeWhile is_digit s)
      in if ULONG_MAX < n then word_of_nat ULONG_MAX
         else if neg then - word_of_nat n else word_of_nat n)"

text \<open>
  \<open>node_to_addr\<close> splits at the last colon. \<open>inet_pton\<close>, of the C library, is a parameter: the address
  for a dotted quad, \<^term>\<open>None\<close> when it does not return 1.
\<close>

definition rfind_split :: "char \<Rightarrow> string \<Rightarrow> (string \<times> string) option" where
  "rfind_split c s =
     (if c \<in> set s then Some (rev (tl (dropWhile (\<lambda>x. x \<noteq> c) (rev s))), rev (takeWhile (\<lambda>x. x \<noteq> c) (rev s)))
      else None)"

definition c_str :: "string \<Rightarrow> string" where
  "c_str s = takeWhile (\<lambda>c. c \<noteq> NUL) s"

definition node_to_addr :: "(string \<Rightarrow> u32 option) \<Rightarrow> string \<Rightarrow> sockaddr option" where
  "node_to_addr inet_pton node =
     (case rfind_split (CHR '':'') node of
        None \<Rightarrow> None
      | Some (ip, port) \<Rightarrow>
          (case inet_pton (c_str ip) of
             None \<Rightarrow> None
           | Some a \<Rightarrow> Some \<lparr>sin_addr = a, sin_port = htons (ucast (strtoul (c_str port)))\<rparr>))"

section \<open>Round trips\<close>

lemma host16_net16 [wire_simps]: "net16 w = [a, b] \<Longrightarrow> host16 a b = w"
  by (auto simp: net16_def host16_def)
     (rule bit_word_eqI; auto simp: bit_or_iff bit_push_bit_iff bit_ucast_iff bit_drop_bit_eq; presburger)

lemma bits_below_32: "n < 32 \<Longrightarrow> n < 8 \<or> 8 \<le> n \<and> n < 16 \<or> 16 \<le> n \<and> n < 24 \<or> 24 \<le> n \<and> n < (32 :: nat)"
  by linarith

lemma host32_net32 [wire_simps]:
  "host32 (ucast (drop_bit 24 l)) (ucast (drop_bit 16 l)) (ucast (drop_bit 8 l)) (ucast l) = l"
proof (rule bit_word_eqI)
  fix n assume "n < LENGTH(32)"
  then have n: "n < 32" by simp
  show "bit (host32 (ucast (drop_bit 24 l)) (ucast (drop_bit 16 l)) (ucast (drop_bit 8 l)) (ucast l)) n = bit l n"
    using bits_below_32 [OF n] n
    by (auto simp: host32_def bit_or_iff bit_push_bit_iff bit_ucast_iff bit_drop_bit_eq)
qed

lemma net16_length [wire_simps]: "length (net16 w) = 2"
  by (simp add: net16_def)

lemma memcpy_after_whole:
  "length head + length src \<le> cap \<Longrightarrow> n = length src \<Longrightarrow> memcpy_after cap head src n = Inr (head @ src)"
  by (simp add: memcpy_after_def)

lemma unat_word_of_nat_u16 [simp]: "n < 65536 \<Longrightarrow> unat (word_of_nat n :: u16) = n"
  by (simp add: unsigned_of_nat take_bit_nat_eq_self)

lemma unat_word_of_nat_u8 [simp]: "n < 256 \<Longrightarrow> unat (word_of_nat n :: u8) = n"
  by (simp add: unsigned_of_nat take_bit_nat_eq_self)

lemma parse_pack_data:
  assumes "length data < 65536" and "3 + length data \<le> cap"
  obtains pkt where "pack_data cap data (word_of_nat (length data)) = Inr pkt" "length pkt = 3 + length data"
    "\<And>more. parse (pkt @ more) = Some \<lparr>ptype = PACKET_DATA, pdata = Some data\<rparr>"
proof -
  let ?l = "word_of_nat (length data) :: u16"
  obtain a b where ab: "net16 ?l = [a, b]" by (simp add: net16_def)
  have h: "unat (host16 a b) = length data" using host16_net16 [OF ab] assms by simp
  have "pack_data cap data ?l = Inr ([PACKET_DATA, a, b] @ data)"
    using assms ab by (simp add: pack_data_def memcpy_after_whole)
  moreover have "parse (([PACKET_DATA, a, b] @ data) @ more) = Some \<lparr>ptype = PACKET_DATA, pdata = Some data\<rparr>" for more
    using h by (simp add: parse_def)
  ultimately show thesis using that by simp
qed

lemma parse_pack_connect:
  assumes "length route \<le> ROUTE_MAX" and "2 + length route \<le> cap"
  obtains pkt where "pack_connect cap route (word_of_nat (length route)) = Inr pkt" "length pkt = 2 + length route"
    "parse pkt = Some \<lparr>ptype = PACKET_CONNECT, pdata = None\<rparr>"
    "read_connect_route pkt (ROUTE_MAX + 1) = Inr route"
proof -
  let ?l = "word_of_nat (length route) :: u8"
  have l: "unat ?l = length route" using assms by simp
  have "pack_connect cap route ?l = Inr ([PACKET_CONNECT, ?l] @ route)"
    using assms l by (simp add: pack_connect_def memcpy_after_whole)
  moreover have "parse ([PACKET_CONNECT, ?l] @ route) = Some \<lparr>ptype = PACKET_CONNECT, pdata = None\<rparr>"
    using l by (simp add: parse_def)
  moreover have "read_connect_route ([PACKET_CONNECT, ?l] @ route) (ROUTE_MAX + 1) = Inr route"
    using l assms by (simp add: read_connect_route_def Let_def)
  ultimately show thesis using that [of "[PACKET_CONNECT, ?l] @ route"] by simp
qed

lemma read_pack_registered [wire_simps]: "read_registered (pack_registered cv) = Some cv"
  by (simp add: pack_registered_def net32_def host32_net32)

text \<open>A packet that parses as CONNECT has its route inside it, and a DATA packet its payload.\<close>

lemma parse_connect_route:
  assumes "parse buf = Some p" and "ptype p = PACKET_CONNECT"
  shows "\<exists>route. read_connect_route buf (ROUTE_MAX + 1) = Inr route \<and> route = take (unat (buf ! 1)) (drop 2 buf)"
proof -
  have "unat (buf ! 1) < 256" using unsigned_less [of "buf ! 1", where ?'a = nat] by simp
  then show ?thesis
    using assms by (auto simp: parse_def read_connect_route_def Let_def split: if_splits)
qed

lemma parse_data_some: "parse buf = Some p \<Longrightarrow> (ptype p = PACKET_DATA) = (pdata p \<noteq> None)"
  by (auto simp: parse_def Let_def split: if_splits)

text \<open>
  C29: The tunnel packets survive the trip. A payload of at most 65535 bytes that is packed as DATA, a
  route of at most 255 bytes packed as CONNECT and the number packed as REGISTERED come out of the
  parsing functions as they went in, and the DATA packet also when other bytes follow it in the buffer.
\<close>

theorem packets_round_trip:
  assumes "length data < 65536" and "3 + length data \<le> cap"
    and "length route \<le> ROUTE_MAX" and "2 + length route \<le> cap"
  shows "(\<exists>pkt. pack_data cap data (word_of_nat (length data)) = Inr pkt \<and>
            (\<forall>more. parse (pkt @ more) = Some \<lparr>ptype = PACKET_DATA, pdata = Some data\<rparr>)) \<and>
         (\<exists>pkt. pack_connect cap route (word_of_nat (length route)) = Inr pkt \<and>
            parse pkt = Some \<lparr>ptype = PACKET_CONNECT, pdata = None\<rparr> \<and>
            read_connect_route pkt (ROUTE_MAX + 1) = Inr route) \<and>
         read_registered (pack_registered cv) = Some cv"
  using parse_pack_data [OF assms(1,2)] parse_pack_connect [OF assms(3,4)] read_pack_registered [of cv]
  by (metis (no_types, lifting))

theorem packets_round_trip_witness:
  "(\<exists>pkt. pack_data 8 [7, 8, 9] (word_of_nat (length [7, 8, 9 :: u8])) = Inr pkt \<and>
      (\<forall>more. parse (pkt @ more) = Some \<lparr>ptype = PACKET_DATA, pdata = Some [7, 8, 9]\<rparr>)) \<and>
   (\<exists>pkt. pack_connect 8 [65] (word_of_nat (length [65 :: u8])) = Inr pkt \<and>
      parse pkt = Some \<lparr>ptype = PACKET_CONNECT, pdata = None\<rparr> \<and>
      read_connect_route pkt (ROUTE_MAX + 1) = Inr [65]) \<and>
   read_registered (pack_registered 1000) = Some 1000"
  using packets_round_trip [of "[7, 8, 9]" 8 "[65]" 1000] by simp

end
