(* ===== verification/MemPool.thy ===== *)
theory MemPool
  imports Prelude "HOL-Library.Multiset"
begin

text \<open>
  The gateway's pool of 4096 blocks of 2048 bytes (\<open>src/gateway/mem_pool.h\<close>). A free block holds the
  link to the next free block in its first bytes; a block that was handed out holds whatever its user
  wrote there. Blocks are named by their index. The locale \<open>block_pool\<close> is what the gateway relies
  on; the pool is shown to provide it.
\<close>

section \<open>The pool\<close>

abbreviation POOL_BLOCK :: nat where "POOL_BLOCK \<equiv> 2048"
abbreviation POOL_CAP :: nat where "POOL_CAP \<equiv> 4096"

datatype cell = Link "nat option" | Data bytes

record pool =
  storage :: "nat \<Rightarrow> cell"
  free_head :: "nat option"

definition pool_free :: "nat option \<Rightarrow> pool \<Rightarrow> pool" where
  "pool_free b p =
     (case b of
        None \<Rightarrow> p
      | Some b \<Rightarrow> p\<lparr>storage := (storage p)(b := Link (free_head p)), free_head := Some b\<rparr>)"

text \<open>The constructor links the blocks in the order of their addresses.\<close>

definition pool_init :: "nat \<Rightarrow> pool" where
  "pool_init n =
     fold (\<lambda>i p. p\<lparr>storage := (storage p)(i := Link (free_head p)), free_head := Some i\<rparr>) [0..<n]
       \<lparr>storage = (\<lambda>_. Data []), free_head = None\<rparr>"

definition pool_new :: pool where
  "pool_new = pool_init POOL_CAP"

text \<open>Taking a block reads its link, which is garbage when the block's user wrote to it after freeing it.\<close>

definition pool_alloc :: "pool \<Rightarrow> (nat option \<times> pool) res" where
  "pool_alloc p =
     (case free_head p of
        None \<Rightarrow> Inr (None, p)
      | Some b \<Rightarrow>
          (case storage p b of
             Data _ \<Rightarrow> Inl Use_After_Free
           | Link next_free \<Rightarrow> Inr (Some b, p\<lparr>free_head := next_free\<rparr>)))"

text \<open>A user's write into a block.\<close>

definition pool_write :: "nat \<Rightarrow> bytes \<Rightarrow> pool \<Rightarrow> pool" where
  "pool_write b data p = p\<lparr>storage := (storage p)(b := Data data)\<rparr>"

section \<open>The interface\<close>

locale block_pool =
  fixes alloc :: "'p \<Rightarrow> (nat option \<times> 'p) res"
    and release :: "nat option \<Rightarrow> 'p \<Rightarrow> 'p"
    and put :: "nat \<Rightarrow> bytes \<Rightarrow> 'p \<Rightarrow> 'p"
    and rep :: "'p \<Rightarrow> nat list \<Rightarrow> bool"
    and cap :: nat
  assumes alloc_empty: "rep p [] \<Longrightarrow> alloc p = Inr (None, p)"
    and alloc_next: "rep p (b # bs) \<Longrightarrow> \<exists>p'. alloc p = Inr (Some b, p') \<and> rep p' bs"
    and release_null: "release None p = p"
    and release_block: "rep p bs \<Longrightarrow> b < cap \<Longrightarrow> b \<notin> set bs \<Longrightarrow> rep (release (Some b) p) (b # bs)"
    and write_block: "rep p bs \<Longrightarrow> b \<notin> set bs \<Longrightarrow> rep (put b data p) bs"
    and rep_distinct: "rep p bs \<Longrightarrow> distinct bs"
    and rep_bound: "rep p bs \<Longrightarrow> b \<in> set bs \<Longrightarrow> b < cap"
begin

text \<open>A block that is borrowed, written and returned leaves the pool as it was.\<close>

lemma borrow:
  assumes "rep p (b # bs)"
  obtains p' where "alloc p = Inr (Some b, p')" "rep p' bs" "b \<notin> set bs" "b < cap"
    "\<And>data q. rep q bs \<Longrightarrow> rep (release (Some b) (put b data q)) (b # bs)"
proof -
  obtain p' where p': "alloc p = Inr (Some b, p')" "rep p' bs" using alloc_next [OF assms] by blast
  have b: "b \<notin> set bs" "b < cap" using rep_distinct [OF assms] rep_bound [OF assms] by auto
  have "rep (release (Some b) (put b data q)) (b # bs)" if "rep q bs" for data q
    using write_block [OF that b(1)] b by (intro release_block)
  then show thesis using that p' b by blast
qed

text \<open>An allocation keeps the blocks in hand and the free ones apart.\<close>

lemma alloc_apart:
  assumes "rep p bs" and "distinct (held @ bs)"
  obtains b p' bs' where "alloc p = Inr (b, p')" "rep p' bs'"
    "mset ((case b of None \<Rightarrow> held | Some b \<Rightarrow> b # held) @ bs') = mset (held @ bs)"
    "b = None \<longleftrightarrow> bs = []"
proof (cases bs)
  case Nil
  then show ?thesis using that [of None p "[]"] assms alloc_empty by simp
next
  case (Cons b rest)
  then obtain p' where "alloc p = Inr (Some b, p')" "rep p' rest"
    using alloc_next assms by blast
  then show ?thesis using that [of "Some b" p' rest] Cons by simp
qed

lemma alloc_total: "rep p bs \<Longrightarrow> \<exists>b p'. alloc p = Inr (b, p')"
  using alloc_empty alloc_next by (cases bs) blast+

end

section \<open>The pool provides it\<close>

fun chain :: "(nat \<Rightarrow> cell) \<Rightarrow> nat option \<Rightarrow> nat list \<Rightarrow> bool" where
  "chain st h [] \<longleftrightarrow> h = None"
| "chain st h (b # bs) \<longleftrightarrow> h = Some b \<and> (case st b of Link n \<Rightarrow> chain st n bs | Data _ \<Rightarrow> False)"

definition pool_rep :: "pool \<Rightarrow> nat list \<Rightarrow> bool" where
  "pool_rep p bs \<longleftrightarrow> chain (storage p) (free_head p) bs \<and> distinct bs \<and> (\<forall>b \<in> set bs. b < POOL_CAP)"

lemma chain_update [simp]: "b \<notin> set bs \<Longrightarrow> chain (st(b := c)) h bs = chain st h bs"
  by (induction bs arbitrary: h) (auto split: cell.splits)

interpretation blocks: block_pool pool_alloc pool_free pool_write pool_rep POOL_CAP
proof unfold_locales
  fix p b bs assume "pool_rep p (b # bs)"
  then show "\<exists>p'. pool_alloc p = Inr (Some b, p') \<and> pool_rep p' bs"
    by (auto simp: pool_rep_def pool_alloc_def split: cell.splits)
qed (auto simp: pool_rep_def pool_alloc_def pool_free_def pool_write_def)

lemma pool_init_rep: "n \<le> POOL_CAP \<Longrightarrow> pool_rep (pool_init n) (rev [0..<n])"
  by (induction n) (auto simp: pool_rep_def pool_init_def)

lemma pool_new_rep: "pool_rep pool_new (rev [0..<POOL_CAP])"
  unfolding pool_new_def by (rule pool_init_rep) simp

section \<open>Clients of the pool\<close>

text \<open>
  A client that allocates blocks, writes to blocks it holds and returns blocks it holds. Blocks in
  hand are named by their position in the list \<open>held\<close>.
\<close>

datatype pool_cmd = Pool_Alloc | Pool_Write nat bytes | Pool_Free nat

fun use_pool :: "pool_cmd list \<Rightarrow> nat list \<Rightarrow> pool \<Rightarrow> (nat list \<times> pool) res" where
  "use_pool [] held p = Inr (held, p)"
| "use_pool (Pool_Alloc # cmds) held p =
     rbind (pool_alloc p) (\<lambda>(b, p). use_pool cmds (case b of None \<Rightarrow> held | Some b \<Rightarrow> b # held) p)"
| "use_pool (Pool_Write i data # cmds) held p =
     use_pool cmds held (if i < length held then pool_write (held ! i) data p else p)"
| "use_pool (Pool_Free i # cmds) held p =
     (if i < length held then use_pool cmds (take i held @ drop (Suc i) held) (pool_free (Some (held ! i)) p)
      else use_pool cmds held p)"

lemma distinct_mset_eq: "mset xs = mset ys \<Longrightarrow> distinct xs = distinct ys"
  by (metis mset_eq_imp_distinct_iff)

lemma mset_remove_nth: "i < length xs \<Longrightarrow> mset xs = add_mset (xs ! i) (mset (take i xs @ drop (Suc i) xs))"
  by (metis id_take_nth_drop mset.simps(2) mset_append union_mset_add_mset_right)

lemma use_pool_partition:
  assumes "pool_rep p bs" and "mset (held @ bs) = mset [0..<POOL_CAP]"
  shows "\<exists>held' p' bs'. use_pool cmds held p = Inr (held', p') \<and> pool_rep p' bs' \<and>
           mset (held' @ bs') = mset [0..<POOL_CAP]"
  using assms
proof (induction cmds held p arbitrary: bs rule: use_pool.induct)
  case (2 cmds held p)
  have d: "distinct (held @ bs)" using distinct_mset_eq [OF 2(3)] by simp
  obtain b p' bs' where a: "pool_alloc p = Inr (b, p')" "pool_rep p' bs'"
    "mset ((case b of None \<Rightarrow> held | Some b \<Rightarrow> b # held) @ bs') = mset (held @ bs)"
    using blocks.alloc_apart [OF 2(2) d] by metis
  show ?case using 2(1) [OF a(2), of b] a 2(3) by simp
next
  case (3 i data cmds held p)
  have d: "distinct (held @ bs)" using distinct_mset_eq [OF 3(3)] by simp
  have "pool_rep (if i < length held then pool_write (held ! i) data p else p) bs"
    using blocks.write_block [OF 3(2)] d 3(2) by (auto simp: nth_mem disjoint_iff)
  then show ?case using 3(1) 3(3) by simp
next
  case (4 i cmds held p)
  have d: "distinct (held @ bs)" using distinct_mset_eq [OF 4(4)] by simp
  show ?case
  proof (cases "i < length held")
    case True
    have "held ! i \<in> set (held @ bs)" using True by simp
    then have "held ! i < POOL_CAP" using mset_eq_setD [OF 4(4)] by auto
    moreover have "held ! i \<notin> set bs" using d True nth_mem by fastforce
    ultimately have "pool_rep (pool_free (Some (held ! i)) p) (held ! i # bs)"
      using blocks.release_block [OF 4(3)] by blast
    moreover have "mset ((take i held @ drop (Suc i) held) @ held ! i # bs) = mset [0..<POOL_CAP]"
      using 4(4) mset_remove_nth [OF True] by (simp add: add.assoc)
    ultimately show ?thesis using 4(1) [OF True] True by simp
  qed (use 4 in simp)
qed auto

text \<open>
  C30: The pool never hands out a block twice. Whatever a client does with the blocks it is given
  - writing over the links inside them included - and in whatever order it returns them, no call
  faults, and the blocks in hand and the free blocks together are the 4096 blocks of the pool, each
  once. An allocation returns NULL exactly when the client holds all of them.
\<close>

theorem pool_blocks_are_exclusive:
  "\<exists>held p bs. use_pool cmds [] pool_new = Inr (held, p) \<and> pool_rep p bs \<and>
     mset (held @ bs) = mset [0..<POOL_CAP] \<and>
     (\<exists>b p'. pool_alloc p = Inr (b, p') \<and> (b = None \<longleftrightarrow> length held = POOL_CAP))"
proof -
  have "mset ([] @ rev [0..<POOL_CAP]) = mset [0..<POOL_CAP]" by simp
  then obtain held p bs where u: "use_pool cmds [] pool_new = Inr (held, p)" "pool_rep p bs"
      "mset (held @ bs) = mset [0..<POOL_CAP]"
    using use_pool_partition [OF pool_new_rep] by blast
  have "length held + length bs = POOL_CAP"
    using arg_cong [OF u(3), of size] by simp
  moreover have "distinct (held @ bs)" using distinct_mset_eq [OF u(3)] by simp
  then obtain b p' where "pool_alloc p = Inr (b, p')" "b = None \<longleftrightarrow> bs = []"
    using blocks.alloc_apart [OF u(2)] by metis
  moreover have "bs = [] \<longleftrightarrow> length bs = 0" by simp
  ultimately show ?thesis using u by (metis add_cancel_right_right)
qed

end
