(* ===== verification/Sessions.thy ===== *)
theory Sessions
  imports Prelude KcpBase KcpSend KcpRecv KcpAck KcpInput KcpFlush Tunnel
begin

text \<open>
  The gateway's sessions: \<open>src/gateway/kcp_session.cpp\<close>, \<open>src/gateway/session.cpp\<close> and
  \<open>src/gateway/session_manager.cpp\<close>. A session is named by its conversation number, which stands for
  the \<open>Session *\<close> that the source passes around: the nodes of the hash table do not move. The lemmas
  show that the tables stay consistent, so that no handler follows a pointer to a session that is gone.
\<close>

section \<open>One KCP connection per session\<close>

record kcp_session =
  ks_kcp :: "ikcpcb option"
  ks_peer :: sockaddr
  ks_fd :: int

definition kcp_session_init :: "u32 \<Rightarrow> sockaddr \<Rightarrow> int \<Rightarrow> mem \<Rightarrow> (kcp_session \<times> mem) res" where
  "kcp_session_init cv peer fd m =
     (case ikcp_create cv m of
        (None, m) \<Rightarrow> Inl Null_Deref
      | (Some k, m) \<Rightarrow>
          let k = ikcp_setoutput k;
              (_, k) = ikcp_nodelay k 1 10 2 1
          in Inr (\<lparr>ks_kcp = Some k, ks_peer = peer, ks_fd = fd\<rparr>, m))"

definition kcp_session_release :: "kcp_session \<Rightarrow> mem \<Rightarrow> kcp_session \<times> mem" where
  "kcp_session_release ks m =
     (case ks_kcp ks of
        None \<Rightarrow> (ks, m)
      | Some k \<Rightarrow> (ks\<lparr>ks_kcp := None\<rparr>, ikcp_release (k\<lparr>kcp_mem := m\<rparr>)))"

record session =
  s_conv :: u32
  s_kcp :: kcp_session
  client_addr :: sockaddr
  target_addr :: sockaddr
  target_fd :: int
  dying :: bool
  last_active :: u64

abbreviation no_addr :: sockaddr where "no_addr \<equiv> \<lparr>sin_addr = 0, sin_port = 0\<rparr>"

definition Session :: "u32 \<Rightarrow> sockaddr \<Rightarrow> session" where
  "Session c addr =
     \<lparr>s_conv = c, s_kcp = \<lparr>ks_kcp = None, ks_peer = no_addr, ks_fd = - 1\<rparr>, client_addr = addr,
      target_addr = no_addr, target_fd = - 1, dying = False, last_active = 0\<rparr>"

section \<open>The session manager\<close>

text \<open>
  \<open>sessions\<close> lists the hash table in the order of its iteration. \<open>watched\<close> are the target sockets that
  epoll waits on, \<open>tick_ms\<close> is the period of the timer, and \<open>heap\<close> is the process's allocator.
\<close>

record manager =
  sessions :: "(u32 \<times> session) list"
  fd_to_session :: "(int \<times> u32) list"
  to_erase :: "u32 list"
  next_conv :: u32
  idle_ms :: u64
  last_idle_sweep :: u64
  mgr_client_fd :: int
  watched :: "int list"
  tick_ms :: nat
  heap :: mem

definition new_manager :: "int \<Rightarrow> mem \<Rightarrow> manager" where
  "new_manager fd m =
     \<lparr>sessions = [], fd_to_session = [], to_erase = [], next_conv = 1000, idle_ms = 30000,
      last_idle_sweep = 0, mgr_client_fd = fd, watched = [], tick_ms = 0, heap = m\<rparr>"

text \<open>Reading and writing a session through its pointer.\<close>

definition session_at :: "manager \<Rightarrow> u32 \<Rightarrow> session res" where
  "session_at m c = (case map_of (sessions m) c of None \<Rightarrow> Inl Use_After_Free | Some s \<Rightarrow> Inr s)"

definition put_session :: "session \<Rightarrow> manager \<Rightarrow> manager" where
  "put_session s m = m\<lparr>sessions := map (\<lambda>(k, x). if k = s_conv s then (k, s) else (k, x)) (sessions m)\<rparr>"

fun for_each_active :: "(session \<Rightarrow> 'st \<Rightarrow> (session \<times> 'st) res) \<Rightarrow> (u32 \<times> session) list \<Rightarrow> 'st \<Rightarrow>
    ((u32 \<times> session) list \<times> 'st) res" where
  "for_each_active fn [] st = Inr ([], st)"
| "for_each_active fn ((c, s) # ss) st =
     rbind (if dying s then Inr (s, st) else fn s st) (\<lambda>(s, st).
     rbind (for_each_active fn ss st) (\<lambda>(ss, st). Inr ((c, s) # ss, st)))"

definition mgr_empty :: "manager \<Rightarrow> bool" where
  "mgr_empty m \<longleftrightarrow> sessions m = []"

definition set_idle_ms :: "u64 \<Rightarrow> manager \<Rightarrow> manager" where
  "set_idle_ms ms m = m\<lparr>idle_ms := ms\<rparr>"

text \<open>\<open>EventLoop::sync_timer\<close>, which the manager calls back: 5 ms while there are sessions.\<close>

definition sync_timer :: "manager \<Rightarrow> manager" where
  "sync_timer m = m\<lparr>tick_ms := (if mgr_empty m then 0 else 5)\<rparr>"

partial_function (option) alloc_conv :: "u32 \<Rightarrow> (u32 \<times> session) list \<Rightarrow> (u32 \<times> u32) option" where
  "alloc_conv nxt ss = (if map_of ss nxt = None then Some (nxt, nxt + 1) else alloc_conv (nxt + 1) ss)"

definition pending_from :: "sockaddr \<Rightarrow> session \<Rightarrow> bool" where
  "pending_from src s \<longleftrightarrow> \<not> (dying s \<or> 0 \<le> target_fd s) \<and> same_addr (client_addr s) src"

text \<open>\<open>register_client\<close>, with the datagram that it sends back.\<close>

definition register_client :: "sockaddr \<Rightarrow> manager \<Rightarrow> (bytes \<times> manager) res" where
  "register_client src m =
     (case find (\<lambda>(_, s). pending_from src s) (sessions m) of
        Some (_, s) \<Rightarrow> Inr (pack_registered (s_conv s), m)
      | None \<Rightarrow>
          (case alloc_conv (next_conv m) (sessions m) of
             None \<Rightarrow> Inl Diverges
           | Some (cv, nxt) \<Rightarrow>
               rbind (kcp_session_init cv src (mgr_client_fd m) (heap m)) (\<lambda>(ks, h).
                 Inr (pack_registered cv,
                      sync_timer (m\<lparr>sessions := sessions m @ [(cv, (Session cv src)\<lparr>s_kcp := ks\<rparr>)],
                                    next_conv := nxt, heap := h\<rparr>)))))"

definition lookup :: "sockaddr \<Rightarrow> bytes \<Rightarrow> manager \<Rightarrow> u32 option res" where
  "lookup src pkt m =
     rbind (ikcp_getconv pkt) (\<lambda>cv.
       Inr (case map_of (sessions m) cv of
              None \<Rightarrow> None
            | Some s \<Rightarrow> if same_addr (client_addr s) src then Some cv else None))"

text \<open>\<open>open_target\<close>, given what \<open>socket\<close> returns.\<close>

definition open_target :: "int \<Rightarrow> session \<Rightarrow> manager \<Rightarrow> bool \<times> manager" where
  "open_target fd s m =
     (let m = put_session (s\<lparr>target_fd := fd\<rparr>) m
      in if fd < 0 then (False, m)
         else (True, m\<lparr>watched := fd # watched m,
                       fd_to_session := (if map_of (fd_to_session m) fd = None
                                         then (fd, s_conv s) # fd_to_session m else fd_to_session m)\<rparr>))"

definition by_fd :: "int \<Rightarrow> manager \<Rightarrow> u32 option" where
  "by_fd fd m = map_of (fd_to_session m) fd"

definition mark_dying :: "session \<Rightarrow> manager \<Rightarrow> manager" where
  "mark_dying s m = (put_session (s\<lparr>dying := True\<rparr>) m)\<lparr>to_erase := to_erase m @ [s_conv s]\<rparr>"

definition teardown_pending :: "manager \<Rightarrow> bool" where
  "teardown_pending m \<longleftrightarrow> to_erase m \<noteq> []"

definition teardown_one :: "u32 \<Rightarrow> manager \<Rightarrow> manager" where
  "teardown_one cv m =
     (case map_of (sessions m) cv of
        None \<Rightarrow> m
      | Some s \<Rightarrow>
          let m = (if 0 \<le> target_fd s
                   then m\<lparr>watched := removeAll (target_fd s) (watched m),
                          fd_to_session := filter (\<lambda>(fd, _). fd \<noteq> target_fd s) (fd_to_session m)\<rparr>
                   else m)
          in m\<lparr>sessions := filter (\<lambda>(k, _). k \<noteq> cv) (sessions m),
               heap := snd (kcp_session_release (s_kcp s) (heap m))\<rparr>)"

definition flush_teardown :: "manager \<Rightarrow> manager" where
  "flush_teardown m = sync_timer ((fold teardown_one (to_erase m) m)\<lparr>to_erase := []\<rparr>)"

definition is_idle :: "u64 \<Rightarrow> u64 \<Rightarrow> session \<Rightarrow> bool" where
  "is_idle now limit s \<longleftrightarrow> \<not> dying s \<and> limit < now - last_active s"

definition sweep_idle :: "u64 \<Rightarrow> manager \<Rightarrow> manager" where
  "sweep_idle now m =
     (if now - last_idle_sweep m < 1000 then m
      else
        m\<lparr>last_idle_sweep := now,
          sessions := map (\<lambda>(k, s). (k, if is_idle now (idle_ms m) s then s\<lparr>dying := True\<rparr> else s)) (sessions m),
          to_erase := to_erase m @ map (\<lambda>(_, s). s_conv s) (filter (\<lambda>(_, s). is_idle now (idle_ms m) s) (sessions m))\<rparr>)"

section \<open>Conversation numbers\<close>

text \<open>The search for a free number ends while not all of them are taken.\<close>

lemma free_number:
  fixes nxt :: u32
  assumes "length ss < 4294967296"
  obtains k where "k \<le> length ss" "map_of ss (nxt + word_of_nat k) = None" "\<And>j. j < k \<Longrightarrow> map_of ss (nxt + word_of_nat j) \<noteq> None"
proof -
  let ?f = "\<lambda>k. nxt + word_of_nat k :: u32"
  have "inj_on ?f {..length ss}"
  proof (rule inj_onI)
    fix i j assume ij: "i \<in> {..length ss}" "j \<in> {..length ss}" "?f i = ?f j"
    then have "unat (word_of_nat i :: u32) = unat (word_of_nat j :: u32)" by simp
    then show "i = j" using ij(1,2) assms by (metis atMost_iff order_le_less_trans unat_word_of_nat_u32)
  qed
  then have "card (?f ` {..length ss}) = Suc (length ss)" by (simp add: card_image)
  moreover have "card (dom (map_of ss)) \<le> length ss"
    by (metis card_length dom_map_of_conv_image_fst image_set length_map)
  ultimately have "\<not> ?f ` {..length ss} \<subseteq> dom (map_of ss)"
    using card_mono [of "dom (map_of ss)" "?f ` {..length ss}"] finite_dom_map_of [of ss] by linarith
  then have ex: "\<exists>k. map_of ss (?f k) = None" by auto
  then obtain k where k: "map_of ss (?f k) = None" "\<And>j. j < k \<Longrightarrow> map_of ss (?f j) \<noteq> None"
    using exists_least_iff [of "\<lambda>k. map_of ss (?f k) = None"] by auto
  moreover have "k \<le> length ss"
  proof (rule ccontr)
    assume "\<not> k \<le> length ss"
    then have "?f ` {..length ss} \<subseteq> dom (map_of ss)" using k(2) by fastforce
    then show False using \<open>\<not> ?f ` {..length ss} \<subseteq> dom (map_of ss)\<close> by simp
  qed
  ultimately show thesis using that by blast
qed

lemma alloc_conv_skip:
  assumes "map_of ss (nxt + word_of_nat k) = None" "\<And>j. j < k \<Longrightarrow> map_of ss (nxt + word_of_nat j) \<noteq> None"
  shows "alloc_conv nxt ss = Some (nxt + word_of_nat k, nxt + word_of_nat k + 1)"
  using assms
proof (induction k arbitrary: nxt)
  case 0
  then show ?case by (subst alloc_conv.simps) simp
next
  case (Suc k)
  have "alloc_conv (nxt + 1) ss = Some (nxt + 1 + word_of_nat k, nxt + 1 + word_of_nat k + 1)"
  proof (rule Suc.IH)
    show "map_of ss (nxt + 1 + word_of_nat k) = None" using Suc.prems(1) by (simp add: add.assoc)
    show "map_of ss (nxt + 1 + word_of_nat j) \<noteq> None" if "j < k" for j
      using Suc.prems(2) [of "Suc j"] that by (simp add: add.assoc)
  qed
  moreover have "map_of ss nxt \<noteq> None" using Suc.prems(2) [of 0] by simp
  ultimately show ?case by (subst alloc_conv.simps) (auto simp: add.assoc)
qed

lemma alloc_conv_fresh:
  assumes "length ss < 4294967296"
  obtains cv where "alloc_conv nxt ss = Some (cv, cv + 1)" "map_of ss cv = None"
proof -
  obtain k where "map_of ss (nxt + word_of_nat k) = None" "\<And>j. j < k \<Longrightarrow> map_of ss (nxt + word_of_nat j) \<noteq> None"
    using free_number [OF assms, of nxt] by blast
  then show thesis using that alloc_conv_skip by blast
qed

section \<open>Consistency of the tables\<close>

declare map_of_eq_Some_iff [simp del] Some_eq_map_of_iff [simp del]

text \<open>
  The tables as maps: every session sits under its number with a KCP connection to its client; the
  numbers waiting to be erased are those of the dying sessions; the descriptor table lists the target
  sockets; and no endpoint has two sessions waiting for CONNECT.
\<close>

definition tables_ok :: "(u32 \<rightharpoonup> session) \<Rightarrow> (int \<rightharpoonup> u32) \<Rightarrow> u32 set \<Rightarrow> bool" where
  "tables_ok ss fds erase \<longleftrightarrow>
     (\<forall>c s. ss c = Some s \<longrightarrow> s_conv s = c \<and> ks_kcp (s_kcp s) \<noteq> None \<and> ks_peer (s_kcp s) = client_addr s) \<and>
     (\<forall>c. c \<in> erase \<longleftrightarrow> (\<exists>s. ss c = Some s \<and> dying s)) \<and>
     (\<forall>fd c. fds fd = Some c \<longleftrightarrow> 0 \<le> fd \<and> (\<exists>s. ss c = Some s \<and> target_fd s = fd)) \<and>
     (\<forall>c s c' s'. ss c = Some s \<longrightarrow> ss c' = Some s' \<longrightarrow>
        pending_from (client_addr s') s \<longrightarrow> pending_from (client_addr s') s' \<longrightarrow> c = c')"

definition mgr_inv :: "manager \<Rightarrow> bool" where
  "mgr_inv m \<longleftrightarrow>
     distinct (map fst (sessions m)) \<and> distinct (map fst (fd_to_session m)) \<and>
     tables_ok (map_of (sessions m)) (map_of (fd_to_session m)) (set (to_erase m)) \<and>
     set (watched m) = dom (map_of (fd_to_session m)) \<and>
     tick_ms m = (if sessions m = [] then 0 else 5)"

lemma new_manager_inv: "mgr_inv (new_manager fd h)"
  by (simp add: mgr_inv_def tables_ok_def new_manager_def)

lemma tables_session:
  assumes "tables_ok ss fds erase" and "ss c = Some s"
  shows "s_conv s = c" "ks_kcp (s_kcp s) \<noteq> None" "ks_peer (s_kcp s) = client_addr s"
    "dying s \<longleftrightarrow> c \<in> erase" "0 \<le> target_fd s \<Longrightarrow> fds (target_fd s) = Some c"
    "fds fd = Some c \<Longrightarrow> target_fd s = fd"
  using assms unfolding tables_ok_def by auto

lemma tables_fd:
  "tables_ok ss fds erase \<Longrightarrow> fds fd = Some c \<longleftrightarrow> 0 \<le> fd \<and> (\<exists>s. ss c = Some s \<and> target_fd s = fd)"
  unfolding tables_ok_def by blast

text \<open>The changes to the tables: a session updated in place, added, given a target, marked, removed.\<close>

lemma tables_update:
  assumes ok: "tables_ok ss fds erase" and c: "ss c = Some s0"
    and "s_conv s = c" "dying s = dying s0" "client_addr s = client_addr s0"
      "ks_kcp (s_kcp s) \<noteq> None" "ks_peer (s_kcp s) = client_addr s0"
    and t: "target_fd s = target_fd s0 \<or> target_fd s < 0 \<and> target_fd s0 < 0"
  shows "tables_ok (ss(c \<mapsto> s)) fds erase"
proof -
  have p: "pending_from a s = pending_from a s0" for a using assms by (auto simp: pending_from_def)
  have fd: "fds x = Some d \<longleftrightarrow> 0 \<le> x \<and> (\<exists>y. (ss(c \<mapsto> s)) d = Some y \<and> target_fd y = x)" for x d
  proof -
    have "fds x = Some d \<longleftrightarrow> 0 \<le> x \<and> (\<exists>y. ss d = Some y \<and> target_fd y = x)"
      using ok unfolding tables_ok_def by blast
    then show ?thesis using t c by (cases "d = c") auto
  qed
  show ?thesis
    unfolding tables_ok_def
  proof (intro conjI)
    show "\<forall>x d. fds x = Some d \<longleftrightarrow> 0 \<le> x \<and> (\<exists>y. (ss(c \<mapsto> s)) d = Some y \<and> target_fd y = x)"
      using fd by blast
    show "\<forall>d x d' x'. (ss(c \<mapsto> s)) d = Some x \<longrightarrow> (ss(c \<mapsto> s)) d' = Some x' \<longrightarrow>
        pending_from (client_addr x') x \<longrightarrow> pending_from (client_addr x') x' \<longrightarrow> d = d'"
      using assms p unfolding tables_ok_def by (auto split: if_splits)
  qed (use assms in \<open>auto simp: tables_ok_def\<close>)
qed

lemma tables_add:
  assumes "tables_ok ss fds erase" and "ss c = None"
    and "s_conv s = c" "\<not> dying s" "target_fd s < 0" "ks_kcp (s_kcp s) \<noteq> None" "ks_peer (s_kcp s) = client_addr s"
    and "\<And>c' s'. ss c' = Some s' \<Longrightarrow> \<not> pending_from (client_addr s) s'"
  shows "tables_ok (ss(c \<mapsto> s)) fds erase"
proof -
  have sym: "pending_from (client_addr s) s'" if "pending_from (client_addr s') s" "pending_from (client_addr s') s'" for s'
    using that by (auto simp: pending_from_def same_addr_def)
  have "c \<notin> erase" using assms unfolding tables_ok_def by auto
  moreover have "fds fd \<noteq> Some c" for fd using assms unfolding tables_ok_def by auto
  ultimately show ?thesis
    unfolding tables_ok_def
  proof (intro conjI)
    show "\<forall>d x d' x'. (ss(c \<mapsto> s)) d = Some x \<longrightarrow> (ss(c \<mapsto> s)) d' = Some x' \<longrightarrow>
        pending_from (client_addr x') x \<longrightarrow> pending_from (client_addr x') x' \<longrightarrow> d = d'"
      using assms sym unfolding tables_ok_def by (auto split: if_splits)
  qed (use assms in \<open>auto simp: tables_ok_def\<close>)
qed

lemma tables_open:
  assumes "tables_ok ss fds erase" and "ss c = Some s0" "target_fd s0 < 0" "0 \<le> fd" "fds fd = None"
  shows "tables_ok (ss(c \<mapsto> s0\<lparr>target_fd := fd\<rparr>)) (fds(fd \<mapsto> c)) erase"
proof -
  have np: "\<not> pending_from a (s0\<lparr>target_fd := fd\<rparr>)" for a using assms by (simp add: pending_from_def)
  have no: "target_fd s \<noteq> fd" if "ss d = Some s" for d s
    using tables_session(5) [OF assms(1) that] assms by auto
  have nc: "fds x \<noteq> Some c" for x using assms unfolding tables_ok_def by auto
  show ?thesis
    unfolding tables_ok_def
  proof (intro conjI)
    show "\<forall>x d. (fds(fd \<mapsto> c)) x = Some d \<longleftrightarrow> 0 \<le> x \<and> (\<exists>s. (ss(c \<mapsto> s0\<lparr>target_fd := fd\<rparr>)) d = Some s \<and> target_fd s = x)"
      using assms no nc unfolding tables_ok_def by (auto split: if_splits)
    show "\<forall>d x d' x'. (ss(c \<mapsto> s0\<lparr>target_fd := fd\<rparr>)) d = Some x \<longrightarrow> (ss(c \<mapsto> s0\<lparr>target_fd := fd\<rparr>)) d' = Some x' \<longrightarrow>
        pending_from (client_addr x') x \<longrightarrow> pending_from (client_addr x') x' \<longrightarrow> d = d'"
      using assms np unfolding tables_ok_def by (auto split: if_splits)
  qed (use assms in \<open>auto simp: tables_ok_def\<close>)
qed

lemma tables_mark:
  assumes "tables_ok ss fds erase" and "ss c = Some s0"
  shows "tables_ok (ss(c \<mapsto> s0\<lparr>dying := True\<rparr>)) fds (insert c erase)"
proof -
  have np: "\<not> pending_from a (s0\<lparr>dying := True\<rparr>)" for a by (simp add: pending_from_def)
  show ?thesis
    unfolding tables_ok_def
  proof (intro conjI)
    show "\<forall>d x d' x'. (ss(c \<mapsto> s0\<lparr>dying := True\<rparr>)) d = Some x \<longrightarrow> (ss(c \<mapsto> s0\<lparr>dying := True\<rparr>)) d' = Some x' \<longrightarrow>
        pending_from (client_addr x') x \<longrightarrow> pending_from (client_addr x') x' \<longrightarrow> d = d'"
      using assms np unfolding tables_ok_def by (auto split: if_splits)
  qed (use assms in \<open>auto simp: tables_ok_def\<close>)
qed

lemma tables_remove:
  assumes ok: "tables_ok ss fds erase" and c: "ss c = Some s0"
  shows "tables_ok (ss(c := None)) (if 0 \<le> target_fd s0 then fds(target_fd s0 := None) else fds) (erase - {c})"
    (is "tables_ok ?ss ?fds ?erase")
proof -
  have sub: "ss d = Some s" if "?ss d = Some s" for d s using that by (simp split: if_splits)
  have fd: "?fds fd = Some d \<longleftrightarrow> 0 \<le> fd \<and> (\<exists>s. ?ss d = Some s \<and> target_fd s = fd)" for fd d
  proof -
    have old: "fds fd = Some d \<longleftrightarrow> 0 \<le> fd \<and> (\<exists>s. ss d = Some s \<and> target_fd s = fd)"
      using ok unfolding tables_ok_def by blast
    have own: "0 \<le> target_fd s0 \<Longrightarrow> fds (target_fd s0) = Some c"
      using tables_session [OF ok c] by blast
    show ?thesis
    proof (cases "d = c")
      case True
      then have "?fds fd \<noteq> Some d" using old c by auto
      then show ?thesis using True by simp
    next
      case False
      then have "?fds fd = Some d \<longleftrightarrow> fds fd = Some d" using own by auto
      then show ?thesis using False old by simp
    qed
  qed
  have er: "d \<in> ?erase \<longleftrightarrow> (\<exists>s. ?ss d = Some s \<and> dying s)" for d
    using ok unfolding tables_ok_def by (cases "d = c") simp_all
  have a: "\<forall>d s. ss d = Some s \<longrightarrow> s_conv s = d \<and> ks_kcp (s_kcp s) \<noteq> None \<and> ks_peer (s_kcp s) = client_addr s"
    and b: "\<forall>d s d' s'. ss d = Some s \<longrightarrow> ss d' = Some s' \<longrightarrow>
      pending_from (client_addr s') s \<longrightarrow> pending_from (client_addr s') s' \<longrightarrow> d = d'"
    using ok unfolding tables_ok_def by blast+
  have a': "\<forall>d s. ?ss d = Some s \<longrightarrow> s_conv s = d \<and> ks_kcp (s_kcp s) \<noteq> None \<and> ks_peer (s_kcp s) = client_addr s"
    using a sub by blast
  have b': "\<forall>d s d' s'. ?ss d = Some s \<longrightarrow> ?ss d' = Some s' \<longrightarrow>
      pending_from (client_addr s') s \<longrightarrow> pending_from (client_addr s') s' \<longrightarrow> d = d'"
    using b sub by blast
  show ?thesis
    unfolding tables_ok_def by (intro conjI a' b' allI fd er)
qed

section \<open>The operations keep the tables consistent\<close>

lemma map_of_put [simp]:
  "map_of (map (\<lambda>(k, x). if k = c then (k, s) else (k, x)) ss) =
     (if map_of ss c = None then map_of ss else (map_of ss)(c \<mapsto> s))"
  by (induction ss) (auto simp: fun_eq_iff)

lemma put_session_map [simp]:
  "map_of (sessions m) (s_conv s) = Some s0 \<Longrightarrow> map_of (sessions (put_session s m)) = (map_of (sessions m))(s_conv s \<mapsto> s)"
  by (simp add: put_session_def)

lemma put_session_fields [simp]:
  "fd_to_session (put_session s m) = fd_to_session m" "to_erase (put_session s m) = to_erase m"
  "next_conv (put_session s m) = next_conv m" "idle_ms (put_session s m) = idle_ms m"
  "last_idle_sweep (put_session s m) = last_idle_sweep m" "watched (put_session s m) = watched m"
  "tick_ms (put_session s m) = tick_ms m" "heap (put_session s m) = heap m"
  "mgr_client_fd (put_session s m) = mgr_client_fd m"
  "map fst (sessions (put_session s m)) = map fst (sessions m)"
  "(sessions (put_session s m) = []) = (sessions m = [])"
  "length (sessions (put_session s m)) = length (sessions m)"
  by (auto simp: put_session_def)

lemma mgr_inv_heap [simp]: "mgr_inv (m\<lparr>heap := h\<rparr>) = mgr_inv m"
  by (simp add: mgr_inv_def)

lemma mgr_session:
  assumes "mgr_inv m" and "map_of (sessions m) c = Some s"
  shows "s_conv s = c" "ks_kcp (s_kcp s) \<noteq> None" "ks_peer (s_kcp s) = client_addr s"
    "dying s \<longleftrightarrow> c \<in> set (to_erase m)" "0 \<le> target_fd s \<Longrightarrow> by_fd (target_fd s) m = Some c"
proof -
  have "tables_ok (map_of (sessions m)) (map_of (fd_to_session m)) (set (to_erase m))"
    using assms(1) unfolding mgr_inv_def by blast
  note t = tables_session [OF this assms(2)]
  show "s_conv s = c" "ks_kcp (s_kcp s) \<noteq> None" "ks_peer (s_kcp s) = client_addr s" "dying s \<longleftrightarrow> c \<in> set (to_erase m)"
    using t(1-4) by blast+
  show "by_fd (target_fd s) m = Some c" if "0 \<le> target_fd s"
    unfolding by_fd_def by (rule t(5) [OF that])
qed

lemma put_session_inv:
  assumes "mgr_inv m" and "map_of (sessions m) (s_conv s) = Some s0"
    and "dying s = dying s0" "target_fd s = target_fd s0" "client_addr s = client_addr s0"
      "ks_kcp (s_kcp s) \<noteq> None" "ks_peer (s_kcp s) = client_addr s0"
  shows "mgr_inv (put_session s m)"
  using assms tables_update [of "map_of (sessions m)" "map_of (fd_to_session m)" "set (to_erase m)" "s_conv s" s0 s]
  by (simp add: mgr_inv_def)

lemma open_target_inv:
  assumes inv: "mgr_inv m" and s: "map_of (sessions m) (s_conv s) = Some s" and "target_fd s < 0" "fd \<notin> set (watched m)"
  shows "mgr_inv (snd (open_target fd s m))"
proof (cases "fd < 0")
  case True
  have "tables_ok ((map_of (sessions m))(s_conv s \<mapsto> s\<lparr>target_fd := fd\<rparr>)) (map_of (fd_to_session m)) (set (to_erase m))"
    using inv s True assms(3) mgr_session [OF inv s]
    by (intro tables_update [of _ _ _ _ s]) (simp_all add: mgr_inv_def)
  then show ?thesis
    using True inv s by (simp add: open_target_def mgr_inv_def put_session_map [of _ "s\<lparr>target_fd := fd\<rparr>", simplified])
next
  case False
  have n: "map_of (fd_to_session m) fd = None"
    using inv assms(4) by (auto simp: mgr_inv_def)
  then have "fd \<notin> fst ` set (fd_to_session m)" by (simp add: map_of_eq_None_iff)
  moreover have "tables_ok ((map_of (sessions m))(s_conv s \<mapsto> s\<lparr>target_fd := fd\<rparr>)) ((map_of (fd_to_session m))(fd \<mapsto> s_conv s)) (set (to_erase m))"
    using inv s n False assms(3) by (intro tables_open) (simp_all add: mgr_inv_def)
  ultimately show ?thesis
    using False inv s n by (simp add: open_target_def mgr_inv_def put_session_map [of _ "s\<lparr>target_fd := fd\<rparr>", simplified])
qed

lemma mark_dying_inv:
  assumes "mgr_inv m" and "map_of (sessions m) (s_conv s) = Some s"
  shows "mgr_inv (mark_dying s m)"
  using assms tables_mark [of "map_of (sessions m)" "map_of (fd_to_session m)" "set (to_erase m)" "s_conv s" s]
  by (simp add: mgr_inv_def mark_dying_def put_session_map [of _ "s\<lparr>dying := True\<rparr>", simplified])

lemma mgr_tables: "mgr_inv m \<Longrightarrow> tables_ok (map_of (sessions m)) (map_of (fd_to_session m)) (set (to_erase m))"
  by (simp add: mgr_inv_def)

lemma map_of_filter_key [simp]: "map_of (filter (\<lambda>(k, _). k \<noteq> c) xs) = (map_of xs)(c := None)"
  by (induction xs) (auto simp: fun_eq_iff)

lemma distinct_filter_key: "distinct (map fst xs) \<Longrightarrow> distinct (map fst (filter P xs))"
  by (induction xs) auto

lemma teardown_one_tables:
  assumes "tables_ok (map_of (sessions m)) (map_of (fd_to_session m)) erase"
    and "distinct (map fst (sessions m))" "distinct (map fst (fd_to_session m))"
    and w: "set (watched m) = dom (map_of (fd_to_session m))"
  shows "tables_ok (map_of (sessions (teardown_one c m))) (map_of (fd_to_session (teardown_one c m))) (erase - {c}) \<and>
    distinct (map fst (sessions (teardown_one c m))) \<and> distinct (map fst (fd_to_session (teardown_one c m))) \<and>
    set (watched (teardown_one c m)) = dom (map_of (fd_to_session (teardown_one c m)))"
proof (cases "map_of (sessions m) c")
  case None
  then have "c \<notin> erase" using assms(1) unfolding tables_ok_def by auto
  then show ?thesis using assms None by (simp add: teardown_one_def)
next
  case (Some s)
  have "tables_ok (map_of (sessions (teardown_one c m))) (map_of (fd_to_session (teardown_one c m))) (erase - {c})"
    using tables_remove [OF assms(1) Some] Some by (cases "0 \<le> target_fd s") (simp_all add: teardown_one_def)
  moreover have "set (watched (teardown_one c m)) = dom (map_of (fd_to_session (teardown_one c m)))"
    using Some w by (cases "0 \<le> target_fd s") (auto simp: teardown_one_def)
  ultimately show ?thesis
    using Some assms by (cases "0 \<le> target_fd s") (simp_all add: teardown_one_def distinct_filter_key)
qed

lemma teardown_fold:
  assumes "tables_ok (map_of (sessions m)) (map_of (fd_to_session m)) erase" "erase \<subseteq> set cs"
    and "distinct (map fst (sessions m))" "distinct (map fst (fd_to_session m))"
    and "set (watched m) = dom (map_of (fd_to_session m))"
  shows "tables_ok (map_of (sessions (fold teardown_one cs m))) (map_of (fd_to_session (fold teardown_one cs m))) {} \<and>
    distinct (map fst (sessions (fold teardown_one cs m))) \<and> distinct (map fst (fd_to_session (fold teardown_one cs m))) \<and>
    set (watched (fold teardown_one cs m)) = dom (map_of (fd_to_session (fold teardown_one cs m)))"
  using assms
proof (induction cs arbitrary: m erase)
  case Nil
  then show ?case by simp
next
  case (Cons c cs)
  have "erase - {c} \<subseteq> set cs" using Cons.prems(2) by auto
  then show ?case
    using Cons.IH [of "teardown_one c m" "erase - {c}"] teardown_one_tables [OF Cons.prems(1,3,4,5), of c] by simp
qed

lemma flush_teardown_inv: "mgr_inv m \<Longrightarrow> mgr_inv (flush_teardown m)"
  using teardown_fold [of m "set (to_erase m)" "to_erase m"]
  by (simp add: mgr_inv_def flush_teardown_def sync_timer_def mgr_empty_def)

text \<open>What is left in the table after teardown: the sessions that were not dying, untouched.\<close>

lemma fold_teardown_sessions:
  "map_of (sessions (fold teardown_one cs m)) c = (if c \<in> set cs then None else map_of (sessions m) c)"
proof (induction cs arbitrary: m)
  case (Cons d cs)
  have "map_of (sessions (teardown_one d m)) = (map_of (sessions m))(d := None)"
    by (auto simp: teardown_one_def Let_def fun_upd_idem split: option.splits)
  then show ?case using Cons.IH [of "teardown_one d m"] by simp
qed simp

lemma flush_teardown_sessions:
  "map_of (sessions (flush_teardown m)) c = (if c \<in> set (to_erase m) then None else map_of (sessions m) c)"
  by (simp add: flush_teardown_def sync_timer_def fold_teardown_sessions)

lemma tables_mark_all:
  assumes ok: "tables_ok ss fds erase" and P: "\<And>s. P s \<Longrightarrow> \<not> dying s"
  shows "tables_ok (\<lambda>c. map_option (\<lambda>s. if P s then s\<lparr>dying := True\<rparr> else s) (ss c)) fds
           (erase \<union> {c. \<exists>s. ss c = Some s \<and> P s})"
proof -
  have np: "\<not> pending_from a (s\<lparr>dying := True\<rparr>)" for a s by (simp add: pending_from_def)
  have fd: "fds x = Some d \<longleftrightarrow> 0 \<le> x \<and> (\<exists>s. ss d = Some s \<and> target_fd s = x)" for x d
    using ok unfolding tables_ok_def by blast
  have er: "d \<in> erase \<longleftrightarrow> (\<exists>s. ss d = Some s \<and> dying s)" for d
    using ok unfolding tables_ok_def by blast
  show ?thesis
    unfolding tables_ok_def
  proof (intro conjI)
    show "\<forall>x d. fds x = Some d \<longleftrightarrow>
        0 \<le> x \<and> (\<exists>s. map_option (\<lambda>s. if P s then s\<lparr>dying := True\<rparr> else s) (ss d) = Some s \<and> target_fd s = x)"
    proof (intro allI)
      fix x d
      show "fds x = Some d \<longleftrightarrow>
          0 \<le> x \<and> (\<exists>s. map_option (\<lambda>s. if P s then s\<lparr>dying := True\<rparr> else s) (ss d) = Some s \<and> target_fd s = x)"
        unfolding fd by (cases "ss d") auto
    qed
    show "\<forall>d. d \<in> erase \<union> {c. \<exists>s. ss c = Some s \<and> P s} \<longleftrightarrow>
        (\<exists>s. map_option (\<lambda>s. if P s then s\<lparr>dying := True\<rparr> else s) (ss d) = Some s \<and> dying s)"
      using er P by auto
    show "\<forall>c s c' s'. map_option (\<lambda>s. if P s then s\<lparr>dying := True\<rparr> else s) (ss c) = Some s \<longrightarrow>
        map_option (\<lambda>s. if P s then s\<lparr>dying := True\<rparr> else s) (ss c') = Some s' \<longrightarrow>
        pending_from (client_addr s') s \<longrightarrow> pending_from (client_addr s') s' \<longrightarrow> c = c'"
      using ok np unfolding tables_ok_def by (auto split: if_splits)
  qed (use ok in \<open>auto simp: tables_ok_def\<close>)
qed

lemma sweep_idle_inv: "mgr_inv m \<Longrightarrow> mgr_inv (sweep_idle now m)"
proof (cases "now - last_idle_sweep m < 1000")
  case False
  assume inv: "mgr_inv m"
  let ?P = "is_idle now (idle_ms m)"
  let ?f = "\<lambda>s. if ?P s then s\<lparr>dying := True\<rparr> else s"
  have d: "distinct (map fst (sessions m))" using inv by (simp add: mgr_inv_def)
  have e: "set (map (\<lambda>(_, s). s_conv s) (filter (\<lambda>(_, s). ?P s) (sessions m))) = {c. \<exists>s. map_of (sessions m) c = Some s \<and> ?P s}"
  proof -
    have "s_conv s = c" if "(c, s) \<in> set (sessions m)" for c s
      using mgr_session(1) [OF inv, of c s] that d by (simp add: map_of_eq_Some_iff)
    then show ?thesis using d by (force simp: map_of_eq_Some_iff)
  qed
  have "tables_ok (\<lambda>c. map_option ?f (map_of (sessions m) c)) (map_of (fd_to_session m))
      (set (to_erase m) \<union> {c. \<exists>s. map_of (sessions m) c = Some s \<and> ?P s})"
    using mgr_tables [OF inv] by (rule tables_mark_all) (simp add: is_idle_def)
  moreover have "map_of (map (\<lambda>(k, s). (k, ?f s)) (sessions m)) = (\<lambda>c. map_option ?f (map_of (sessions m) c))"
    by (simp add: map_of_map comp_def)
  moreover have "fst \<circ> (\<lambda>(k :: u32, s). (k, ?f s)) = fst" by auto
  ultimately show ?thesis
    using False inv e by (simp add: sweep_idle_def mgr_inv_def)
qed (simp add: sweep_idle_def)

section \<open>Registration\<close>

lemma kcp_session_init_good:
  assumes "mem_good h"
  obtains h' where "mem_good h'" "mem_live h' = mem_live h + 2"
    "kcp_session_init cv src fd h =
       Inr (\<lparr>ks_kcp = Some (snd (ikcp_nodelay (ikcp_setoutput (new_kcp cv h')) 1 10 2 1)), ks_peer = src, ks_fd = fd\<rparr>, h')"
proof -
  let ?h = "snd (kvstore_malloc (unat ((IKCP_MTU_DEF + IKCP_OVERHEAD) * 3)) (snd (kvstore_malloc 296 h)))"
  have "kcp_session_init cv src fd h =
      Inr (\<lparr>ks_kcp = Some (snd (ikcp_nodelay (ikcp_setoutput (new_kcp cv ?h)) 1 10 2 1)), ks_peer = src, ks_fd = fd\<rparr>, ?h)"
    using assms by (simp add: kcp_session_init_def ikcp_create_def res_simps case_prod_beta)
  moreover have "mem_good ?h" "mem_live ?h = mem_live h + 2"
    using assms by (simp_all add: res_simps)
  ultimately show thesis using that by blast
qed

lemma find_SomeD: "find P xs = Some x \<Longrightarrow> x \<in> set xs \<and> P x"
  by (induction xs) (auto split: if_splits)

lemma find_None_iff_pending:
  assumes "distinct (map fst ss)" and "find (\<lambda>(_, s). pending_from src s) ss = None" and "map_of ss c = Some s"
  shows "\<not> pending_from src s"
  using assms by (auto simp: find_None_iff map_of_eq_Some_iff)

lemma register_new:
  assumes inv: "mgr_inv m" and good: "mem_good (heap m)" and few: "length (sessions m) < 4294967296"
    and none: "find (\<lambda>(_, s). pending_from src s) (sessions m) = None"
  obtains cv s m' where "register_client src m = Inr (pack_registered cv, m')"
    "map_of (sessions m) cv = None" "map_of (sessions m') = (map_of (sessions m))(cv \<mapsto> s)"
    "pending_from src s" "s_conv s = cv" "last_active s = 0" "mem_good (heap m')" "mgr_inv m'"
    "idle_ms m' = idle_ms m" "last_idle_sweep m' = last_idle_sweep m"
proof -
  obtain cv where cv: "alloc_conv (next_conv m) (sessions m) = Some (cv, cv + 1)" "map_of (sessions m) cv = None"
    using alloc_conv_fresh [OF few] by blast
  obtain k h' where k: "kcp_session_init cv src (mgr_client_fd m) (heap m) =
      Inr (\<lparr>ks_kcp = Some k, ks_peer = src, ks_fd = mgr_client_fd m\<rparr>, h')" "mem_good h'"
    using kcp_session_init_good [OF good] by metis
  let ?s = "(Session cv src)\<lparr>s_kcp := \<lparr>ks_kcp = Some k, ks_peer = src, ks_fd = mgr_client_fd m\<rparr>\<rparr>"
  let ?m = "sync_timer (m\<lparr>sessions := sessions m @ [(cv, ?s)], next_conv := cv + 1, heap := h'\<rparr>)"
  have ps: "pending_from src ?s" "s_conv ?s = cv" "last_active ?s = 0"
    by (simp_all add: Session_def pending_from_def same_addr_def)
  have mo: "map_of (sessions m @ [(cv, ?s)]) = (map_of (sessions m))(cv \<mapsto> ?s)"
    using cv(2) by (auto simp: fun_eq_iff map_add_def split: option.splits)
  have "distinct (map fst (sessions m))" using inv by (simp add: mgr_inv_def)
  then have "tables_ok ((map_of (sessions m))(cv \<mapsto> ?s)) (map_of (fd_to_session m)) (set (to_erase m))"
    using mgr_tables [OF inv] cv(2) find_None_iff_pending [OF _ none]
    by (intro tables_add) (simp_all add: Session_def)
  moreover have "cv \<notin> fst ` set (sessions m)" using cv(2) by (simp add: map_of_eq_None_iff)
  ultimately have "mgr_inv ?m"
    using inv mo by (simp add: mgr_inv_def sync_timer_def mgr_empty_def)
  moreover have "register_client src m = Inr (pack_registered cv, ?m)"
    using none cv k by (simp add: register_client_def)
  moreover have "map_of (sessions ?m) = (map_of (sessions m))(cv \<mapsto> ?s)" "mem_good (heap ?m)"
      "idle_ms ?m = idle_ms m" "last_idle_sweep ?m = last_idle_sweep m"
    using mo k by (simp_all add: sync_timer_def)
  ultimately show thesis using that cv(2) ps by metis
qed

lemma register_again:
  assumes inv: "mgr_inv m" and s: "map_of (sessions m) c = Some s" and p: "pending_from src s"
  shows "register_client src m = Inr (pack_registered c, m)"
proof -
  have d: "distinct (map fst (sessions m))" using inv by (simp add: mgr_inv_def)
  have "(c, s) \<in> set (sessions m)" using s by (rule map_of_SomeD)
  then obtain c' s' where f: "find (\<lambda>(_, s). pending_from src s) (sessions m) = Some (c', s')"
    using p by (cases "find (\<lambda>(_, s). pending_from src s) (sessions m)") (auto simp: find_None_iff)
  then have s': "(c', s') \<in> set (sessions m)" "pending_from src s'"
    by (auto dest: find_SomeD)
  then have m': "map_of (sessions m) c' = Some s'" using d by (simp add: map_of_eq_Some_iff)
  have "pending_from (client_addr s') s" "pending_from (client_addr s') s'"
    using p s'(2) by (auto simp: pending_from_def same_addr_def)
  then have "c = c'" using mgr_tables [OF inv] s m' unfolding tables_ok_def by blast
  then show ?thesis using f mgr_session(1) [OF inv m'] by (simp add: register_client_def)
qed

lemma register_found:
  assumes "mgr_inv m" and "find (\<lambda>(_, s). pending_from src s) (sessions m) = Some (c, s)"
  shows "map_of (sessions m) c = Some s" "pending_from src s"
proof -
  have "distinct (map fst (sessions m))" using assms(1) by (simp add: mgr_inv_def)
  then show "map_of (sessions m) c = Some s" "pending_from src s"
    using find_SomeD [OF assms(2)] by (auto simp: map_of_eq_Some_iff)
qed

text \<open>
  C31: \<open>register_client\<close> answers every REGISTER. While memory lasts and not all 2^32 numbers are taken,
  the search for a number ends, and the reply carries the number of a session of the sender that waits
  for CONNECT. A second REGISTER from the same endpoint is answered with the same number and changes
  nothing; no other session is touched; and the tables stay consistent.
\<close>

theorem register_client_correct:
  assumes inv: "mgr_inv m" and good: "mem_good (heap m)" and few: "length (sessions m) < 4294967296"
  shows "\<exists>reply c s m'. register_client src m = Inr (reply, m') \<and> mgr_inv m' \<and>
    read_registered reply = Some c \<and> map_of (sessions m') c = Some s \<and> pending_from src s \<and>
    (\<forall>d. d \<noteq> c \<longrightarrow> map_of (sessions m') d = map_of (sessions m) d) \<and>
    register_client src m' = Inr (reply, m')"
proof (cases "find (\<lambda>(_, s). pending_from src s) (sessions m)")
  case None
  obtain cv s m' where r: "register_client src m = Inr (pack_registered cv, m')"
    "map_of (sessions m') = (map_of (sessions m))(cv \<mapsto> s)" "pending_from src s" "mgr_inv m'"
    using register_new [OF inv good few None] by metis
  have s: "map_of (sessions m') cv = Some s" using r(2) by simp
  have "\<forall>d. d \<noteq> cv \<longrightarrow> map_of (sessions m') d = map_of (sessions m) d" using r(2) by simp
  then show ?thesis
    using r s register_again [OF r(4) s r(3)] read_pack_registered [of cv] by blast
next
  case (Some p)
  obtain c s where p: "p = (c, s)" by force
  note f = register_found [OF inv Some [unfolded p]]
  show ?thesis
    using register_again [OF inv f] f read_pack_registered [of c] inv by blast
qed

theorem register_client_correct_witness:
  "\<exists>reply c s m'. register_client \<lparr>sin_addr = 1, sin_port = 2\<rparr> (new_manager 3 good_mem) = Inr (reply, m') \<and> mgr_inv m' \<and>
     read_registered reply = Some c \<and> map_of (sessions m') c = Some s \<and> pending_from \<lparr>sin_addr = 1, sin_port = 2\<rparr> s \<and>
     register_client \<lparr>sin_addr = 1, sin_port = 2\<rparr> m' = Inr (reply, m')"
proof -
  have "mem_good (heap (new_manager 3 good_mem))" "length (sessions (new_manager 3 good_mem)) < 4294967296"
    by (simp_all add: new_manager_def)
  then show ?thesis
    using register_client_correct [OF new_manager_inv, of 3 good_mem "\<lparr>sin_addr = 1, sin_port = 2\<rparr>"] by blast
qed

section \<open>The manager as a state machine\<close>

text \<open>
  What the gateway does to the manager between two waits: registrations, changes to a session through
  its pointer (the connection, the clock, the target's address; the allocator's state moves along),
  opening a target socket that the kernel has just created, marking, teardown and sweeping.
\<close>

inductive mgr_step :: "manager \<Rightarrow> manager \<Rightarrow> bool" where
  Step_Register: "register_client src m = Inr (reply, m') \<Longrightarrow> mem_good (heap m) \<Longrightarrow>
    length (sessions m) < 4294967296 \<Longrightarrow> mgr_step m m'"
| Step_Session: "map_of (sessions m) c = Some s \<Longrightarrow>
    mgr_step m (put_session (s\<lparr>s_kcp := (s_kcp s)\<lparr>ks_kcp := Some k\<rparr>, target_addr := a, last_active := t\<rparr>) (m\<lparr>heap := h\<rparr>))"
| Step_Open: "map_of (sessions m) c = Some s \<Longrightarrow> target_fd s < 0 \<Longrightarrow> fd \<notin> set (watched m) \<Longrightarrow>
    mgr_step m (snd (open_target fd s m))"
| Step_Mark: "map_of (sessions m) c = Some s \<Longrightarrow> mgr_step m (mark_dying s m)"
| Step_Teardown: "mgr_step m (flush_teardown m)"
| Step_Sweep: "mgr_step m (sweep_idle now m)"

lemma mgr_step_inv: "mgr_step m m' \<Longrightarrow> mgr_inv m \<Longrightarrow> mgr_inv m'"
proof (induction rule: mgr_step.induct)
  case (Step_Register src m reply m')
  show ?case
  proof (cases "find (\<lambda>(_, s). pending_from src s) (sessions m)")
    case None
    then show ?thesis using register_new [OF Step_Register.prems Step_Register.hyps(2,3) None] Step_Register.hyps(1) by auto
  next
    case (Some p)
    then show ?thesis using Step_Register by (cases p) (simp add: register_client_def)
  qed
next
  case (Step_Session m c s k a t h)
  note s = mgr_session [OF Step_Session.prems Step_Session.hyps]
  show ?case
    by (rule put_session_inv [where ?s0.0 = s]) (use Step_Session s in \<open>simp_all\<close>)
next
  case (Step_Open m c s fd)
  then show ?case using mgr_session(1) open_target_inv by blast
next
  case (Step_Mark m c s)
  then show ?case using mgr_session(1) mark_dying_inv by blast
qed (auto intro: flush_teardown_inv sweep_idle_inv)

lemma mgr_steps_inv: "mgr_step\<^sup>*\<^sup>* m m' \<Longrightarrow> mgr_inv m \<Longrightarrow> mgr_inv m'"
  by (induction rule: rtranclp_induct) (auto intro: mgr_step_inv)

text \<open>
  C32: No pointer to a session dangles. However the gateway has worked on the manager since the
  start, a descriptor that epoll reports is found in the table, and leads to a session that still
  exists and owns that descriptor; sessions that are gone are no longer watched; and the timer runs
  exactly while there are sessions.
\<close>

theorem manager_never_dangles:
  assumes steps: "mgr_step\<^sup>*\<^sup>* (new_manager client_fd h) m"
  shows "(fd \<in> set (watched m) \<longleftrightarrow> by_fd fd m \<noteq> None) \<and>
    (\<forall>c. by_fd fd m = Some c \<longrightarrow> (\<exists>s. session_at m c = Inr s \<and> s_conv s = c \<and> target_fd s = fd \<and> 0 \<le> fd)) \<and>
    (tick_ms m = 0 \<longleftrightarrow> mgr_empty m)"
proof -
  have inv: "mgr_inv m" using mgr_steps_inv [OF steps] new_manager_inv by blast
  have "\<exists>s. session_at m c = Inr s \<and> s_conv s = c \<and> target_fd s = fd \<and> 0 \<le> fd" if fdc: "by_fd fd m = Some c" for c
  proof -
    obtain s where s: "map_of (sessions m) c = Some s" "target_fd s = fd" "0 \<le> fd"
      using fdc unfolding by_fd_def tables_fd [OF mgr_tables [OF inv]] by blast
    then show ?thesis using mgr_session(1) [OF inv s(1)] by (simp add: session_at_def)
  qed
  moreover have "set (watched m) = dom (map_of (fd_to_session m))" "tick_ms m = (if sessions m = [] then 0 else 5)"
    using inv by (simp_all add: mgr_inv_def)
  ultimately show ?thesis by (simp add: by_fd_def mgr_empty_def domIff)
qed

theorem manager_never_dangles_witness:
  "\<exists>m c s. mgr_step\<^sup>*\<^sup>* (new_manager 3 good_mem) m \<and> by_fd 5 m = Some c \<and> session_at m c = Inr s \<and>
     target_fd s = 5 \<and> tick_ms m \<noteq> 0"
proof -
  let ?m0 = "new_manager 3 good_mem" and ?src = "\<lparr>sin_addr = 1, sin_port = 2\<rparr>"
  have m0: "mem_good (heap ?m0)" "length (sessions ?m0) < 4294967296" "find (\<lambda>(_, s). pending_from ?src s) (sessions ?m0) = None"
    by (simp_all add: new_manager_def)
  obtain cv s m1 where r: "register_client ?src ?m0 = Inr (pack_registered cv, m1)"
      "map_of (sessions m1) = (map_of (sessions ?m0))(cv \<mapsto> s)" "pending_from ?src s" "s_conv s = cv" "mgr_inv m1"
    using register_new [OF new_manager_inv m0] by metis
  have s: "map_of (sessions m1) cv = Some s" "target_fd s < 0" using r(2,3) by (simp_all add: pending_from_def)
  have only: "d = cv" if "map_of (sessions m1) d = Some t" for d t
    using that r(2) by (auto simp: new_manager_def split: if_splits)
  have "map_of (fd_to_session m1) fd \<noteq> Some d" for fd d
    using tables_fd [OF mgr_tables [OF r(5)], of fd d] only s by fastforce
  then have "map_of (fd_to_session m1) fd = None" for fd by (meson not_None_eq)
  moreover have "set (watched m1) = dom (map_of (fd_to_session m1))" using r(5) by (simp add: mgr_inv_def)
  ultimately have w: "5 \<notin> set (watched m1)" "map_of (fd_to_session m1) 5 = None" by auto
  let ?m2 = "snd (open_target 5 s m1)"
  have fd: "by_fd 5 ?m2 = Some cv" using w r(4) by (simp add: open_target_def by_fd_def)
  have steps: "mgr_step\<^sup>*\<^sup>* ?m0 ?m2"
    using Step_Register [OF r(1) m0(1,2)] Step_Open [OF s w(1)] by (meson rtranclp.rtrancl_refl rtranclp.rtrancl_into_rtrancl)
  then obtain t where "session_at ?m2 cv = Inr t" "target_fd t = 5"
    using manager_never_dangles [OF steps, of 5] fd by blast
  moreover have "sessions ?m2 \<noteq> []" using s(1) by (auto simp: open_target_def Let_def)
  then have "tick_ms ?m2 \<noteq> 0" using manager_never_dangles [OF steps, of 5] by (simp add: mgr_empty_def)
  ultimately show ?thesis using steps fd by blast
qed

section \<open>Idle sessions\<close>

lemma sweep_sessions:
  assumes "\<not> now - last_idle_sweep m < 1000"
  shows "map_of (sessions (sweep_idle now m)) c =
    map_option (\<lambda>s. if is_idle now (idle_ms m) s then s\<lparr>dying := True\<rparr> else s) (map_of (sessions m) c)"
  using assms by (simp add: sweep_idle_def map_of_map)

lemma sweep_teardown:
  assumes inv: "mgr_inv m" and due: "\<not> now - last_idle_sweep m < 1000"
  shows "map_of (sessions (flush_teardown (sweep_idle now m))) c =
    (case map_of (sessions m) c of
       None \<Rightarrow> None
     | Some s \<Rightarrow> if dying s \<or> idle_ms m < now - last_active s then None else Some s)"
proof (cases "map_of (sessions m) c")
  case None
  then show ?thesis by (simp add: flush_teardown_sessions sweep_sessions [OF due])
next
  case (Some s)
  let ?s = "if is_idle now (idle_ms m) s then s\<lparr>dying := True\<rparr> else s"
  have "map_of (sessions (sweep_idle now m)) c = Some ?s"
    using Some by (simp add: sweep_sessions [OF due])
  moreover have "c \<in> set (to_erase (sweep_idle now m)) \<longleftrightarrow> dying ?s"
    using mgr_session(4) [OF sweep_idle_inv [OF inv] calculation] by blast
  ultimately show ?thesis using Some by (auto simp: flush_teardown_sessions is_idle_def)
qed

text \<open>
  C33: Sweeping and teardown together. When a sweep is due, the sessions that are gone after the next
  teardown are exactly those that were marked or have had no traffic for more than the idle limit;
  every other session is left as it was, and the tables stay consistent.
\<close>

theorem sweep_removes_exactly_the_idle:
  assumes inv: "mgr_inv m" and due: "1000 \<le> now - last_idle_sweep m"
  shows "mgr_inv (flush_teardown (sweep_idle now m)) \<and>
    map_of (sessions (flush_teardown (sweep_idle now m))) c =
      (case map_of (sessions m) c of
         None \<Rightarrow> None
       | Some s \<Rightarrow> if dying s \<or> idle_ms m < now - last_active s then None else Some s)"
  using flush_teardown_inv [OF sweep_idle_inv [OF inv]] sweep_teardown [OF inv] due by simp

theorem sweep_removes_exactly_the_idle_witness:
  "mgr_inv (flush_teardown (sweep_idle 5000 (new_manager 3 good_mem))) \<and>
   map_of (sessions (flush_teardown (sweep_idle 5000 (new_manager 3 good_mem)))) 1000 =
      (case map_of (sessions (new_manager 3 good_mem)) 1000 of
         None \<Rightarrow> None
       | Some s \<Rightarrow> if dying s \<or> idle_ms (new_manager 3 good_mem) < 5000 - last_active s then None else Some s)"
  by (rule sweep_removes_exactly_the_idle) (rule new_manager_inv, simp add: new_manager_def)

text \<open>
  C34: A session that has just been registered is taken for an idle one. Its clock still stands at 0,
  so when the system's clock is past the idle limit, the next sweep that is due removes it, no matter
  how recently its client registered.
\<close>

theorem registered_session_is_reaped:
  assumes inv: "mgr_inv m" and good: "mem_good (heap m)" and few: "length (sessions m) < 4294967296"
    and new: "find (\<lambda>(_, s). pending_from src s) (sessions m) = None"
    and due: "1000 \<le> now - last_idle_sweep m" and up: "idle_ms m < now"
  shows "\<exists>reply c m'. register_client src m = Inr (reply, m') \<and> read_registered reply = Some c \<and>
    map_of (sessions m') c \<noteq> None \<and> map_of (sessions (flush_teardown (sweep_idle now m'))) c = None"
proof -
  obtain cv s m' where r: "register_client src m = Inr (pack_registered cv, m')"
    "map_of (sessions m') = (map_of (sessions m))(cv \<mapsto> s)" "last_active s = 0" "mgr_inv m'"
    "idle_ms m' = idle_ms m" "last_idle_sweep m' = last_idle_sweep m"
    using register_new [OF inv good few new] by metis
  have "\<not> now - last_idle_sweep m' < 1000" using due r by simp
  then have "map_of (sessions (flush_teardown (sweep_idle now m'))) cv = None"
    using sweep_teardown [OF r(4), of now cv] r up by simp
  then show ?thesis using r read_pack_registered [of cv] by auto
qed

theorem registered_session_is_reaped_witness:
  "\<exists>reply c m'. register_client \<lparr>sin_addr = 1, sin_port = 2\<rparr> (new_manager 3 good_mem) = Inr (reply, m') \<and>
     read_registered reply = Some c \<and>
     map_of (sessions m') c \<noteq> None \<and> map_of (sessions (flush_teardown (sweep_idle 3600000 m'))) c = None"
  by (rule registered_session_is_reaped) (simp_all add: new_manager_inv, simp_all add: new_manager_def)

end
