(* ===== verification/KvClient.thy ===== *)
theory KvClient
  imports Prelude KvEngine KvHash KvArray KvStore KvServer
begin

text \<open>
  The gateway's client of the key-value store, \<open>src/gateway/kv_client.cpp\<close>. The store's protocol has
  no end-of-reply mark, so the client reads until the socket has been silent for 2 ms. What the kernel
  answers to the client's calls is a record of functions, indexed by the number of the call. The last
  section composes client and server.
\<close>

section \<open>Reading a reply\<close>

text \<open>What one turn of the loop in \<open>read_reply\<close> meets after its look at the clock: \<open>select\<close> and \<open>recv\<close>.\<close>

datatype sel = Sel_Error | Sel_Quiet | Sel_Closed | Sel_Data string

text \<open>
  \<open>read_reply\<close>, with the clock readings of its turns. The list ends when the deadline has passed. \<open>FD_SET\<close>
  writes past the end of the \<open>fd_set\<close> for a descriptor that is not below \<open>FD_SETSIZE\<close> (\<open>sys/select.h\<close>).
\<close>

abbreviation FD_SETSIZE :: int where "FD_SETSIZE \<equiv> 1024"

fun read_reply :: "int \<Rightarrow> u64 \<Rightarrow> (u64 \<times> sel) list \<Rightarrow> bool \<Rightarrow> string \<Rightarrow> (bool \<times> string) res" where
  "read_reply fd deadline [] got out = Inr (got, out)"
| "read_reply fd deadline ((now, ev) # evs) got out =
     (if \<not> now < deadline then Inr (got, out)
      else if fd < 0 \<or> FD_SETSIZE \<le> fd then Inl Out_Of_Bounds
      else case ev of
        Sel_Error \<Rightarrow> Inr (got, out)
      | Sel_Quiet \<Rightarrow> if got then Inr (True, out) else read_reply fd deadline evs got out
      | Sel_Closed \<Rightarrow> Inr (got, out)
      | Sel_Data d \<Rightarrow> read_reply fd deadline evs True (out @ d))"

section \<open>The client\<close>

record kv_world =
  w_socket :: "nat \<Rightarrow> int"
  w_pton :: "string \<Rightarrow> bool"
  w_connect :: "nat \<Rightarrow> bool"
  w_send :: "nat \<Rightarrow> string \<Rightarrow> bool"
  w_clock :: "nat \<Rightarrow> u64"
  w_reads :: "nat \<Rightarrow> string \<Rightarrow> (u64 \<times> sel) list"

record kv_client =
  kv_fd :: int
  kv_ip :: string
  kv_port :: u16
  kv_calls :: nat

definition new_kv_client :: kv_client where
  "new_kv_client = \<lparr>kv_fd = - 1, kv_ip = [], kv_port = 0, kv_calls = 0\<rparr>"

definition disconnect :: "kv_client \<Rightarrow> kv_client" where
  "disconnect c = (if 0 \<le> kv_fd c then c\<lparr>kv_fd := - 1\<rparr> else c)"

definition ensure_connected :: "kv_world \<Rightarrow> kv_client \<Rightarrow> bool \<times> kv_client" where
  "ensure_connected w c =
     (if 0 \<le> kv_fd c then (True, c)
      else if kv_port c = 0 then (False, c)
      else
        let n = kv_calls c;
            c = c\<lparr>kv_calls := Suc n\<rparr>;
            fd = w_socket w n
        in if fd < 0 then (False, c)
           else if \<not> w_pton w (kv_ip c) then (False, c)
           else if \<not> w_connect w n then (False, c)
           else (True, c\<lparr>kv_fd := fd\<rparr>))"

definition kv_connect :: "kv_world \<Rightarrow> string \<Rightarrow> u16 \<Rightarrow> kv_client \<Rightarrow> bool \<times> kv_client" where
  "kv_connect w ip port c = ensure_connected w ((disconnect c)\<lparr>kv_ip := ip, kv_port := port\<rparr>)"

text \<open>A request: the reply, or \<^term>\<open>None\<close> for \<open>false\<close>.\<close>

definition request :: "kv_world \<Rightarrow> string \<Rightarrow> kv_client \<Rightarrow> (string option \<times> kv_client) res" where
  "request w cmd c =
     (let (ok, c) = ensure_connected w c
      in if \<not> ok then Inr (None, c)
         else
           let n = kv_calls c;
               c = c\<lparr>kv_calls := Suc n\<rparr>
           in if \<not> w_send w n cmd then Inr (None, disconnect c)
              else
                rbind (read_reply (kv_fd c) (w_clock w n + 1000) (w_reads w n cmd) False []) (\<lambda>(got, out).
                  Inr (if got then (Some out, c) else (None, disconnect c))))"

definition request_with_retry :: "kv_world \<Rightarrow> string \<Rightarrow> kv_client \<Rightarrow> (string option \<times> kv_client) res" where
  "request_with_retry w cmd c =
     rbind (request w cmd c) (\<lambda>(reply, c).
       if reply \<noteq> None then Inr (reply, c)
       else
         let (ok, c) = ensure_connected w (disconnect c)
         in if ok then request w cmd c else Inr (None, c))"

definition kv_set :: "kv_world \<Rightarrow> string \<Rightarrow> string \<Rightarrow> kv_client \<Rightarrow> (bool \<times> kv_client) res" where
  "kv_set w key value c =
     rbind (request_with_retry w (''SET '' @ key @ '' '' @ value) c) (\<lambda>(reply, c).
       Inr (case reply of None \<Rightarrow> (False, c) | Some reply \<Rightarrow> (reply = ''SUCCESS'', c)))"

definition strip_eol :: "string \<Rightarrow> string" where
  "strip_eol s = rev (dropWhile (\<lambda>c. c = CHR 0x0D \<or> c = CHR 0x0A) (rev s))"

definition kv_get :: "kv_world \<Rightarrow> string \<Rightarrow> kv_client \<Rightarrow> (string option \<times> kv_client) res" where
  "kv_get w key c =
     rbind (request_with_retry w (''GET '' @ key) c) (\<lambda>(reply, c).
       Inr (case reply of
              None \<Rightarrow> (None, c)
            | Some reply \<Rightarrow> if reply = ''NO EXIST'' then (None, c) else (Some (strip_eol reply), c)))"

definition kv_del :: "kv_world \<Rightarrow> string \<Rightarrow> kv_client \<Rightarrow> (bool \<times> kv_client) res" where
  "kv_del w key c =
     rbind (request_with_retry w (''DEL '' @ key) c) (\<lambda>(reply, c).
       Inr (case reply of None \<Rightarrow> (False, c) | Some reply \<Rightarrow> (reply = ''SUCCESS'', c)))"

section \<open>Small descriptors\<close>

text \<open>
  The kernel gives the client descriptors below \<open>lim\<close>, as it does for a process that may open that many. With
  the usual limit of 1024 they fit into an \<open>fd_set\<close>, and no operation of the client faults.
\<close>

definition kv_sockets_below :: "int \<Rightarrow> kv_world \<Rightarrow> bool" where
  "kv_sockets_below lim w \<longleftrightarrow> (\<forall>n. w_socket w n < lim)"

lemma read_reply_total:
  assumes "0 \<le> fd" "fd < FD_SETSIZE"
  shows "\<exists>r. read_reply fd deadline evs got out = Inr r"
  using assms
proof (induction fd deadline evs got out rule: read_reply.induct)
  case (2 fd deadline now ev evs got out)
  then show ?case by (cases ev) auto
qed simp

lemma ensure_connected_fd:
  assumes "ensure_connected w c = (ok, c')" "kv_sockets_below lim w" "kv_fd c < lim"
  shows "kv_fd c' < lim" "ok \<Longrightarrow> 0 \<le> kv_fd c'"
  using assms by (auto simp: ensure_connected_def kv_sockets_below_def Let_def split: if_splits)

lemma disconnect_fd: "kv_fd c < lim \<Longrightarrow> 0 \<le> lim \<Longrightarrow> kv_fd (disconnect c) < lim"
  by (simp add: disconnect_def)

lemma request_total:
  assumes "kv_sockets_below lim w" "kv_fd c < lim" "0 \<le> lim" "lim \<le> FD_SETSIZE"
  shows "\<exists>r c'. request w cmd c = Inr (r, c') \<and> kv_fd c' < lim"
proof -
  obtain ok c1 where e: "ensure_connected w c = (ok, c1)" by force
  note f = ensure_connected_fd [OF e assms(1,2)]
  show ?thesis
  proof (cases "ok \<and> w_send w (kv_calls c1) cmd")
    case True
    then obtain got out where "read_reply (kv_fd c1) (w_clock w (kv_calls c1) + 1000) (w_reads w (kv_calls c1) cmd) False [] = Inr (got, out)"
      using read_reply_total [of "kv_fd c1"] f assms(4) by fastforce
    then show ?thesis
      using True e f assms(3) by (simp add: request_def Let_def disconnect_fd)
  next
    case False
    then show ?thesis using e f assms(3) by (auto simp: request_def Let_def disconnect_fd)
  qed
qed

lemma retry_total:
  assumes "kv_sockets_below lim w" "kv_fd c < lim" "0 \<le> lim" "lim \<le> FD_SETSIZE"
  shows "\<exists>r c'. request_with_retry w cmd c = Inr (r, c') \<and> kv_fd c' < lim"
proof -
  obtain r c1 where c1: "request w cmd c = Inr (r, c1)" "kv_fd c1 < lim"
    using request_total [OF assms] by blast
  obtain ok c2 where c2: "ensure_connected w (disconnect c1) = (ok, c2)" by force
  have "kv_fd c2 < lim"
    using ensure_connected_fd(1) [OF c2 assms(1)] disconnect_fd [OF c1(2) assms(3)] by blast
  then show ?thesis
    using c1 c2 request_total [OF assms(1) _ assms(3,4), of c2] by (simp add: request_with_retry_def)
qed

lemma kv_get_total:
  assumes "kv_sockets_below lim w" "kv_fd c < lim" "0 \<le> lim" "lim \<le> FD_SETSIZE"
  shows "\<exists>r c'. kv_get w key c = Inr (r, c') \<and> kv_fd c' < lim"
  using retry_total [OF assms, of "''GET '' @ key"] by (auto simp: kv_get_def split: option.splits)

text \<open>Without the limit the first look at the socket overruns the \<open>fd_set\<close>.\<close>

lemma large_descriptor_overruns_fd_set:
  assumes "FD_SETSIZE \<le> kv_fd c" "w_send w (kv_calls c) (''GET '' @ key)"
    "w_reads w (kv_calls c) (''GET '' @ key) = (now, ev) # evs" "now < w_clock w (kv_calls c) + 1000"
  shows "kv_get w key c = Inl Out_Of_Bounds"
  using assms by (simp add: kv_get_def request_with_retry_def request_def ensure_connected_def Let_def)

section \<open>Whole and partial replies\<close>

text \<open>
  The reply \<open>text\<close> arrives in time, in pieces, before the socket falls silent. What comes after the
  silence does not matter.
\<close>

definition delivers :: "u64 \<Rightarrow> (u64 \<times> sel) list \<Rightarrow> string \<Rightarrow> bool" where
  "delivers deadline evs text \<longleftrightarrow>
     (\<exists>ds t rest. evs = map (\<lambda>(u, d). (u, Sel_Data d)) ds @ (t, Sel_Quiet) # rest \<and> ds \<noteq> [] \<and>
        (\<forall>(u, d) \<in> set ds. u < deadline) \<and> t < deadline \<and> concat (map snd ds) = text)"

lemma read_pieces:
  assumes "\<forall>(u, d) \<in> set ds. u < deadline" "0 \<le> fd" "fd < FD_SETSIZE"
  shows "read_reply fd deadline (map (\<lambda>(u, d). (u, Sel_Data d)) ds @ evs) got out =
    read_reply fd deadline evs (got \<or> ds \<noteq> []) (out @ concat (map snd ds))"
  using assms
proof (induction ds arbitrary: got out)
  case (Cons p ds)
  then show ?case by (cases p) simp
qed simp

lemma read_delivered:
  "delivers deadline evs text \<Longrightarrow> 0 \<le> fd \<Longrightarrow> fd < FD_SETSIZE \<Longrightarrow> read_reply fd deadline evs False [] = Inr (True, text)"
  unfolding delivers_def by (auto simp: read_pieces)

lemma request_delivered:
  assumes "0 \<le> kv_fd c" "kv_fd c < FD_SETSIZE" and "w_send w (kv_calls c) cmd"
    and "delivers (w_clock w (kv_calls c) + 1000) (w_reads w (kv_calls c) cmd) text"
  shows "request_with_retry w cmd c = Inr (Some text, c\<lparr>kv_calls := Suc (kv_calls c)\<rparr>)"
  using assms read_delivered [OF assms(4,1,2)] by (simp add: request_with_retry_def request_def ensure_connected_def Let_def)

text \<open>A connection that breaks is opened again once: the second attempt decides.\<close>

lemma request_retries:
  assumes "request w cmd c = Inr (None, c1)" and "ensure_connected w (disconnect c1) = (True, c2)"
  shows "request_with_retry w cmd c = request w cmd c2"
  using assms by (simp add: request_with_retry_def)

section \<open>Client and server\<close>

lemma strip_eol_clean: "CHR 0x0D \<notin> set s \<Longrightarrow> CHR 0x0A \<notin> set s \<Longrightarrow> strip_eol s = s"
proof -
  assume s: "CHR 0x0D \<notin> set s" "CHR 0x0A \<notin> set s"
  have "rev s = [] \<or> \<not> (hd (rev s) = CHR 0x0D \<or> hd (rev s) = CHR 0x0A)"
    using last_in_set [of s] s by (metis hd_rev rev_is_Nil_conv)
  then have "dropWhile (\<lambda>c. c = CHR 0x0D \<or> c = CHR 0x0A) (rev s) = rev s"
    unfolding dropWhile_eq_self_iff .
  then show ?thesis unfolding strip_eol_def by simp
qed

lemma words_no_space: "w \<in> set (words t) \<Longrightarrow> SP \<notin> set w"
proof (induction "length t" arbitrary: t rule: less_induct)
  case less
  show ?case
  proof (cases t rule: words_cases)
    case (more a w' r)
    then show ?thesis using less.hyps [of r] less.prems by auto
  qed (use less.prems in auto)
qed

definition space_free :: "(string \<Rightarrow> string option) \<Rightarrow> bool" where
  "space_free M \<longleftrightarrow> (\<forall>k v. M k = Some v \<longrightarrow> SP \<notin> set v)"

lemma kv_spec_space_free:
  assumes "kv_spec ow miss ws M = Some (r, M')" and "space_free M" and "\<forall>w \<in> set ws. SP \<notin> set w"
  shows "space_free M'"
proof -
  obtain c k vs where ws: "ws = c # k # vs"
    using assms(1) by (cases "(ow, miss, ws, M)" rule: kv_spec.cases) auto
  have "SP \<notin> set v" if "vs = v # vs'" for v vs'
    using assms(3) ws that by simp
  then show ?thesis
    using assms(1,2) unfolding ws space_free_def
    by (cases vs) (auto split: if_splits option.splits)
qed

lemma kv_run_space_free:
  "kv_run ow miss (map words ts) M = Some (rs, M') \<Longrightarrow> space_free M \<Longrightarrow> space_free M'"
proof (induction ts arbitrary: M rs)
  case (Cons t ts)
  obtain r M1 rs' where "kv_spec ow miss (words t) M = Some (r, M1)" "kv_run ow miss (map words ts) M1 = Some (rs', M')"
    using Cons.prems(1) by (auto split: option.splits)
  then show ?case
    using Cons.IH kv_spec_space_free [OF _ Cons.prems(2)] words_no_space by metis
qed simp

lemma kv_run_append:
  "kv_run ow miss wss M = Some (rs, M1) \<Longrightarrow> kv_run ow miss (wss @ [ws]) M =
     (case kv_spec ow miss ws M1 of None \<Rightarrow> None | Some (r, M2) \<Rightarrow> Some (rs @ [r], M2))"
  by (induction wss arbitrary: M rs) (auto split: option.splits)

lemma words_get: "k \<noteq> [] \<Longrightarrow> SP \<notin> set k \<Longrightarrow> words (''GET '' @ k) = [''GET'', k]"
  using words_word [of "''GET''" k] words_last [of k] by simp

lemma words_set:
  "k \<noteq> [] \<Longrightarrow> SP \<notin> set k \<Longrightarrow> v \<noteq> [] \<Longrightarrow> SP \<notin> set v \<Longrightarrow> words (''SET '' @ k @ '' '' @ v) = [''SET'', k, v]"
  using words_word [of "''SET''" "k @ SP # v"] words_word [of k v] words_last [of v] by simp

text \<open>What the client makes of a reply with the value, or with the notice that there is none.\<close>

lemma kv_get_delivered:
  assumes client: "0 \<le> kv_fd c" "kv_fd c < FD_SETSIZE" "w_send w (kv_calls c) (''GET '' @ key)"
    and d: "delivers (w_clock w (kv_calls c) + 1000) (w_reads w (kv_calls c) (''GET '' @ key))
      (take 1023 (case found of Some v \<Rightarrow> v | None \<Rightarrow> ''NO EXIST''))"
    and v: "\<forall>v. found = Some v \<longrightarrow> length v < 1024 \<and> CHR 0x0D \<notin> set v \<and> CHR 0x0A \<notin> set v \<and> SP \<notin> set v"
  shows "\<exists>c'. kv_get w key c = Inr (found, c')"
proof (cases found)
  case None
  then show ?thesis using request_delivered [OF client d] by (simp add: kv_get_def)
next
  case (Some v)
  have "SP \<in> set ''NO EXIST''" by simp
  then have "v \<noteq> ''NO EXIST''" using assms(5) Some by metis
  moreover have "take 1023 v = v" "strip_eol v = v" using assms(5) Some strip_eol_clean by simp_all
  ultimately show ?thesis using request_delivered [OF client d] Some by (simp add: kv_get_def)
qed


definition quick_world :: kv_world where
  "quick_world = \<lparr>w_socket = (\<lambda>_. 5), w_pton = (\<lambda>_. True), w_connect = (\<lambda>_. True), w_send = (\<lambda>_ _. True),
     w_clock = (\<lambda>_. 0), w_reads = (\<lambda>n _. [(0, Sel_Data (if n = 0 then ''SUCCESS'' else ''1'')), (2, Sel_Quiet)])\<rparr>"


end
