(* ===== verification/Gateway.thy ===== *)
theory Gateway
  imports Prelude KvEngine KvHash KvArray KvStore KvServer KcpBase KcpSend KcpRecv KcpAck KcpInput KcpFlush KcpSafe
    Tunnel MemPool Sessions KvClient
begin

text \<open>
  The gateway, \<open>src/gateway/gateway.cpp\<close>: the handlers of datagrams from clients
  and of replies from game servers. A handler is given what its \<open>recvfrom\<close> calls return until the
  socket is drained; what it sends is recorded.
\<close>

section \<open>State\<close>

text \<open>
  What the surroundings answer: the readings of the millisecond clock by their number, the descriptor
  that \<open>socket\<close> returns given the target sockets that are open, \<open>inet_pton\<close>, and the network of the
  key-value client.
\<close>

record world =
  clock :: "nat \<Rightarrow> u64"
  new_socket :: "int list \<Rightarrow> int"
  pton :: "string \<Rightarrow> u32 option"
  kv_net :: kv_world

text \<open>\<open>to_clients\<close> and \<open>to_targets\<close> are the datagrams sent so far, latest last.\<close>

record gateway =
  gpool :: pool
  mgr :: manager
  kvc :: kv_client
  ticks :: nat
  to_clients :: "(sockaddr \<times> bytes) list"
  to_targets :: "(int \<times> sockaddr \<times> bytes) list"

definition now_ms :: "world \<Rightarrow> gateway \<Rightarrow> u64 \<times> gateway" where
  "now_ms w g = (clock w (ticks g), g\<lparr>ticks := Suc (ticks g)\<rparr>)"

text \<open>\<open>s->last_active = now_ms()\<close>.\<close>

definition touch :: "world \<Rightarrow> u32 \<Rightarrow> gateway \<Rightarrow> gateway res" where
  "touch w c g =
     rbind (session_at (mgr g) c) (\<lambda>s.
       let (t, g) = now_ms w g in Inr (g\<lparr>mgr := put_session (s\<lparr>last_active := t\<rparr>) (mgr g)\<rparr>))"

text \<open>A call of the KCP library on a session's connection, with the process's allocator.\<close>

definition on_kcp :: "(ikcpcb \<Rightarrow> ('a \<times> ikcpcb) res) \<Rightarrow> u32 \<Rightarrow> gateway \<Rightarrow> ('a \<times> gateway) res" where
  "on_kcp f c g =
     rbind (session_at (mgr g) c) (\<lambda>s.
       case ks_kcp (s_kcp s) of
         None \<Rightarrow> Inl Null_Deref
       | Some k \<Rightarrow>
           rbind (f (k\<lparr>kcp_mem := heap (mgr g)\<rparr>)) (\<lambda>(x, k).
             Inr (x, g\<lparr>mgr := put_session (s\<lparr>s_kcp := (s_kcp s)\<lparr>ks_kcp := Some k\<rparr>\<rparr>) ((mgr g)\<lparr>heap := kcp_mem k\<rparr>)\<rparr>)))"

text \<open>Calls that send: the callback \<open>kcp_output\<close> sends every datagram to the session's peer.\<close>

definition kcp_out :: "(ikcpcb \<Rightarrow> (bytes list \<times> ikcpcb) res) \<Rightarrow> u32 \<Rightarrow> gateway \<Rightarrow> gateway res" where
  "kcp_out f c g =
     rbind (session_at (mgr g) c) (\<lambda>s.
     rbind (on_kcp f c g) (\<lambda>(ds, g).
       Inr (g\<lparr>to_clients := to_clients g @ map (Pair (ks_peer (s_kcp s))) ds\<rparr>)))"

section \<open>Messages from clients\<close>

definition str_of :: "bytes \<Rightarrow> string" where
  "str_of b = map (\<lambda>x. char_of (unat x)) b"

text \<open>The three kinds of message; the result is whether the session is gone.\<close>

definition handle_connect :: "world \<Rightarrow> u32 \<Rightarrow> bytes \<Rightarrow> gateway \<Rightarrow> (bool \<times> gateway) res" where
  "handle_connect w c buf g =
     rbind (session_at (mgr g) c) (\<lambda>s.
       if 0 \<le> target_fd s then Inr (False, g)
       else
         rbind (read_connect_route buf (ROUTE_MAX + 1)) (\<lambda>route.
         rbind (kv_get (kv_net w) (''route:'' @ c_str (str_of route)) (kvc g)) (\<lambda>(node, kv).
         let g = g\<lparr>kvc := kv\<rparr>
         in case Option.bind node (node_to_addr (pton w)) of
              None \<Rightarrow> Inr (True, g\<lparr>mgr := mark_dying s (mgr g)\<rparr>)
            | Some addr \<Rightarrow>
                rbind (touch w c (g\<lparr>mgr := put_session (s\<lparr>target_addr := addr\<rparr>) (mgr g)\<rparr>)) (\<lambda>g.
                rbind (session_at (mgr g) c) (\<lambda>s.
                let (ok, m) = open_target (new_socket w (watched (mgr g))) s (mgr g)
                in Inr (\<not> ok, g\<lparr>mgr := m\<rparr>))))))"

definition handle_data :: "world \<Rightarrow> u32 \<Rightarrow> bytes \<Rightarrow> gateway \<Rightarrow> (bool \<times> gateway) res" where
  "handle_data w c data g =
     rbind (session_at (mgr g) c) (\<lambda>s.
       if target_fd s < 0 then Inr (False, g)
       else rbind (touch w c g) (\<lambda>g.
              Inr (False, g\<lparr>to_targets := to_targets g @ [(target_fd s, target_addr s, data)]\<rparr>)))"

definition handle_tunnel_msg :: "world \<Rightarrow> u32 \<Rightarrow> bytes \<Rightarrow> gateway \<Rightarrow> (bool \<times> gateway) res" where
  "handle_tunnel_msg w c buf g =
     (case parse buf of
        None \<Rightarrow> Inr (False, g)
      | Some p \<Rightarrow>
          if ptype p = PACKET_CONNECT then handle_connect w c buf g
          else if ptype p = PACKET_DATA then handle_data w c (case pdata p of None \<Rightarrow> [] | Some d \<Rightarrow> d) g
          else if ptype p = PACKET_CLOSE then
            rbind (session_at (mgr g) c) (\<lambda>s. Inr (True, g\<lparr>mgr := mark_dying s (mgr g)\<rparr>))
          else Inr (False, g))"

text \<open>Blocks of the pool: taken, filled by a call that reads into them, and given back.\<close>

definition pool_get :: "gateway \<Rightarrow> (nat option \<times> gateway) res" where
  "pool_get g = rbind (pool_alloc (gpool g)) (\<lambda>(b, p). Inr (b, g\<lparr>gpool := p\<rparr>))"

definition pool_fill :: "nat \<Rightarrow> bytes \<Rightarrow> gateway \<Rightarrow> gateway" where
  "pool_fill b data g = g\<lparr>gpool := pool_write b data (gpool g)\<rparr>"

definition pool_put :: "nat \<Rightarrow> gateway \<Rightarrow> gateway" where
  "pool_put b g = g\<lparr>gpool := pool_free (Some b) (gpool g)\<rparr>"

text \<open>
  The inner loop that takes messages out of the connection into the block \<open>b\<close>. Every message takes a
  segment with it, so the number of segments that wait is fuel enough.
\<close>

fun drain_msgs :: "nat \<Rightarrow> world \<Rightarrow> u32 \<Rightarrow> nat \<Rightarrow> gateway \<Rightarrow> (bool \<times> gateway) res" where
  "drain_msgs 0 w c b g = Inl Diverges"
| "drain_msgs (Suc n) w c b g =
     rbind (on_kcp (\<lambda>k. rbind (ikcp_recv k (int POOL_BLOCK)) (\<lambda>(got, msg, k). Inr ((got, msg), k))) c g) (\<lambda>((got, msg), g).
       if got \<le> 0 then Inr (False, g)
       else rbind (handle_tunnel_msg w c msg (pool_fill b msg g)) (\<lambda>(gone, g).
              if gone then Inr (True, g) else drain_msgs n w c b g))"

definition waiting :: "u32 \<Rightarrow> gateway \<Rightarrow> nat" where
  "waiting c g =
     (case map_of (sessions (mgr g)) c of
        None \<Rightarrow> 0
      | Some s \<Rightarrow> (case ks_kcp (s_kcp s) of None \<Rightarrow> 0 | Some k \<Rightarrow> length (rcv_queue k) + length (rcv_buf k)))"

text \<open>One KCP segment: input, update, flush; then the messages that have become complete.\<close>

definition serve_segment :: "world \<Rightarrow> u32 \<Rightarrow> bytes \<Rightarrow> gateway \<Rightarrow> gateway res" where
  "serve_segment w c pkt g =
     rbind (touch w c g) (\<lambda>g.
     rbind (on_kcp (\<lambda>k. ikcp_input k pkt) c g) (\<lambda>(_, g).
     let (t, g) = now_ms w g
     in rbind (kcp_out (\<lambda>k. ikcp_update k (now32 t)) c g) (\<lambda>g. kcp_out ikcp_flush c g)))"

definition serve_messages :: "world \<Rightarrow> u32 \<Rightarrow> nat \<Rightarrow> gateway \<Rightarrow> gateway res" where
  "serve_messages w c b g =
     rbind (drain_msgs (Suc (waiting c g)) w c b g) (\<lambda>(gone, g).
       let g = pool_put b g in if gone then Inr g else touch w c g)"

text \<open>
  \<open>handle_tunnel_datagram\<close> over the datagrams that are waiting; when none is left \<open>recvfrom\<close> fails.
\<close>

fun handle_tunnel_datagram :: "world \<Rightarrow> (sockaddr \<times> bytes) list \<Rightarrow> gateway \<Rightarrow> gateway res" where
  "handle_tunnel_datagram w [] g =
     rbind (pool_get g) (\<lambda>(b, g). case b of None \<Rightarrow> Inr g | Some b \<Rightarrow> Inr (pool_put b g))"
| "handle_tunnel_datagram w ((src, dgram) # rest) g =
     rbind (pool_get g) (\<lambda>(b, g).
       case b of
         None \<Rightarrow> Inr g
       | Some b \<Rightarrow>
           let pkt = take POOL_BLOCK dgram;
               g = pool_fill b pkt g
           in if length pkt = 1 \<and> pkt ! 0 = PACKET_REGISTER then
                rbind (register_client src (mgr g)) (\<lambda>(reply, m).
                  handle_tunnel_datagram w rest
                    (pool_put b (g\<lparr>mgr := m, to_clients := to_clients g @ [(src, reply)]\<rparr>)))
              else if length pkt < 24 then handle_tunnel_datagram w rest (pool_put b g)
              else
                rbind (lookup src pkt (mgr g)) (\<lambda>c.
                case c of
                  None \<Rightarrow> handle_tunnel_datagram w rest (pool_put b g)
                | Some c \<Rightarrow>
                    rbind (session_at (mgr g) c) (\<lambda>s.
                      if dying s then handle_tunnel_datagram w rest (pool_put b g)
                      else
                        rbind (serve_segment w c pkt g) (\<lambda>g.
                        rbind (pool_get (pool_put b g)) (\<lambda>(b, g).
                          case b of
                            None \<Rightarrow> Inr g
                          | Some b \<Rightarrow> rbind (serve_messages w c b g) (handle_tunnel_datagram w rest))))))"

section \<open>Replies from game servers\<close>

abbreviation MAX_REPLY :: nat where "MAX_REPLY \<equiv> POOL_BLOCK - 3"

text \<open>The loop of \<open>handle_target_reply\<close> over the replies that are waiting on the target's socket.\<close>

fun relay_replies :: "world \<Rightarrow> u32 \<Rightarrow> bytes list \<Rightarrow> gateway \<Rightarrow> gateway res" where
  "relay_replies w c [] g =
     rbind (pool_get g) (\<lambda>(b, g). case b of None \<Rightarrow> Inr g | Some b \<Rightarrow> Inr (pool_put b g))"
| "relay_replies w c (reply # rest) g =
     rbind (pool_get g) (\<lambda>(b1, g).
       case b1 of
         None \<Rightarrow> Inr g
       | Some b1 \<Rightarrow>
           let rply = take MAX_REPLY reply
           in rbind (touch w c (pool_fill b1 rply g)) (\<lambda>g.
              rbind (pool_get g) (\<lambda>(b2, g).
                case b2 of
                  None \<Rightarrow> Inr (pool_put b1 g)
                | Some b2 \<Rightarrow>
                    rbind (pack_data POOL_BLOCK rply (word_of_nat (length rply))) (\<lambda>tmsg.
                    let (t, g) = now_ms w (pool_fill b2 tmsg g)
                    in rbind (kcp_out (\<lambda>k. ikcp_update k (now32 t)) c g) (\<lambda>g.
                       rbind (on_kcp (\<lambda>k. ikcp_send k tmsg (int (length tmsg))) c g) (\<lambda>(_, g).
                       rbind (kcp_out ikcp_flush c g) (\<lambda>g.
                         relay_replies w c rest (pool_put b1 (pool_put b2 g)))))))))"

definition handle_target_reply :: "world \<Rightarrow> u32 \<Rightarrow> bytes list \<Rightarrow> gateway \<Rightarrow> gateway res" where
  "handle_target_reply w c replies g =
     rbind (session_at (mgr g) c) (\<lambda>s. if dying s then Inr g else relay_replies w c replies g)"

section \<open>Runs that do not fault\<close>

lemma safe_only_overflow: "only_overflow r \<Longrightarrow> (\<And>x. r = Inr x \<Longrightarrow> P x) \<Longrightarrow> safe P r"
  by (cases r) (simp_all add: only_overflow_def)

section \<open>The manager with its connections\<close>

definition kcp_at :: "u32 \<Rightarrow> manager \<Rightarrow> ikcpcb option" where
  "kcp_at c m = Option.bind (map_of (sessions m) c) (\<lambda>s. ks_kcp (s_kcp s))"

definition sess_blocks :: "u32 \<times> session \<Rightarrow> int" where
  "sess_blocks cs = (case ks_kcp (s_kcp (snd cs)) of None \<Rightarrow> 0 | Some k \<Rightarrow> int (kcp_blocks k))"

text \<open>
  Every session's connection is in order and owes no acknowledgement, the one in hand apart, and the
  live blocks of the heap are \<open>base\<close> and those of the connections.
\<close>

definition conn_ok :: "u32 set \<Rightarrow> u32 \<Rightarrow> ikcpcb \<Rightarrow> bool" where
  "conn_ok busy c k \<longleftrightarrow> kcp_shape k \<and> mtu k = 1400 \<and> (acklist k = [] \<or> c \<in> busy)"

definition conns_ok :: "u32 set \<Rightarrow> int \<Rightarrow> manager \<Rightarrow> bool" where
  "conns_ok busy base m \<longleftrightarrow>
     mgr_inv m \<and> mem_good (heap m) \<and>
     (\<forall>c k. kcp_at c m = Some k \<longrightarrow> conn_ok busy c k) \<and>
     mem_live (heap m) = base + sum_list (map sess_blocks (sessions m))"

lemma conn_ok_mem [simp]: "conn_ok busy c (k\<lparr>kcp_mem := h\<rparr>) = conn_ok busy c k"
  by (simp add: conn_ok_def)

lemma kcp_at_session: "mgr_inv m \<Longrightarrow> kcp_at c m = None \<longleftrightarrow> map_of (sessions m) c = None"
  using mgr_session(2) [of m c] by (auto simp: kcp_at_def split: bind_splits)

lemma kcp_at_SomeD: "kcp_at c m = Some k \<Longrightarrow> \<exists>s. map_of (sessions m) c = Some s \<and> ks_kcp (s_kcp s) = Some k"
  by (auto simp: kcp_at_def bind_eq_Some_conv)

lemma conns_session:
  assumes "conns_ok busy base m" and "kcp_at c m = Some k"
  obtains s where "session_at m c = Inr s" "map_of (sessions m) c = Some s" "ks_kcp (s_kcp s) = Some k" "s_conv s = c"
    "conn_ok busy c k"
  using kcp_at_SomeD [OF assms(2)] assms mgr_session(1) [of m c] by (auto simp: conns_ok_def session_at_def)

lemma sum_blocks_put:
  assumes "distinct (map fst ss)" and "map_of ss c = Some s0"
  shows "sum_list (map sess_blocks (map (\<lambda>(k, x). if k = c then (k, s) else (k, x)) ss)) =
    sum_list (map sess_blocks ss) - sess_blocks (c, s0) + sess_blocks (c, s)"
  using assms
proof (induction ss)
  case (Cons p ss)
  obtain d x where p: "p = (d, x)" by force
  show ?case
  proof (cases "d = c")
    case True
    have "map (\<lambda>(k, x). if k = c then (k, s) else (k, x)) ss = ss"
      using Cons.prems(1) p True by (intro map_idI) (auto simp: image_iff)
    then show ?thesis using Cons.prems p True by simp
  next
    case False
    then show ?thesis using Cons p by simp
  qed
qed simp

lemma conns_put:
  assumes ok: "conns_ok busy base m" and c: "map_of (sessions m) c = Some s0" "ks_kcp (s_kcp s0) = Some k0"
    and inv: "mgr_inv m'" and m': "sessions m' = sessions (put_session s m)" "s_conv s = c" "mem_good (heap m')"
    and k: "ks_kcp (s_kcp s) = Some k" "conn_ok busy c k"
    and live: "mem_live (heap m') - int (kcp_blocks k) = mem_live (heap m) - int (kcp_blocks k0)"
  shows "conns_ok busy base m'" and "kcp_at c m' = Some k"
proof -
  have mo: "map_of (sessions m') = (map_of (sessions m))(c \<mapsto> s)" using m' c by simp
  then show "kcp_at c m' = Some k" using k by (simp add: kcp_at_def)
  have "conn_ok busy d k'" if "kcp_at d m' = Some k'" for d k'
    using that ok mo k by (cases "d = c") (auto simp: kcp_at_def conns_ok_def)
  moreover have "distinct (map fst (sessions m))" using ok by (simp add: conns_ok_def mgr_inv_def)
  then have "sum_list (map sess_blocks (sessions m')) =
      sum_list (map sess_blocks (sessions m)) - sess_blocks (c, s0) + sess_blocks (c, s)"
    using sum_blocks_put [OF _ c(1)] m' by (simp add: put_session_def)
  ultimately show "conns_ok busy base m'"
    using ok inv m' k c live by (simp add: conns_ok_def sess_blocks_def)
qed

text \<open>Changes to a session that leave its connection alone.\<close>

lemma conns_same:
  assumes ok: "conns_ok busy base m" and c: "map_of (sessions m) c = Some s0"
    and inv: "mgr_inv m'" and m': "sessions m' = sessions (put_session s m)" "s_conv s = c" "heap m' = heap m"
    and s: "s_kcp s = s_kcp s0"
  shows "conns_ok busy base m'" and "kcp_at c m' = kcp_at c m"
proof -
  obtain k where k: "ks_kcp (s_kcp s0) = Some k" "conn_ok busy c k" "mem_good (heap m)"
    using ok c mgr_session(2) [of m c] by (fastforce simp: conns_ok_def kcp_at_def)
  have a: "mem_good (heap m')" "ks_kcp (s_kcp s) = Some k" "mem_live (heap m') - int (kcp_blocks k) = mem_live (heap m) - int (kcp_blocks k)"
    using k m' s by simp_all
  show "conns_ok busy base m'" "kcp_at c m' = kcp_at c m"
    using conns_put [OF ok c k(1) inv m'(1,2) a(1,2) k(2) a(3)] k c by (simp_all add: kcp_at_def)
qed

section \<open>The gateway's invariant\<close>

text \<open>\<open>free\<close> are the free blocks of the pool, and there are at most \<open>n\<close> sessions; no datagram exceeds the MTU.\<close>

definition gw_ok :: "int \<Rightarrow> u32 set \<Rightarrow> int \<Rightarrow> nat list \<Rightarrow> nat \<Rightarrow> gateway \<Rightarrow> bool" where
  "gw_ok lim busy base free n g \<longleftrightarrow>
     conns_ok busy base (mgr g) \<and> pool_rep (gpool g) free \<and> length (sessions (mgr g)) \<le> n \<and>
     list_all (\<lambda>(_, d). length d \<le> 1400) (to_clients g) \<and> kv_fd (kvc g) < lim"

lemma gw_ok_simps [simp]:
  "gw_ok lim busy base free n (g\<lparr>ticks := t\<rparr>) = gw_ok lim busy base free n g"
  "gw_ok lim busy base free n (g\<lparr>to_targets := ts\<rparr>) = gw_ok lim busy base free n g"
  by (simp_all add: gw_ok_def)

lemma gw_ok_mgr:
  "gw_ok lim busy base free n g \<Longrightarrow> conns_ok busy base m \<Longrightarrow> length (sessions m) \<le> n \<Longrightarrow> gw_ok lim busy base free n (g\<lparr>mgr := m\<rparr>)"
  by (simp add: gw_ok_def)

lemma on_kcp_safe:
  assumes ok: "gw_ok lim busy base free n g" and k: "kcp_at c (mgr g) = Some k"
    and f: "\<And>h. kcp_ok (k\<lparr>kcp_mem := h\<rparr>) \<Longrightarrow>
      safe (\<lambda>(x, k'). keeps (k\<lparr>kcp_mem := h\<rparr>) k' \<and> (acklist k' = [] \<or> c \<in> busy) \<and> Q x k') (f (k\<lparr>kcp_mem := h\<rparr>))"
  shows "safe (\<lambda>(x, g'). gw_ok lim busy base free n g' \<and> (\<exists>k'. kcp_at c (mgr g') = Some k' \<and> Q x k')) (on_kcp f c g)"
proof -
  have co: "conns_ok busy base (mgr g)" using ok by (simp add: gw_ok_def)
  obtain s where s: "session_at (mgr g) c = Inr s" "map_of (sessions (mgr g)) c = Some s" "ks_kcp (s_kcp s) = Some k" "s_conv s = c"
      "conn_ok busy c k"
    using conns_session [OF co k] by blast
  let ?k = "k\<lparr>kcp_mem := heap (mgr g)\<rparr>"
  have "kcp_ok ?k" using s(5) co by (simp add: kcp_ok_def conn_ok_def conns_ok_def)
  note f = f [OF this]
  show ?thesis
    unfolding on_kcp_def s(1) rbind.simps s(3) option.case
  proof (rule safe_rbind [OF f], clarify, unfold safe_simps, clarify)
    fix x k' assume k': "keeps ?k k'" "acklist k' = [] \<or> c \<in> busy" "Q x k'"
    let ?s = "s\<lparr>s_kcp := (s_kcp s)\<lparr>ks_kcp := Some k'\<rparr>\<rparr>" and ?m = "(mgr g)\<lparr>heap := kcp_mem k'\<rparr>"
    have k2: "conn_ok busy c k'" "mem_good (kcp_mem k')" "mem_live (kcp_mem k') - int (kcp_blocks k') = mem_live (heap (mgr g)) - int (kcp_blocks k)"
      using k' s(5) by (auto simp: keeps_def conn_ok_def kcp_ok_def owed_def kcp_blocks_def)
    have inv: "mgr_inv (put_session ?s ?m)"
      by (rule put_session_inv [where ?s0.0 = s]) (use s co mgr_session [of "mgr g" c s] in \<open>simp_all add: conns_ok_def\<close>)
    have ss: "sessions (put_session ?s ?m) = sessions (put_session ?s (mgr g))" by (simp add: put_session_def)
    note p = conns_put [OF co s(2,3) inv ss, of k']
    have "conns_ok busy base (put_session ?s ?m)" "kcp_at c (put_session ?s ?m) = Some k'"
      using p k2 s(4) by simp_all
    moreover have "length (sessions (put_session ?s ?m)) \<le> n" using ok by (simp add: gw_ok_def)
    ultimately show "gw_ok lim busy base free n (g\<lparr>mgr := put_session ?s ?m\<rparr>) \<and>
        (\<exists>k'. kcp_at c (mgr (g\<lparr>mgr := put_session ?s ?m\<rparr>)) = Some k' \<and> Q x k')"
      using gw_ok_mgr [OF ok] k'(3) by simp
  qed
qed

lemma same_safe:
  assumes ok: "gw_ok lim busy base free n g" and s0: "map_of (sessions (mgr g)) c = Some s0"
    and inv: "mgr_inv m'" and m': "sessions m' = sessions (put_session s (mgr g))" "s_conv s = c" "heap m' = heap (mgr g)"
    and s: "s_kcp s = s_kcp s0"
  shows "gw_ok lim busy base free n (g\<lparr>mgr := m'\<rparr>)" and "kcp_at c m' = kcp_at c (mgr g)"
proof -
  have co: "conns_ok busy base (mgr g)" using ok by (simp add: gw_ok_def)
  note p = conns_same [OF co s0 inv m' s]
  show "kcp_at c m' = kcp_at c (mgr g)" by (rule p(2))
  have "length (sessions m') \<le> n" using ok m'(1) by (simp add: gw_ok_def)
  then show "gw_ok lim busy base free n (g\<lparr>mgr := m'\<rparr>)" using gw_ok_mgr [OF ok p(1)] by simp
qed

lemma gw_session:
  assumes "gw_ok lim busy base free n g" and "kcp_at c (mgr g) = Some k"
  obtains s where "session_at (mgr g) c = Inr s" "map_of (sessions (mgr g)) c = Some s" "ks_kcp (s_kcp s) = Some k" "s_conv s = c"
    "conn_ok busy c k" "mgr_inv (mgr g)"
  using conns_session [of busy base "mgr g" c k] assms by (auto simp: gw_ok_def conns_ok_def)

text \<open>Setting a session's clock or target.\<close>

lemma field_safe:
  assumes ok: "gw_ok lim busy base free n g" and k: "kcp_at c (mgr g) = Some k" and s0: "map_of (sessions (mgr g)) c = Some s0"
    and s: "s_conv s = s_conv s0" "s_kcp s = s_kcp s0" "dying s = dying s0" "target_fd s = target_fd s0" "client_addr s = client_addr s0"
  shows "gw_ok lim busy base free n (g\<lparr>mgr := put_session s (mgr g)\<rparr>)" and "kcp_at c (put_session s (mgr g)) = kcp_at c (mgr g)"
proof -
  have inv: "mgr_inv (mgr g)" using ok by (simp add: gw_ok_def conns_ok_def)
  note t = mgr_session [OF inv s0]
  have "mgr_inv (put_session s (mgr g))"
    by (rule put_session_inv [OF inv]) (use s s0 t in simp_all)
  moreover have "s_conv s = c" using s t by simp
  ultimately show "gw_ok lim busy base free n (g\<lparr>mgr := put_session s (mgr g)\<rparr>)" "kcp_at c (put_session s (mgr g)) = kcp_at c (mgr g)"
    using same_safe [OF ok s0 _ refl] s by simp_all
qed

lemma touch_safe:
  assumes ok: "gw_ok lim busy base free n g" and k: "kcp_at c (mgr g) = Some k"
  shows "\<exists>g'. touch w c g = Inr g' \<and> gw_ok lim busy base free n g' \<and> kcp_at c (mgr g') = Some k"
proof -
  obtain s where s: "session_at (mgr g) c = Inr s" "map_of (sessions (mgr g)) c = Some s"
    using gw_session [OF ok k] by blast
  show ?thesis
    using s k field_safe [OF ok k s(2), of "s\<lparr>last_active := clock w (ticks g)\<rparr>"]
    by (simp add: touch_def now_ms_def)
       (metis gw_ok_simps(1) gateway.surjective gateway.update_convs(2,4))
qed

lemma kcp_out_safe:
  assumes ok: "gw_ok lim busy base free n g" and k: "kcp_at c (mgr g) = Some k"
    and f: "\<And>h. kcp_ok (k\<lparr>kcp_mem := h\<rparr>) \<Longrightarrow> \<exists>outs k'. f (k\<lparr>kcp_mem := h\<rparr>) = Inr (outs, k') \<and>
      keeps (k\<lparr>kcp_mem := h\<rparr>) k' \<and> (\<forall>d \<in> set outs. length d \<le> 1400) \<and> (acklist k' = [] \<or> c \<in> busy) \<and> Q k'"
  shows "safe (\<lambda>g'. gw_ok lim busy base free n g' \<and> (\<exists>k'. kcp_at c (mgr g') = Some k' \<and> Q k')) (kcp_out f c g)"
proof -
  obtain s where s: "session_at (mgr g) c = Inr s" using gw_session [OF ok k] by blast
  have "safe (\<lambda>(outs, g'). gw_ok lim busy base free n g' \<and>
      (\<exists>k'. kcp_at c (mgr g') = Some k' \<and> (\<forall>d \<in> set outs. length d \<le> 1400) \<and> Q k')) (on_kcp f c g)"
    using f by (intro on_kcp_safe [OF ok k] safe_ex) fastforce
  then show ?thesis
    unfolding kcp_out_def s rbind.simps
  proof (rule safe_rbind, clarify, unfold safe_simps)
    fix outs :: "bytes list" and g' k' assume g': "gw_ok lim busy base free n g'" "kcp_at c (mgr g') = Some k'" "\<forall>d \<in> set outs. length d \<le> 1400" "Q k'"
    show "gw_ok lim busy base free n (g'\<lparr>to_clients := to_clients g' @ map (Pair (ks_peer (s_kcp s))) outs\<rparr>) \<and>
        (\<exists>k'. kcp_at c (mgr (g'\<lparr>to_clients := to_clients g' @ map (Pair (ks_peer (s_kcp s))) outs\<rparr>)) = Some k' \<and> Q k')"
      using g' by (auto simp: gw_ok_def list_all_iff)
  qed
qed

section \<open>Messages from clients\<close>

text \<open>No two sockets that are open have the same descriptor.\<close>

definition fresh_sockets :: "world \<Rightarrow> bool" where
  "fresh_sockets w \<longleftrightarrow> (\<forall>fds. new_socket w fds \<notin> set fds)"

text \<open>The descriptors of the connection to the store stay below \<open>lim\<close>, and that fits into an \<open>fd_set\<close>.\<close>

definition kv_fits :: "int \<Rightarrow> world \<Rightarrow> bool" where
  "kv_fits lim w \<longleftrightarrow> kv_sockets_below lim (kv_net w) \<and> 0 \<le> lim \<and> lim \<le> FD_SETSIZE"

lemma mark_safe:
  assumes ok: "gw_ok lim busy base free n g" and s: "map_of (sessions (mgr g)) c = Some s"
  shows "gw_ok lim busy base free n (g\<lparr>mgr := mark_dying s (mgr g)\<rparr>)" and "kcp_at c (mark_dying s (mgr g)) = kcp_at c (mgr g)"
proof -
  have inv: "mgr_inv (mgr g)" using ok by (simp add: gw_ok_def conns_ok_def)
  have c: "s_conv s = c" using mgr_session(1) [OF inv s] .
  have m: "sessions (mark_dying s (mgr g)) = sessions (put_session (s\<lparr>dying := True\<rparr>) (mgr g))" "heap (mark_dying s (mgr g)) = heap (mgr g)"
    by (simp_all add: mark_dying_def)
  have "mgr_inv (mark_dying s (mgr g))" using mark_dying_inv [OF inv] s c by simp
  then show "gw_ok lim busy base free n (g\<lparr>mgr := mark_dying s (mgr g)\<rparr>)" "kcp_at c (mark_dying s (mgr g)) = kcp_at c (mgr g)"
    using same_safe [OF ok s _ m(1) _ m(2)] c by simp_all
qed

lemma open_safe:
  assumes ok: "gw_ok lim busy base free n g" and s: "map_of (sessions (mgr g)) c = Some s"
    and t: "target_fd s < 0" "fd \<notin> set (watched (mgr g))"
  shows "gw_ok lim busy base free n (g\<lparr>mgr := snd (open_target fd s (mgr g))\<rparr>)" and "kcp_at c (snd (open_target fd s (mgr g))) = kcp_at c (mgr g)"
proof -
  have inv: "mgr_inv (mgr g)" using ok by (simp add: gw_ok_def conns_ok_def)
  have c: "s_conv s = c" using mgr_session(1) [OF inv s] .
  have m: "sessions (snd (open_target fd s (mgr g))) = sessions (put_session (s\<lparr>target_fd := fd\<rparr>) (mgr g))"
      "heap (snd (open_target fd s (mgr g))) = heap (mgr g)"
    by (simp_all add: open_target_def Let_def)
  have "mgr_inv (snd (open_target fd s (mgr g)))" using open_target_inv [OF inv _ t] s c by simp
  then show "gw_ok lim busy base free n (g\<lparr>mgr := snd (open_target fd s (mgr g))\<rparr>)" "kcp_at c (snd (open_target fd s (mgr g))) = kcp_at c (mgr g)"
    using same_safe [OF ok s _ m(1) _ m(2)] c by simp_all
qed

lemma pool_get_safe:
  assumes "gw_ok lim busy base (b # free) n g"
  shows "\<exists>g'. pool_get g = Inr (Some b, g') \<and> gw_ok lim busy base free n g' \<and> b \<notin> set free \<and> mgr g' = mgr g \<and>
    to_clients g' = to_clients g \<and> to_targets g' = to_targets g \<and> ticks g' = ticks g \<and> kvc g' = kvc g"
proof -
  have "pool_rep (gpool g) (b # free)" using assms by (simp add: gw_ok_def)
  then obtain p' where "pool_alloc (gpool g) = Inr (Some b, p')" "pool_rep p' free" "b \<notin> set free"
    using blocks.borrow by metis
  then show ?thesis using assms by (simp add: pool_get_def gw_ok_def)
qed

lemma pool_fill_ok [simp]:
  assumes "b \<notin> set free"
  shows "gw_ok lim busy base free n (pool_fill b d g) = gw_ok lim busy base free n g"
  using assms by (simp add: gw_ok_def pool_fill_def pool_rep_def pool_write_def)

lemma pool_put_safe:
  assumes "gw_ok lim busy base free n g" and "b \<notin> set free" "b < POOL_CAP"
  shows "gw_ok lim busy base (b # free) n (pool_put b g)"
  using assms by (simp add: gw_ok_def pool_put_def pool_rep_def pool_free_def)

lemma pool_fields [simp]:
  "mgr (pool_fill b d g) = mgr g" "mgr (pool_put b g) = mgr g"
  "to_clients (pool_fill b d g) = to_clients g" "to_clients (pool_put b g) = to_clients g"
  "to_targets (pool_fill b d g) = to_targets g" "to_targets (pool_put b g) = to_targets g"
  by (simp_all add: pool_fill_def pool_put_def)

lemma connect_safe:
  assumes w: "fresh_sockets w" and kw: "kv_fits lim w" and ok: "gw_ok lim busy base free n g" and k: "kcp_at c (mgr g) = Some k"
    and p: "parse buf = Some p" "ptype p = PACKET_CONNECT"
  shows "safe (\<lambda>(_, g'). gw_ok lim busy base free n g' \<and> kcp_at c (mgr g') = Some k) (handle_connect w c buf g)"
proof -
  obtain s where s: "session_at (mgr g) c = Inr s" "map_of (sessions (mgr g)) c = Some s" "s_conv s = c" using gw_session [OF ok k] by blast
  obtain route where r: "read_connect_route buf (ROUTE_MAX + 1) = Inr route" using parse_connect_route [OF p] by blast
  have "kv_fd (kvc g) < lim" using ok by (simp add: gw_ok_def)
  then obtain node v where kv: "kv_get (kv_net w) (''route:'' @ c_str (str_of route)) (kvc g) = Inr (node, v)" "kv_fd v < lim"
    using kv_get_total [of lim "kv_net w" "kvc g"] kw unfolding kv_fits_def by blast
  let ?g = "g\<lparr>kvc := v\<rparr>"
  have ok1: "gw_ok lim busy base free n ?g" using ok kv(2) by (simp add: gw_ok_def)
  have s1: "map_of (sessions (mgr ?g)) c = Some s" "kcp_at c (mgr ?g) = Some k" using s k by simp_all
  show ?thesis
  proof (cases "0 \<le> target_fd s")
    case True
    then show ?thesis using ok k s by (simp add: handle_connect_def)
  next
    case open_it: False
    show ?thesis
    proof (cases "Option.bind node (node_to_addr (pton w))")
      case None
      then show ?thesis
        using open_it s r kv mark_safe [OF ok1 s1(1)] k by (simp add: handle_connect_def)
    next
      case (Some addr)
      let ?g2 = "?g\<lparr>mgr := put_session (s\<lparr>target_addr := addr\<rparr>) (mgr ?g)\<rparr>"
      have g2: "gw_ok lim busy base free n ?g2" "kcp_at c (mgr ?g2) = Some k"
        using field_safe [OF ok1 s1(2,1), of "s\<lparr>target_addr := addr\<rparr>"] k by simp_all
      obtain s2 where s2: "map_of (sessions (mgr ?g2)) c = Some s2" "target_fd s2 < 0"
        using put_session_map [of "mgr g" "s\<lparr>target_addr := addr\<rparr>" s] s open_it by simp
      let ?s3 = "s2\<lparr>last_active := clock w (ticks ?g2)\<rparr>"
      let ?g3 = "?g2\<lparr>ticks := Suc (ticks ?g2), mgr := put_session ?s3 (mgr ?g2)\<rparr>"
      have t: "touch w c ?g2 = Inr ?g3" using s2 by (simp add: touch_def session_at_def now_ms_def)
      have g2': "gw_ok lim busy base free n (?g2\<lparr>ticks := Suc (ticks ?g2)\<rparr>)" "kcp_at c (mgr (?g2\<lparr>ticks := Suc (ticks ?g2)\<rparr>)) = Some k"
          "map_of (sessions (mgr (?g2\<lparr>ticks := Suc (ticks ?g2)\<rparr>))) c = Some s2"
        using g2 s2 by simp_all
      have g3: "gw_ok lim busy base free n ?g3" "kcp_at c (mgr ?g3) = Some k"
        using field_safe [OF g2', of ?s3] g2(2) by simp_all
      have "mgr_inv (mgr ?g2)" using g2(1) by (simp add: gw_ok_def conns_ok_def)
      then have "s_conv s2 = c" by (rule mgr_session(1) [OF _ s2(1)])
      then have s3: "map_of (sessions (mgr ?g3)) c = Some ?s3" using put_session_map [of "mgr ?g2" ?s3 s2] s2(1) by simp
      have "new_socket w (watched (mgr ?g3)) \<notin> set (watched (mgr ?g3))" using w by (simp add: fresh_sockets_def)
      moreover have "target_fd ?s3 < 0" using s2(2) by simp
      ultimately have o: "gw_ok lim busy base free n (?g3\<lparr>mgr := snd (open_target (new_socket w (watched (mgr ?g3))) ?s3 (mgr ?g3))\<rparr>)"
          "kcp_at c (snd (open_target (new_socket w (watched (mgr ?g3))) ?s3 (mgr ?g3))) = kcp_at c (mgr ?g3)"
        using open_safe [OF g3(1) s3] by blast+
      have "handle_connect w c buf g =
          (let (ok, m) = open_target (new_socket w (watched (mgr ?g3))) ?s3 (mgr ?g3) in Inr (\<not> ok, ?g3\<lparr>mgr := m\<rparr>))"
        using open_it s(1) r kv Some t s3 by (simp add: handle_connect_def session_at_def)
      then show ?thesis using o g3(2) by (simp add: case_prod_beta)
    qed
  qed
qed

lemma data_safe:
  assumes ok: "gw_ok lim busy base free n g" and k: "kcp_at c (mgr g) = Some k"
  shows "safe (\<lambda>(_, g'). gw_ok lim busy base free n g' \<and> kcp_at c (mgr g') = Some k) (handle_data w c d g)"
proof -
  obtain s where s: "session_at (mgr g) c = Inr s" using gw_session [OF ok k] by blast
  then show ?thesis
    using touch_safe [OF ok k, of w] ok k by (auto simp: handle_data_def)
qed

lemma msg_safe:
  assumes w: "fresh_sockets w" and kw: "kv_fits lim w" and ok: "gw_ok lim busy base free n g" and k: "kcp_at c (mgr g) = Some k"
  shows "safe (\<lambda>(_, g'). gw_ok lim busy base free n g' \<and> kcp_at c (mgr g') = Some k) (handle_tunnel_msg w c buf g)"
proof (cases "parse buf")
  case (Some p)
  obtain s where s: "session_at (mgr g) c = Inr s" "map_of (sessions (mgr g)) c = Some s" using gw_session [OF ok k] by blast
  show ?thesis
    using Some s connect_safe [OF w kw ok k Some] data_safe [OF ok k, of w] ok k mark_safe [OF ok s(2)]
    by (simp add: handle_tunnel_msg_def)
qed (use ok k in \<open>simp add: handle_tunnel_msg_def\<close>)

lemma waiting_kcp: "kcp_at c (mgr g) = Some k \<Longrightarrow> waiting c g = length (rcv_queue k) + length (rcv_buf k)"
  by (auto simp: waiting_def kcp_at_def split: bind_splits option.splits)

lemma recv_safe:
  assumes ok: "gw_ok lim busy base free n g" and k: "kcp_at c (mgr g) = Some k"
  shows "safe (\<lambda>((got, msg), g'). gw_ok lim busy base free n g' \<and> (\<exists>k'. kcp_at c (mgr g') = Some k' \<and> (0 < got \<longrightarrow> waiting c g' < waiting c g)))
    (on_kcp (\<lambda>k. rbind (ikcp_recv k (int POOL_BLOCK)) (\<lambda>(got, msg, k). Inr ((got, msg), k))) c g)"
proof -
  have c: "conn_ok busy c k" using gw_session [OF ok k] by blast
  have "safe (\<lambda>(x, g'). gw_ok lim busy base free n g' \<and> (\<exists>k'. kcp_at c (mgr g') = Some k' \<and>
      (0 < fst x \<longrightarrow> length (rcv_queue k') + length (rcv_buf k') < length (rcv_queue k) + length (rcv_buf k))))
    (on_kcp (\<lambda>k. rbind (ikcp_recv k (int POOL_BLOCK)) (\<lambda>(got, msg, k). Inr ((got, msg), k))) c g)"
  proof (rule on_kcp_safe [OF ok k])
    fix h assume "kcp_ok (k\<lparr>kcp_mem := h\<rparr>)"
    then obtain r d k' where r: "ikcp_recv (k\<lparr>kcp_mem := h\<rparr>) (int POOL_BLOCK) = Inr (r, d, k')" "keeps (k\<lparr>kcp_mem := h\<rparr>) k'"
        "0 < r \<longrightarrow> length (rcv_queue k') + length (rcv_buf k') <
           length (rcv_queue (k\<lparr>kcp_mem := h\<rparr>)) + length (rcv_buf (k\<lparr>kcp_mem := h\<rparr>))"
      using recv_keeps [of "k\<lparr>kcp_mem := h\<rparr>" "int POOL_BLOCK", OF _ of_nat_0_le_iff] by blast
    moreover have "acklist k' = acklist k" using send_recv_acklist(2) [OF r(1)] by simp
    ultimately show "safe (\<lambda>(x, k'). keeps (k\<lparr>kcp_mem := h\<rparr>) k' \<and> (acklist k' = [] \<or> c \<in> busy) \<and>
        (0 < fst x \<longrightarrow> length (rcv_queue k') + length (rcv_buf k') < length (rcv_queue k) + length (rcv_buf k)))
       (rbind (ikcp_recv (k\<lparr>kcp_mem := h\<rparr>) (int POOL_BLOCK)) (\<lambda>(got, msg, k). Inr ((got, msg), k)))"
      using c by (simp add: conn_ok_def)
  qed
  then show ?thesis
    by (rule safe_mono) (auto simp: waiting_kcp [OF k] waiting_kcp)
qed

lemma drain_safe:
  assumes "fresh_sockets w" and "kv_fits lim w" and "gw_ok lim busy base free n g" and "kcp_at c (mgr g) = Some k" and "b \<notin> set free" and "waiting c g < fuel"
  shows "safe (\<lambda>(_, g'). gw_ok lim busy base free n g' \<and> kcp_at c (mgr g') \<noteq> None) (drain_msgs fuel w c b g)"
  using assms
proof (induction fuel arbitrary: g k)
  case (Suc fuel)
  show ?case
    unfolding drain_msgs.simps
  proof (rule safe_rbind [OF recv_safe [OF Suc.prems(3,4)]], clarify)
    fix got :: int and msg g1 k1 assume g1: "gw_ok lim busy base free n g1" "kcp_at c (mgr g1) = Some k1" "0 < got \<longrightarrow> waiting c g1 < waiting c g"
    have g2: "gw_ok lim busy base free n (pool_fill b msg g1)" "kcp_at c (mgr (pool_fill b msg g1)) = Some k1"
      using g1 Suc.prems(5) by simp_all
    show "safe (\<lambda>(_, g'). gw_ok lim busy base free n g' \<and> kcp_at c (mgr g') \<noteq> None)
        (if got \<le> 0 then Inr (False, g1)
         else rbind (handle_tunnel_msg w c msg (pool_fill b msg g1)) (\<lambda>(gone, g). if gone then Inr (True, g) else drain_msgs fuel w c b g))"
    proof (cases "got \<le> 0")
      case True
      then show ?thesis using g1 by simp
    next
      case False
      have "safe (\<lambda>(_, g'). gw_ok lim busy base free n g' \<and> kcp_at c (mgr g') \<noteq> None)
          (rbind (handle_tunnel_msg w c msg (pool_fill b msg g1)) (\<lambda>(gone, g). if gone then Inr (True, g) else drain_msgs fuel w c b g))"
      proof (rule safe_rbind [OF msg_safe [OF Suc.prems(1,2) g2]], clarify)
        fix gone g3 assume g3: "gw_ok lim busy base free n g3" "kcp_at c (mgr g3) = Some k1"
        have "waiting c g3 < fuel"
          using g1(3) False Suc.prems(6) waiting_kcp [OF g3(2)] waiting_kcp [OF g1(2)] by linarith
        then show "safe (\<lambda>(_, g'). gw_ok lim busy base free n g' \<and> kcp_at c (mgr g') \<noteq> None) (if gone then Inr (True, g3) else drain_msgs fuel w c b g3)"
          using Suc.IH [OF Suc.prems(1,2) g3 Suc.prems(5)] g3 by simp
      qed
      then show ?thesis using False by simp
    qed
  qed
qed simp

lemma messages_safe:
  assumes w: "fresh_sockets w" and kw: "kv_fits lim w" and ok: "gw_ok lim busy base free n g" and k: "kcp_at c (mgr g) = Some k" and b: "b \<notin> set free" "b < POOL_CAP"
  shows "safe (gw_ok lim busy base (b # free) n) (serve_messages w c b g)"
  unfolding serve_messages_def
proof (rule safe_rbind [OF drain_safe [OF w kw ok k b(1) lessI]], clarify)
  fix gone g1 k1 assume g1: "gw_ok lim busy base free n g1" "kcp_at c (mgr g1) = Some k1"
  have g2: "gw_ok lim busy base (b # free) n (pool_put b g1)" "kcp_at c (mgr (pool_put b g1)) = Some k1"
    using pool_put_safe [OF g1(1) b] g1(2) by simp_all
  show "safe (gw_ok lim busy base (b # free) n) (let g = pool_put b g1 in if gone then Inr g else touch w c g)"
    using touch_safe [OF g2, of w] g2 by (auto simp: Let_def)
qed

text \<open>While a segment is served, its session may owe acknowledgements; the flush pays them.\<close>

lemma gw_ok_busy: "gw_ok lim busy base free n g \<Longrightarrow> busy \<subseteq> busy' \<Longrightarrow> gw_ok lim busy' base free n g"
  by (auto simp: gw_ok_def conns_ok_def conn_ok_def)

lemma gw_ok_unbusy:
  "gw_ok lim {c} base free n g \<Longrightarrow> kcp_at c (mgr g) = Some k \<Longrightarrow> acklist k = [] \<Longrightarrow> gw_ok lim {} base free n g"
  by (auto simp: gw_ok_def conns_ok_def conn_ok_def) (metis option.sel)

lemma update_safe:
  assumes ok: "gw_ok lim busy base free n g" and k: "kcp_at c (mgr g) = Some k"
  shows "safe (\<lambda>g'. gw_ok lim busy base free n g' \<and> (\<exists>k'. kcp_at c (mgr g') = Some k' \<and> updated k' \<noteq> 0)) (kcp_out (\<lambda>k. ikcp_update k t) c g)"
proof (rule kcp_out_safe [OF ok k])
  fix h assume kh: "kcp_ok (k\<lparr>kcp_mem := h\<rparr>)"
  have "conn_ok busy c k" using gw_session [OF ok k] by blast
  then have "unat (mtu k) = 1400" "acklist k = [] \<or> c \<in> busy" by (simp_all add: conn_ok_def)
  then show "\<exists>outs k'. ikcp_update (k\<lparr>kcp_mem := h\<rparr>) t = Inr (outs, k') \<and> keeps (k\<lparr>kcp_mem := h\<rparr>) k' \<and>
      (\<forall>d \<in> set outs. length d \<le> 1400) \<and> (acklist k' = [] \<or> c \<in> busy) \<and> updated k' \<noteq> 0"
    using update_keeps [OF kh, of t] by auto
qed

lemma flush_safe:
  assumes ok: "gw_ok lim busy base free n g" and k: "kcp_at c (mgr g) = Some k" and u: "updated k \<noteq> 0"
  shows "safe (\<lambda>g'. gw_ok lim busy base free n g' \<and> (\<exists>k'. kcp_at c (mgr g') = Some k' \<and> acklist k' = [])) (kcp_out ikcp_flush c g)"
proof (rule kcp_out_safe [OF ok k])
  fix h assume kh: "kcp_ok (k\<lparr>kcp_mem := h\<rparr>)"
  have "conn_ok busy c k" using gw_session [OF ok k] by blast
  then have "unat (mtu k) = 1400" by (simp add: conn_ok_def)
  then show "\<exists>outs k'. ikcp_flush (k\<lparr>kcp_mem := h\<rparr>) = Inr (outs, k') \<and> keeps (k\<lparr>kcp_mem := h\<rparr>) k' \<and>
      (\<forall>d \<in> set outs. length d \<le> 1400) \<and> (acklist k' = [] \<or> c \<in> busy) \<and> acklist k' = []"
    using flush_keeps [OF kh] u by auto
qed

lemma now_ms_fields [simp]: "now_ms w g = (clock w (ticks g), g\<lparr>ticks := Suc (ticks g)\<rparr>)"
  by (simp add: now_ms_def)

lemma segment_safe:
  assumes ok: "gw_ok lim {} base free n g" and k: "kcp_at c (mgr g) = Some k" and len: "length pkt \<le> POOL_BLOCK"
  shows "safe (\<lambda>g'. gw_ok lim {} base free n g' \<and> kcp_at c (mgr g') \<noteq> None) (serve_segment w c pkt g)"
proof -
  obtain g1 where g1: "touch w c g = Inr g1" "gw_ok lim {} base free n g1" "kcp_at c (mgr g1) = Some k"
    using touch_safe [OF ok k, of w] by blast
  have b1: "gw_ok lim {c} base free n g1" by (rule gw_ok_busy [OF g1(2)]) simp
  have a: "acklist k = []" using gw_session [OF g1(2,3)] by (auto simp: conn_ok_def)
  have i: "safe (\<lambda>(_, g'). gw_ok lim {c} base free n g' \<and> (\<exists>k'. kcp_at c (mgr g') = Some k' \<and> True)) (on_kcp (\<lambda>k. ikcp_input k pkt) c g1)"
  proof (rule on_kcp_safe [OF b1 g1(3)])
    fix h assume kh: "kcp_ok (k\<lparr>kcp_mem := h\<rparr>)"
    have "length (acklist (k\<lparr>kcp_mem := h\<rparr>)) + length pkt < 2147483648" using a len by simp
    note i = input_keeps [OF kh this]
    show "safe (\<lambda>(x, k'). keeps (k\<lparr>kcp_mem := h\<rparr>) k' \<and> (acklist k' = [] \<or> c \<in> {c}) \<and> True) (ikcp_input (k\<lparr>kcp_mem := h\<rparr>) pkt)"
      by (rule safe_only_overflow [OF i(1)]) (use i(2) in blast)
  qed
  show ?thesis
    unfolding serve_segment_def g1(1) rbind.simps
  proof (rule safe_rbind [OF i], clarify)
    fix g2 k2 assume g2: "gw_ok lim {c} base free n g2" "kcp_at c (mgr g2) = Some k2"
    let ?g = "g2\<lparr>ticks := Suc (ticks g2)\<rparr>"
    have g3: "gw_ok lim {c} base free n ?g" "kcp_at c (mgr ?g) = Some k2" using g2 by simp_all
    have "safe (\<lambda>g'. gw_ok lim {} base free n g' \<and> kcp_at c (mgr g') \<noteq> None)
        (rbind (kcp_out (\<lambda>k. ikcp_update k (now32 (clock w (ticks g2)))) c ?g) (kcp_out ikcp_flush c))"
      by (rule safe_rbind [OF update_safe [OF g3]]) (auto intro: safe_mono [OF flush_safe] gw_ok_unbusy)
    then show "safe (\<lambda>g'. gw_ok lim {} base free n g' \<and> kcp_at c (mgr g') \<noteq> None)
        (let (t, g) = now_ms w g2 in rbind (kcp_out (\<lambda>k. ikcp_update k (now32 t)) c g) (kcp_out ikcp_flush c))"
      by simp
  qed
qed

section \<open>Datagrams from clients\<close>

lemma register_adds:
  assumes inv: "mgr_inv m" and good: "mem_good (heap m)" and few: "length (sessions m) < 4294967296"
    and none: "find (\<lambda>(_, s). pending_from src s) (sessions m) = None"
  obtains cv s k m' where "register_client src m = Inr (pack_registered cv, m')" "map_of (sessions m) cv = None"
    "sessions m' = sessions m @ [(cv, s)]" "ks_kcp (s_kcp s) = Some k" "kcp_shape k" "mtu k = 1400" "acklist k = []" "kcp_blocks k = 2"
    "mem_good (heap m')" "mem_live (heap m') = mem_live (heap m) + 2" "mgr_inv m'"
proof -
  obtain cv0 m0 where r: "register_client src m = Inr (pack_registered cv0, m0)" "mgr_inv m0"
    using register_new [OF assms] by metis
  obtain cv where cv: "alloc_conv (next_conv m) (sessions m) = Some (cv, cv + 1)" "map_of (sessions m) cv = None"
    using alloc_conv_fresh [OF few] by blast
  obtain h' where h: "mem_good h'" "mem_live h' = mem_live (heap m) + 2"
      "kcp_session_init cv src (mgr_client_fd m) (heap m) =
        Inr (\<lparr>ks_kcp = Some (snd (ikcp_nodelay (ikcp_setoutput (new_kcp cv h')) 1 10 2 1)), ks_peer = src, ks_fd = mgr_client_fd m\<rparr>, h')"
    using kcp_session_init_good [OF good] by metis
  let ?k = "snd (ikcp_nodelay (ikcp_setoutput (new_kcp cv h')) 1 10 2 1)"
  let ?s = "(Session cv src)\<lparr>s_kcp := \<lparr>ks_kcp = Some ?k, ks_peer = src, ks_fd = mgr_client_fd m\<rparr>\<rparr>"
  let ?m = "sync_timer (m\<lparr>sessions := sessions m @ [(cv, ?s)], next_conv := cv + 1, heap := h'\<rparr>)"
  have f: "register_client src m = Inr (pack_registered cv, ?m)"
    using none cv h(3) by (simp add: register_client_def)
  then have "mgr_inv ?m" using r by simp
  moreover have "kcp_shape ?k" using new_kcp_ok(1) [OF h(1)] by (simp add: kcp_ok_def)
  moreover have "mtu ?k = 1400" "acklist ?k = []" "kcp_blocks ?k = 2"
    by (simp_all add: kcp_blocks_def new_kcp_def ikcp_nodelay_def ikcp_setoutput_def Let_def)
  ultimately show thesis
    using that [of cv ?m ?s ?k] f cv(2) h(1,2) by (simp add: sync_timer_def)
qed

lemma register_ok:
  assumes ok: "conns_ok busy base m" and few: "length (sessions m) < 4294967296"
  shows "\<exists>reply m'. register_client src m = Inr (reply, m') \<and> conns_ok busy base m' \<and> length reply = 5 \<and>
    length (sessions m') \<le> Suc (length (sessions m))"
proof (cases "find (\<lambda>(_, s). pending_from src s) (sessions m)")
  case None
  have inv: "mgr_inv m" "mem_good (heap m)" using ok by (simp_all add: conns_ok_def)
  obtain cv s k m' where r: "register_client src m = Inr (pack_registered cv, m')" "map_of (sessions m) cv = None"
      "sessions m' = sessions m @ [(cv, s)]" "ks_kcp (s_kcp s) = Some k" "kcp_shape k" "mtu k = 1400" "acklist k = []" "kcp_blocks k = 2"
      "mem_good (heap m')" "mem_live (heap m') = mem_live (heap m) + 2" "mgr_inv m'"
    using register_adds [OF inv few None] by metis
  have "conn_ok busy c k'" if "kcp_at c m' = Some k'" for c k'
  proof (cases "c = cv")
    case True
    then show ?thesis using that r by (simp add: kcp_at_def map_add_def conn_ok_def)
  next
    case False
    then have "kcp_at c m = Some k'" using that r(3) by (simp add: kcp_at_def map_add_def split: option.splits)
    then show ?thesis using ok by (simp add: conns_ok_def)
  qed
  then have "conns_ok busy base m'"
    using ok r by (simp add: conns_ok_def sess_blocks_def)
  then show ?thesis using r by (simp add: pack_registered_def net32_def)
next
  case (Some p)
  then show ?thesis
    using ok by (cases p) (simp add: register_client_def pack_registered_def net32_def)
qed

lemma getconv_safe: "24 \<le> length pkt \<Longrightarrow> \<exists>cv. ikcp_getconv pkt = Inr cv"
  by (cases pkt rule: ikcp_decode32u.cases) (simp_all add: ikcp_getconv_def)

lemma lookup_safe:
  assumes "24 \<le> length pkt" and inv: "mgr_inv m"
  shows "\<exists>c. lookup src pkt m = Inr c \<and> (\<forall>d. c = Some d \<longrightarrow> (\<exists>k. kcp_at d m = Some k))"
proof -
  obtain cv where cv: "ikcp_getconv pkt = Inr cv" using getconv_safe [OF assms(1)] by blast
  show ?thesis
    using cv kcp_at_session [OF inv, of cv] by (auto simp: lookup_def split: option.splits)
qed

text \<open>Every pass of the loop returns the blocks it takes; a datagram adds one session at most.\<close>

lemma datagram_safe:
  assumes "fresh_sockets w" and "kv_fits lim w" and "gw_ok lim {} base (b # free) n g" and "n + length dgrams \<le> 4294967296" and "b < POOL_CAP"
  shows "safe (gw_ok lim {} base (b # free) (n + length dgrams)) (handle_tunnel_datagram w dgrams g)"
  using assms
proof (induction dgrams arbitrary: g n)
  case Nil
  obtain g' where g': "pool_get g = Inr (Some b, g')" "gw_ok lim {} base free n g'" "b \<notin> set free"
    using pool_get_safe [OF Nil.prems(3)] by blast
  then show ?case using pool_put_safe [OF g'(2,3)] Nil.prems(5) by simp
next
  case (Cons d dgrams)
  obtain src dgram where d: "d = (src, dgram)" by force
  define pkt where "pkt = take POOL_BLOCK dgram"
  obtain g1 where g1: "pool_get g = Inr (Some b, g1)" "gw_ok lim {} base free n g1" "b \<notin> set free"
    using pool_get_safe [OF Cons.prems(3)] by blast
  define g2 where "g2 = pool_fill b pkt g1"
  have g2: "gw_ok lim {} base free n g2" using g1 by (simp add: g2_def)
  have co: "conns_ok {} base (mgr g2)" "length (sessions (mgr g2)) \<le> n" "mgr_inv (mgr g2)"
    using g2 by (simp_all add: gw_ok_def conns_ok_def)
  have step: "safe (gw_ok lim {} base (b # free) (n + length (d # dgrams))) (handle_tunnel_datagram w dgrams g')"
    if "gw_ok lim {} base (b # free) (Suc n) g'" for g'
    using Cons.IH [OF Cons.prems(1,2) that] Cons.prems(4,5) by simp
  have more: "gw_ok lim {} base fr (Suc n) g'" if "gw_ok lim {} base fr n g'" for fr g'
    using that by (simp add: gw_ok_def)
  have eq: "handle_tunnel_datagram w (d # dgrams) g =
      (if length pkt = 1 \<and> pkt ! 0 = PACKET_REGISTER then
         rbind (register_client src (mgr g2)) (\<lambda>(reply, m).
           handle_tunnel_datagram w dgrams (pool_put b (g2\<lparr>mgr := m, to_clients := to_clients g2 @ [(src, reply)]\<rparr>)))
       else if length pkt < 24 then handle_tunnel_datagram w dgrams (pool_put b g2)
       else rbind (lookup src pkt (mgr g2)) (\<lambda>c. case c of
         None \<Rightarrow> handle_tunnel_datagram w dgrams (pool_put b g2)
       | Some c \<Rightarrow> rbind (session_at (mgr g2) c) (\<lambda>s.
           if dying s then handle_tunnel_datagram w dgrams (pool_put b g2)
           else rbind (serve_segment w c pkt g2) (\<lambda>g. rbind (pool_get (pool_put b g)) (\<lambda>(b, g).
             case b of None \<Rightarrow> Inr g | Some b \<Rightarrow> rbind (serve_messages w c b g) (handle_tunnel_datagram w dgrams))))))"
    unfolding d handle_tunnel_datagram.simps g1(1) rbind.simps option.case prod.case Let_def pkt_def g2_def ..
  have skip: "safe (gw_ok lim {} base (b # free) (n + length (d # dgrams))) (handle_tunnel_datagram w dgrams (pool_put b g2))"
    using step more pool_put_safe [OF g2 g1(3) Cons.prems(5)] by blast
  consider (reg) "length pkt = 1 \<and> pkt ! 0 = PACKET_REGISTER"
    | (short) "\<not> (length pkt = 1 \<and> pkt ! 0 = PACKET_REGISTER)" "length pkt < 24"
    | (seg) "\<not> (length pkt = 1 \<and> pkt ! 0 = PACKET_REGISTER)" "24 \<le> length pkt" by linarith
  then show ?case
  proof cases
    case reg
    have "length (sessions (mgr g2)) < 4294967296" using co(2) Cons.prems(4) by simp
    then obtain reply m' where r: "register_client src (mgr g2) = Inr (reply, m')" "conns_ok {} base m'" "length reply = 5"
        "length (sessions m') \<le> Suc (length (sessions (mgr g2)))"
      using register_ok [OF co(1)] by blast
    let ?g = "g2\<lparr>mgr := m', to_clients := to_clients g2 @ [(src, reply)]\<rparr>"
    have "gw_ok lim {} base free (Suc n) ?g" using g2 r co(2) by (simp add: gw_ok_def)
    then have "gw_ok lim {} base (b # free) (Suc n) (pool_put b ?g)" using g1(3) Cons.prems(5) by (rule pool_put_safe)
    note s = step [OF this]
    have "handle_tunnel_datagram w (d # dgrams) g = handle_tunnel_datagram w dgrams (pool_put b ?g)"
      unfolding eq using reg r(1) by simp
    then show ?thesis using s by simp
  next
    case short
    have "handle_tunnel_datagram w (d # dgrams) g = handle_tunnel_datagram w dgrams (pool_put b g2)"
      unfolding eq using short by auto
    then show ?thesis using skip by simp
  next
    case seg
    obtain c where c: "lookup src pkt (mgr g2) = Inr c" "\<forall>d. c = Some d \<longrightarrow> (\<exists>k. kcp_at d (mgr g2) = Some k)"
      using lookup_safe [OF seg(2) co(3)] by blast
    show ?thesis
    proof (cases c)
      case None
      have "handle_tunnel_datagram w (d # dgrams) g = handle_tunnel_datagram w dgrams (pool_put b g2)"
        unfolding eq using seg c(1) None by simp
      then show ?thesis using skip by simp
    next
      case (Some e)
      obtain k where k: "kcp_at e (mgr g2) = Some k" using c(2) Some by blast
      obtain s where s: "session_at (mgr g2) e = Inr s" using gw_session [OF g2 k] by blast
      let ?serve = "rbind (serve_segment w e pkt g2) (\<lambda>g. rbind (pool_get (pool_put b g)) (\<lambda>(b, g).
          case b of None \<Rightarrow> Inr g | Some b \<Rightarrow> rbind (serve_messages w e b g) (handle_tunnel_datagram w dgrams)))"
      have f: "handle_tunnel_datagram w (d # dgrams) g =
          (if dying s then handle_tunnel_datagram w dgrams (pool_put b g2) else ?serve)"
        unfolding eq using seg c(1) Some s by simp
      have "safe (gw_ok lim {} base (b # free) (n + length (d # dgrams))) ?serve"
      proof (rule safe_rbind [OF segment_safe [OF g2 k]], simp add: pkt_def, clarify)
        fix g3 k3 assume g3: "gw_ok lim {} base free n g3" "kcp_at e (mgr g3) = Some k3"
        have "gw_ok lim {} base (b # free) n (pool_put b g3)" using g3(1) g1(3) Cons.prems(5) by (rule pool_put_safe)
        then obtain g4 where g4: "pool_get (pool_put b g3) = Inr (Some b, g4)" "gw_ok lim {} base free n g4" "mgr g4 = mgr g3"
          using pool_get_safe by fastforce
        have k4: "kcp_at e (mgr g4) = Some k3" using g3(2) g4(3) by simp
        have "safe (gw_ok lim {} base (b # free) (n + length (d # dgrams))) (rbind (serve_messages w e b g4) (handle_tunnel_datagram w dgrams))"
          by (rule safe_rbind [OF messages_safe [OF Cons.prems(1,2) g4(2) k4 g1(3) Cons.prems(5)]]) (use step more in blast)
        then show "safe (gw_ok lim {} base (b # free) (n + length (d # dgrams)))
            (rbind (pool_get (pool_put b g3)) (\<lambda>(b, g). case b of None \<Rightarrow> Inr g | Some b \<Rightarrow> rbind (serve_messages w e b g) (handle_tunnel_datagram w dgrams)))"
          using g4(1) by simp
      qed
      then show ?thesis unfolding f using skip by simp
    qed
  qed
qed

section \<open>Replies\<close>

lemma send_updated:
  assumes ok: "kcp_ok k" and len: "length msg < 2 ^ 30" and s: "ikcp_send k msg (int (length msg)) = Inr (r, k')"
  shows "updated k' = updated k"
proof -
  let ?M = "unat (mss k)"
  have M: "mss k = word_of_nat ?M" "0 < ?M" "?M < 2 ^ 30"
    using ok mss_bound [OF ok] by (simp_all add: kcp_ok_def kcp_shape_def)
  have st: "stream k = 0" "mem_good (kcp_mem k)" using ok by (simp_all add: kcp_ok_def kcp_shape_def)
  show ?thesis using s send_good [OF M len st] by (auto simp: enqueue_def split: if_splits)
qed

lemma send_safe:
  assumes ok: "gw_ok lim busy base free n g" and k: "kcp_at c (mgr g) = Some k" and len: "length msg < 2 ^ 30" and Q: "updated k \<noteq> 0"
  shows "safe (\<lambda>(r, g'). gw_ok lim busy base free n g' \<and> (\<exists>k'. kcp_at c (mgr g') = Some k' \<and> updated k' \<noteq> 0))
    (on_kcp (\<lambda>k. ikcp_send k msg (int (length msg))) c g)"
proof (rule on_kcp_safe [OF ok k])
  fix h assume kh: "kcp_ok (k\<lparr>kcp_mem := h\<rparr>)"
  have c: "conn_ok busy c k" "stream k = 0" using gw_session [OF ok k] by (auto simp: conn_ok_def kcp_shape_def)
  obtain r k' where r: "ikcp_send (k\<lparr>kcp_mem := h\<rparr>) msg (int (length msg)) = Inr (r, k')" "keeps (k\<lparr>kcp_mem := h\<rparr>) k'"
    using send_keeps [OF kh len] by blast
  have "acklist k' = acklist k" "updated k' = updated k"
    using send_recv_acklist(1) [OF r(1)] send_updated [OF kh len r(1)] c(2) by simp_all
  then show "safe (\<lambda>(x, k'). keeps (k\<lparr>kcp_mem := h\<rparr>) k' \<and> (acklist k' = [] \<or> c \<in> busy) \<and> updated k' \<noteq> 0)
      (ikcp_send (k\<lparr>kcp_mem := h\<rparr>) msg (int (length msg)))"
    using r c Q by (simp add: conn_ok_def)
qed

text \<open>The three calls that relay one reply.\<close>

lemma relay_calls_safe:
  assumes ok: "gw_ok lim {} base free n g" and k: "kcp_at c (mgr g) = Some k" and len: "length msg < 2 ^ 30"
  shows "safe (\<lambda>g'. gw_ok lim {} base free n g' \<and> kcp_at c (mgr g') \<noteq> None)
    (rbind (kcp_out (\<lambda>k. ikcp_update k t) c g) (\<lambda>g.
     rbind (on_kcp (\<lambda>k. ikcp_send k msg (int (length msg))) c g) (\<lambda>(_, g). kcp_out ikcp_flush c g)))"
proof (rule safe_rbind [OF update_safe [OF ok k]], clarify)
  fix g1 k1 assume g1: "gw_ok lim {} base free n g1" "kcp_at c (mgr g1) = Some k1" "updated k1 \<noteq> 0"
  show "safe (\<lambda>g'. gw_ok lim {} base free n g' \<and> kcp_at c (mgr g') \<noteq> None)
      (rbind (on_kcp (\<lambda>k. ikcp_send k msg (int (length msg))) c g1) (\<lambda>(_, g). kcp_out ikcp_flush c g))"
  proof (rule safe_rbind [OF send_safe [OF g1(1,2) len g1(3)]], clarify)
    fix g2 k2 assume g2: "gw_ok lim {} base free n g2" "kcp_at c (mgr g2) = Some k2" "updated k2 \<noteq> 0"
    show "safe (\<lambda>g'. gw_ok lim {} base free n g' \<and> kcp_at c (mgr g') \<noteq> None) (kcp_out ikcp_flush c g2)"
      by (rule safe_mono [OF flush_safe [OF g2]]) auto
  qed
qed

lemma relay_safe:
  assumes "gw_ok lim {} base (b1 # b2 # free) n g" and "kcp_at c (mgr g) = Some k" and "b1 < POOL_CAP" "b2 < POOL_CAP"
  shows "safe (gw_ok lim {} base (b1 # b2 # free) n) (relay_replies w c replies g)"
  using assms
proof (induction replies arbitrary: g k)
  case Nil
  obtain g' where g': "pool_get g = Inr (Some b1, g')" "gw_ok lim {} base (b2 # free) n g'" "b1 \<notin> set (b2 # free)"
    using pool_get_safe [OF Nil.prems(1)] by blast
  then show ?case using pool_put_safe [OF g'(2,3)] Nil.prems(3) by simp
next
  case (Cons reply replies)
  define rply where "rply = take MAX_REPLY reply"
  obtain g1 where g1: "pool_get g = Inr (Some b1, g1)" "gw_ok lim {} base (b2 # free) n g1" "b1 \<notin> set (b2 # free)" "mgr g1 = mgr g"
    using pool_get_safe [OF Cons.prems(1)] by blast
  have f1: "gw_ok lim {} base (b2 # free) n (pool_fill b1 rply g1)" "kcp_at c (mgr (pool_fill b1 rply g1)) = Some k"
    using g1 Cons.prems(2) by simp_all
  obtain g2 where g2: "touch w c (pool_fill b1 rply g1) = Inr g2" "gw_ok lim {} base (b2 # free) n g2" "kcp_at c (mgr g2) = Some k"
    using touch_safe [OF f1, of w] by blast
  obtain g3 where g3: "pool_get g2 = Inr (Some b2, g3)" "gw_ok lim {} base free n g3" "b2 \<notin> set free" "mgr g3 = mgr g2"
    using pool_get_safe [OF g2(2)] by blast
  have len: "length rply < 65536" "3 + length rply \<le> POOL_BLOCK" by (simp_all add: rply_def)
  obtain pkt where pkt: "pack_data POOL_BLOCK rply (word_of_nat (length rply)) = Inr pkt" "length pkt = 3 + length rply"
    using parse_pack_data [OF len] by blast
  define g4 where "g4 = (pool_fill b2 pkt g3)\<lparr>ticks := Suc (ticks (pool_fill b2 pkt g3))\<rparr>"
  have g4: "gw_ok lim {} base free n g4" "kcp_at c (mgr g4) = Some k"
    using g3 g2(3) by (simp_all add: g4_def)
  let ?t = "now32 (clock w (ticks (pool_fill b2 pkt g3)))"
  let ?calls = "rbind (kcp_out (\<lambda>k. ikcp_update k ?t) c g4) (\<lambda>g.
     rbind (on_kcp (\<lambda>k. ikcp_send k pkt (int (length pkt))) c g) (\<lambda>(_, g). kcp_out ikcp_flush c g))"
  have eq: "relay_replies w c (reply # replies) g = rbind ?calls (\<lambda>g. relay_replies w c replies (pool_put b1 (pool_put b2 g)))"
    unfolding relay_replies.simps Let_def rply_def [symmetric]
    by (simp add: g1(1) g2(1) g3(1) pkt(1) g4_def rbind_assoc case_prod_unfold)
  have "length pkt < 2 ^ 30" using pkt(2) len by simp
  note calls = relay_calls_safe [OF g4 this, of ?t]
  show ?case
    unfolding eq
  proof (rule safe_rbind [OF calls], clarify)
    fix g5 k5 assume g5: "gw_ok lim {} base free n g5" "kcp_at c (mgr g5) = Some k5"
    have "gw_ok lim {} base (b2 # free) n (pool_put b2 g5)" using g5(1) g3(3) Cons.prems(4) by (rule pool_put_safe)
    then have "gw_ok lim {} base (b1 # b2 # free) n (pool_put b1 (pool_put b2 g5))" using g1(3) Cons.prems(3) by (rule pool_put_safe)
    then show "safe (gw_ok lim {} base (b1 # b2 # free) n) (relay_replies w c replies (pool_put b1 (pool_put b2 g5)))"
      using Cons.IH [of "pool_put b1 (pool_put b2 g5)" k5] g5(2) Cons.prems(3,4) by simp
  qed
qed

lemma target_reply_safe:
  assumes ok: "gw_ok lim {} base (b1 # b2 # free) n g" and k: "kcp_at c (mgr g) = Some k" and "b1 < POOL_CAP" "b2 < POOL_CAP"
  shows "safe (gw_ok lim {} base (b1 # b2 # free) n) (handle_target_reply w c replies g)"
proof -
  obtain s where "session_at (mgr g) c = Inr s" using gw_session [OF ok k] by blast
  then show ?thesis using relay_safe [OF assms] ok by (simp add: handle_target_reply_def)
qed

end
