(* ===== verification/EventLoop.thy ===== *)
theory EventLoop
  imports Prelude KcpBase KcpSend KcpRecv KcpAck KcpInput KcpFlush KcpSafe Tunnel MemPool Sessions KvClient Gateway
begin

text \<open>
  The event loop of the gateway, \<open>src/gateway/event_loop.cpp\<close>, and \<open>Gateway::run\<close>: which handler an event
  goes to, the timer, the batches of events with the deferred teardown after each, and the start.
\<close>

section \<open>The loop\<close>

record event_loop =
  epfd :: int
  timer_fd :: int
  el_client_fd :: int
  el_watched :: "int list"

text \<open>The constructor, given what \<open>epoll_create1\<close> and \<open>timerfd_create\<close> return.\<close>

definition EventLoop :: "int \<Rightarrow> int \<Rightarrow> int \<Rightarrow> event_loop" where
  "EventLoop client_fd created timer =
     (let l = \<lparr>epfd = created, timer_fd = - 1, el_client_fd = client_fd, el_watched = []\<rparr>
      in if created < 0 then l
         else
           let l = l\<lparr>el_watched := [client_fd], timer_fd := timer\<rparr>
           in if timer < 0 then l else l\<lparr>el_watched := timer # el_watched l\<rparr>)"

text \<open>The destructor: the descriptors that it closes.\<close>

definition EventLoop_closes :: "event_loop \<Rightarrow> int list" where
  "EventLoop_closes l = filter (\<lambda>fd. 0 \<le> fd) [timer_fd l, epfd l]"

text \<open>The callback of the timer's turn for one session.\<close>

definition tick_session :: "u32 \<Rightarrow> session \<Rightarrow> mem \<times> (sockaddr \<times> bytes) list \<Rightarrow> (session \<times> mem \<times> (sockaddr \<times> bytes) list) res" where
  "tick_session cur s = (\<lambda>(h, out).
     case ks_kcp (s_kcp s) of
       None \<Rightarrow> Inl Null_Deref
     | Some k \<Rightarrow>
         rbind (ikcp_update (k\<lparr>kcp_mem := h\<rparr>) cur) (\<lambda>(ds, k).
           Inr (s\<lparr>s_kcp := (s_kcp s)\<lparr>ks_kcp := Some k\<rparr>\<rparr>, kcp_mem k, out @ map (Pair (ks_peer (s_kcp s))) ds)))"

definition handle_timer :: "world \<Rightarrow> gateway \<Rightarrow> gateway res" where
  "handle_timer w g =
     (let (t, g) = now_ms w g
      in rbind (for_each_active (tick_session (now32 t)) (sessions (mgr g)) (heap (mgr g), to_clients g)) (\<lambda>(ss, h, out).
         let g = g\<lparr>mgr := (mgr g)\<lparr>sessions := ss, heap := h\<rparr>, to_clients := out\<rparr>;
             (t, g) = now_ms w g
         in Inr (g\<lparr>mgr := sweep_idle t (mgr g)\<rparr>)))"

text \<open>An event: the descriptor that is ready, and the datagrams that wait on it with their senders.\<close>

type_synonym event = "int \<times> (sockaddr \<times> bytes) list"

definition dispatch :: "world \<Rightarrow> event_loop \<Rightarrow> event \<Rightarrow> gateway \<Rightarrow> gateway res" where
  "dispatch w l ev g =
     (let (fd, input) = ev
      in if fd = el_client_fd l then handle_tunnel_datagram w input g
         else if fd = timer_fd l then handle_timer w g
         else (case by_fd fd (mgr g) of
                 None \<Rightarrow> Inr g
               | Some c \<Rightarrow> handle_target_reply w c (map snd input) g))"

fun dispatch_all :: "world \<Rightarrow> event_loop \<Rightarrow> event list \<Rightarrow> gateway \<Rightarrow> gateway res" where
  "dispatch_all w l [] g = Inr g"
| "dispatch_all w l (ev # evs) g = rbind (dispatch w l ev g) (dispatch_all w l evs)"

abbreviation EPOLL_MAX :: nat where "EPOLL_MAX \<equiv> 64"

text \<open>One turn of \<open>EventLoop::run\<close>: what \<open>epoll_wait\<close> reports of the ready descriptors, then the teardown.\<close>

definition run_batch :: "world \<Rightarrow> event_loop \<Rightarrow> event list \<Rightarrow> gateway \<Rightarrow> gateway res" where
  "run_batch w l ready g =
     rbind (dispatch_all w l (take EPOLL_MAX ready) g) (\<lambda>g.
       Inr (if teardown_pending (mgr g) then g\<lparr>mgr := flush_teardown (mgr g)\<rparr> else g))"

text \<open>\<open>EventLoop::run\<close> up to the first \<open>epoll_wait\<close> that fails: at once when there is no epoll descriptor.\<close>

fun run_loop :: "world \<Rightarrow> event_loop \<Rightarrow> event list list \<Rightarrow> gateway \<Rightarrow> gateway res" where
  "run_loop w l [] g = Inr g"
| "run_loop w l (ready # batches) g =
     (if epfd l < 0 then Inr g else rbind (run_batch w l ready g) (run_loop w l batches))"

section \<open>The gateway's run\<close>

text \<open>\<open>bind_tunnel_socket\<close>, given what \<open>socket\<close> returns and whether \<open>bind\<close> succeeds.\<close>

definition bind_tunnel_socket :: "int \<Rightarrow> bool \<Rightarrow> int" where
  "bind_tunnel_socket fd bound = (if fd < 0 then - 1 else if \<not> bound then - 1 else fd)"

record startup =
  sock_fd :: int
  bind_ok :: bool
  epoll_fd :: int
  timerfd :: int
  idle_env :: "string option"
  start_mem :: mem

definition start_gateway :: "world \<Rightarrow> startup \<Rightarrow> gateway" where
  "start_gateway w st =
     \<lparr>gpool = pool_new,
      mgr = set_idle_ms (case idle_env st of None \<Rightarrow> 30000 | Some e \<Rightarrow> strtoul e)
              (new_manager (bind_tunnel_socket (sock_fd st) (bind_ok st)) (start_mem st)),
      kvc = snd (kv_connect (kv_net w) ''127.0.0.1'' 9096 new_kv_client),
      ticks = 0, to_clients = [], to_targets = []\<rparr>"

text \<open>\<open>Gateway::run\<close>: the exit status and the state at the end.\<close>

definition gateway_run :: "world \<Rightarrow> startup \<Rightarrow> event list list \<Rightarrow> (int \<times> gateway option) res" where
  "gateway_run w st batches =
     (let fd = bind_tunnel_socket (sock_fd st) (bind_ok st)
      in if fd < 0 then Inr (1, None)
         else rbind (run_loop w (EventLoop fd (epoll_fd st) (timerfd st)) batches (start_gateway w st)) (\<lambda>g.
                Inr (0, Some g)))"

section \<open>Handlers that keep an invariant\<close>

text \<open>
  A machine whose steps keep an invariant that counts what the steps have cost, up to a limit. The
  invariant and the absence of faults carry over to runs.
\<close>

fun run_steps :: "('e \<Rightarrow> 's \<Rightarrow> 's res) \<Rightarrow> 'e list \<Rightarrow> 's \<Rightarrow> 's res" where
  "run_steps step [] s = Inr s"
| "run_steps step (e # es) s = rbind (step e s) (run_steps step es)"

locale safe_steps =
  fixes step :: "'e \<Rightarrow> 's \<Rightarrow> 's res"
    and inv :: "nat \<Rightarrow> 's \<Rightarrow> bool"
    and cost :: "'e \<Rightarrow> nat"
    and limit :: nat
  assumes step_safe: "inv n s \<Longrightarrow> n + cost e \<le> limit \<Longrightarrow> safe (inv (n + cost e)) (step e s)"
begin

lemma steps_safe:
  "inv n s \<Longrightarrow> n + sum_list (map cost es) \<le> limit \<Longrightarrow> safe (inv (n + sum_list (map cost es))) (run_steps step es s)"
proof (induction es arbitrary: n s)
  case (Cons e es)
  have le: "n + cost e \<le> limit" using Cons.prems(2) by simp
  show ?case
    unfolding run_steps.simps
  proof (rule safe_rbind [OF step_safe [OF Cons.prems(1) le]])
    fix s' assume "inv (n + cost e) s'"
    then show "safe (inv (n + sum_list (map cost (e # es)))) (run_steps step es s')"
      using Cons.IH [of "n + cost e" s'] Cons.prems(2) by (simp add: add.assoc)
  qed
qed simp

end

lemma dispatch_all_steps: "dispatch_all w l evs = run_steps (dispatch w l) evs"
proof
  fix g show "dispatch_all w l evs g = run_steps (dispatch w l) evs g"
    by (induction evs arbitrary: g) (simp_all, metis)
qed

lemma run_loop_steps: "0 \<le> epfd l \<Longrightarrow> run_loop w l batches = run_steps (run_batch w l) batches"
proof
  fix g assume "0 \<le> epfd l"
  then show "run_loop w l batches g = run_steps (run_batch w l) batches g"
    by (induction batches arbitrary: g) (simp_all, metis)
qed

section \<open>The timer\<close>

definition same_session :: "session \<Rightarrow> session \<Rightarrow> bool" where
  "same_session s s' \<longleftrightarrow>
     s_conv s' = s_conv s \<and> client_addr s' = client_addr s \<and> dying s' = dying s \<and> target_fd s' = target_fd s \<and>
     ks_peer (s_kcp s') = ks_peer (s_kcp s) \<and> ks_kcp (s_kcp s') \<noteq> None"

lemma tables_same:
  assumes ok: "tables_ok ss fds er" and rel: "\<And>c. rel_option same_session (ss c) (ss' c)"
  shows "tables_ok ss' fds er"
proof -
  have old: "\<exists>s. ss c = Some s \<and> same_session s s'" if "ss' c = Some s'" for c s'
    using rel [of c] that by (cases "ss c") simp_all
  have forth: "\<exists>s'. ss' c = Some s' \<and> same_session s s'" if "ss c = Some s" for c s
    using rel [of c] that by (cases "ss' c") simp_all
  have p: "pending_from a s' = pending_from a s" if "same_session s s'" for a s s'
    using that by (simp add: pending_from_def same_session_def)
  have a: "s_conv s' = c \<and> ks_kcp (s_kcp s') \<noteq> None \<and> ks_peer (s_kcp s') = client_addr s'" if "ss' c = Some s'" for c s'
    using old [OF that] tables_session [OF ok] by (auto simp: same_session_def)
  have b: "c \<in> er \<longleftrightarrow> (\<exists>s. ss' c = Some s \<and> dying s)" for c
  proof -
    have "c \<in> er \<longleftrightarrow> (\<exists>s. ss c = Some s \<and> dying s)" using ok unfolding tables_ok_def by blast
    then show ?thesis using old [of c] forth [of c] by (auto simp: same_session_def)
  qed
  have f: "fds fd = Some c \<longleftrightarrow> 0 \<le> fd \<and> (\<exists>s. ss' c = Some s \<and> target_fd s = fd)" for fd c
    using tables_fd [OF ok, of fd c] old [of c] forth [of c] by (auto simp: same_session_def)
  have d: "c = c'" if pq: "ss' c = Some s" "ss' c' = Some s'" "pending_from (client_addr s') s" "pending_from (client_addr s') s'" for c s c' s'
  proof -
    obtain x x' where x: "ss c = Some x" "same_session x s" "ss c' = Some x'" "same_session x' s'" using old [OF pq(1)] old [OF pq(2)] by blast
    moreover have "client_addr x' = client_addr s'" using x(4) by (simp add: same_session_def)
    ultimately have "pending_from (client_addr x') x" "pending_from (client_addr x') x'" using pq(3,4) p x(2,4) by simp_all
    then show ?thesis using x(1,3) ok unfolding tables_ok_def by blast
  qed
  have A: "\<forall>c s. ss' c = Some s \<longrightarrow> s_conv s = c \<and> ks_kcp (s_kcp s) \<noteq> None \<and> ks_peer (s_kcp s) = client_addr s"
    using a by blast
  have D: "\<forall>c s c' s'. ss' c = Some s \<longrightarrow> ss' c' = Some s' \<longrightarrow>
      pending_from (client_addr s') s \<longrightarrow> pending_from (client_addr s') s' \<longrightarrow> c = c'"
    using d by blast
  show ?thesis unfolding tables_ok_def by (intro conjI A D allI b f)
qed

text \<open>What the timer's turn does to the sessions, one by one.\<close>

definition ticked :: "u32 \<times> session \<Rightarrow> u32 \<times> session \<Rightarrow> bool" where
  "ticked cs cs' \<longleftrightarrow> fst cs' = fst cs \<and> same_session (snd cs) (snd cs') \<and>
     (\<exists>k. ks_kcp (s_kcp (snd cs')) = Some k \<and> conn_ok {} (fst cs) k)"

lemma tick_one:
  assumes k: "ks_kcp (s_kcp s) = Some k" "conn_ok {} c k" and h: "mem_good h" and out: "list_all (\<lambda>(_, d). length d \<le> 1400) out"
  shows "\<exists>s' h' out'. (if dying s then Inr (s, h, out) else tick_session t s (h, out)) = Inr (s', h', out') \<and>
    ticked (c, s) (c, s') \<and> mem_good h' \<and> mem_live h' - sess_blocks (c, s') = mem_live h - sess_blocks (c, s) \<and>
    list_all (\<lambda>(_, d). length d \<le> 1400) out'"
proof (cases "dying s")
  case True
  then show ?thesis using assms by (simp add: ticked_def same_session_def)
next
  case False
  let ?k = "k\<lparr>kcp_mem := h\<rparr>"
  have ok: "kcp_ok ?k" "unat (mtu ?k) = 1400" "acklist ?k = []" using k h by (simp_all add: conn_ok_def kcp_ok_def)
  obtain ds k' where u: "ikcp_update ?k t = Inr (ds, k')" "keeps ?k k'" "\<forall>d \<in> set ds. length d \<le> 1400" "acklist k' = []"
    using update_keeps [OF ok(1), of t] ok(2,3) by auto
  let ?s = "s\<lparr>s_kcp := (s_kcp s)\<lparr>ks_kcp := Some k'\<rparr>\<rparr>"
  have "conn_ok {} c k'" "mem_good (kcp_mem k')" "mem_live (kcp_mem k') - int (kcp_blocks k') = mem_live h - int (kcp_blocks k)"
    using u(2,4) k(2) by (simp_all add: keeps_def conn_ok_def kcp_ok_def owed_def kcp_blocks_def)
  then have "ticked (c, s) (c, ?s)" "mem_good (kcp_mem k')" "mem_live (kcp_mem k') - sess_blocks (c, ?s) = mem_live h - sess_blocks (c, s)"
    using k by (simp_all add: ticked_def same_session_def sess_blocks_def)
  moreover have "list_all (\<lambda>(_, d). length d \<le> 1400) (out @ map (Pair (ks_peer (s_kcp s))) ds)"
    using out u(3) by (auto simp: list_all_iff)
  ultimately show ?thesis using False k(1) u(1) by (simp add: tick_session_def)
qed

lemma tick_all:
  assumes "\<And>c s. (c, s) \<in> set ss \<Longrightarrow> \<exists>k. ks_kcp (s_kcp s) = Some k \<and> conn_ok {} c k" and "mem_good h"
    and "list_all (\<lambda>(_, d). length d \<le> 1400) out"
  shows "\<exists>ss' h' out'. for_each_active (tick_session t) ss (h, out) = Inr (ss', h', out') \<and> list_all2 ticked ss ss' \<and>
    mem_good h' \<and> mem_live h' - sum_list (map sess_blocks ss') = mem_live h - sum_list (map sess_blocks ss) \<and>
    list_all (\<lambda>(_, d). length d \<le> 1400) out'"
  using assms
proof (induction ss arbitrary: h out)
  case (Cons cs ss)
  obtain c s where cs: "cs = (c, s)" by force
  obtain k where k: "ks_kcp (s_kcp s) = Some k" "conn_ok {} c k" using Cons.prems(1) cs by auto
  obtain s' h1 out1 where one: "(if dying s then Inr (s, h, out) else tick_session t s (h, out)) = Inr (s', h1, out1)"
      "ticked (c, s) (c, s')" "mem_good h1" "mem_live h1 - sess_blocks (c, s') = mem_live h - sess_blocks (c, s)"
      "list_all (\<lambda>(_, d). length d \<le> 1400) out1"
    using tick_one [OF k Cons.prems(2,3)] by blast
  obtain ss' h2 out2 where more: "for_each_active (tick_session t) ss (h1, out1) = Inr (ss', h2, out2)" "list_all2 ticked ss ss'"
      "mem_good h2" "mem_live h2 - sum_list (map sess_blocks ss') = mem_live h1 - sum_list (map sess_blocks ss)"
      "list_all (\<lambda>(_, d). length d \<le> 1400) out2"
    using Cons.IH [OF _ one(3,5)] Cons.prems(1) by auto
  have "for_each_active (tick_session t) (cs # ss) (h, out) = Inr ((c, s') # ss', h2, out2)"
    unfolding cs for_each_active.simps one(1) by (simp add: more(1))
  then show ?case using one more cs by auto
qed simp

lemma ticked_lookup: "list_all2 ticked ss ss' \<Longrightarrow> rel_option (\<lambda>s s'. ticked (c, s) (c, s')) (map_of ss c) (map_of ss' c)"
  by (induction rule: list_all2_induct) (auto simp: ticked_def)

lemma ticked_keys: "list_all2 ticked ss ss' \<Longrightarrow> map fst ss' = map fst ss"
  by (induction rule: list_all2_induct) (auto simp: ticked_def)

lemma conns_in_list:
  assumes "conns_ok {} base m" and "(c, s) \<in> set (sessions m)"
  shows "\<exists>k. ks_kcp (s_kcp s) = Some k \<and> conn_ok {} c k"
proof -
  have inv: "mgr_inv m" using assms(1) by (simp add: conns_ok_def)
  have "distinct (map fst (sessions m))" using inv by (simp add: mgr_inv_def)
  then have s: "map_of (sessions m) c = Some s" using assms(2) by (simp add: map_of_eq_Some_iff)
  then obtain k where "ks_kcp (s_kcp s) = Some k" using mgr_session(2) [OF inv] by blast
  then show ?thesis using assms(1) s by (simp add: conns_ok_def kcp_at_def)
qed

lemma ticked_conns:
  assumes ok: "conns_ok {} base m" and t: "list_all2 ticked (sessions m) ss'" and h: "mem_good h'"
    and live: "mem_live h' - sum_list (map sess_blocks ss') = mem_live (heap m) - sum_list (map sess_blocks (sessions m))"
  shows "conns_ok {} base (m\<lparr>sessions := ss', heap := h'\<rparr>)"
proof -
  have inv: "mgr_inv m" using ok by (simp add: conns_ok_def)
  have rel: "rel_option same_session (map_of (sessions m) c) (map_of ss' c)" for c
    using ticked_lookup [OF t, of c] by (rule option.rel_mono_strong) (simp add: ticked_def)
  have ta: "tables_ok (map_of ss') (map_of (fd_to_session m)) (set (to_erase m))"
    by (rule tables_same [OF mgr_tables [OF inv] rel])
  have "ss' = [] \<longleftrightarrow> sessions m = []" using t by auto
  then have "mgr_inv (m\<lparr>sessions := ss', heap := h'\<rparr>)"
    using ta inv ticked_keys [OF t] by (simp add: mgr_inv_def)
  moreover have "conn_ok {} c k" if kc: "kcp_at c (m\<lparr>sessions := ss', heap := h'\<rparr>) = Some k" for c k
  proof -
    obtain s' where s': "map_of ss' c = Some s'" "ks_kcp (s_kcp s') = Some k" using kcp_at_SomeD [OF kc] by auto
    have "rel_option (\<lambda>s s'. ticked (c, s) (c, s')) (map_of (sessions m) c) (Some s')" using ticked_lookup [OF t, of c] s'(1) by simp
    then show ?thesis using s'(2) by (cases "map_of (sessions m) c") (auto simp: ticked_def)
  qed
  ultimately show ?thesis using ok h live by (simp add: conns_ok_def)
qed

lemma sweep_conns:
  assumes ok: "conns_ok busy base m"
  shows "conns_ok busy base (sweep_idle now m)" and "length (sessions (sweep_idle now m)) = length (sessions m)"
proof -
  let ?f = "\<lambda>(k :: u32, s). (k, if is_idle now (idle_ms m) s then s\<lparr>dying := True\<rparr> else s)"
  have "kcp_at c (sweep_idle now m) = kcp_at c m" for c
    by (cases "map_of (sessions m) c") (simp_all add: kcp_at_def sweep_idle_def map_of_map)
  moreover have "sess_blocks (?f cs) = sess_blocks cs" for cs
    by (cases cs) (simp add: sess_blocks_def)
  then have "map sess_blocks (sessions (sweep_idle now m)) = map sess_blocks (sessions m)"
    by (simp add: sweep_idle_def)
  moreover have "heap (sweep_idle now m) = heap m" by (simp add: sweep_idle_def)
  moreover have "mgr_inv (sweep_idle now m)" using ok sweep_idle_inv by (simp add: conns_ok_def)
  ultimately show "conns_ok busy base (sweep_idle now m)" using ok by (simp add: conns_ok_def)
  show "length (sessions (sweep_idle now m)) = length (sessions m)" by (simp add: sweep_idle_def)
qed

lemma timer_safe:
  assumes ok: "gw_ok lim {} base free n g"
  shows "safe (gw_ok lim {} base free n) (handle_timer w g)"
proof -
  let ?t = "now32 (clock w (ticks g))"
  have co: "conns_ok {} base (mgr g)" "mem_good (heap (mgr g))" "list_all (\<lambda>(_, d). length d \<le> 1400) (to_clients g)"
    using ok by (simp_all add: gw_ok_def conns_ok_def)
  obtain ss h out where t: "for_each_active (tick_session ?t) (sessions (mgr g)) (heap (mgr g), to_clients g) = Inr (ss, h, out)"
      "list_all2 ticked (sessions (mgr g)) ss" "mem_good h"
      "mem_live h - sum_list (map sess_blocks ss) = mem_live (heap (mgr g)) - sum_list (map sess_blocks (sessions (mgr g)))"
      "list_all (\<lambda>(_, d). length d \<le> 1400) out"
    using tick_all [OF conns_in_list [OF co(1)] co(2,3)] by blast
  let ?m = "(mgr g)\<lparr>sessions := ss, heap := h\<rparr>" and ?t2 = "clock w (Suc (ticks g))"
  have m: "conns_ok {} base ?m" by (rule ticked_conns [OF co(1) t(2-4)])
  have "length ss = length (sessions (mgr g))" using t(2) list_all2_lengthD by metis
  then have "length (sessions (sweep_idle ?t2 ?m)) \<le> n" using sweep_conns(2) [OF m] ok by (simp add: gw_ok_def)
  moreover have "conns_ok {} base (sweep_idle ?t2 ?m)" by (rule sweep_conns(1) [OF m])
  ultimately show ?thesis using ok t(1,5) by (simp add: handle_timer_def gw_ok_def)
qed

section \<open>Teardown\<close>

lemma free_seg_good: "mem_good (kcp_mem k) \<Longrightarrow> mem_good (kcp_mem (free_segments segs k))"
  using free_segments_form [of segs k] by (auto simp: mem_good_def)

lemma release_good: "mem_good (kcp_mem k) \<Longrightarrow> mem_good (ikcp_release k)"
  by (simp add: ikcp_release_def Let_def ikcp_free_def free_seg_good)

text \<open>The accounts of the heap while the tables are taken apart.\<close>

definition accounts :: "int \<Rightarrow> manager \<Rightarrow> bool" where
  "accounts base m \<longleftrightarrow> mem_good (heap m) \<and> distinct (map fst (sessions m)) \<and>
     mem_live (heap m) = base + sum_list (map sess_blocks (sessions m))"

lemma sum_blocks_drop:
  assumes "distinct (map fst ss)" and "map_of ss c = Some s"
  shows "sum_list (map sess_blocks (filter (\<lambda>(k, _). k \<noteq> c) ss)) = sum_list (map sess_blocks ss) - sess_blocks (c, s)"
  using assms
proof (induction ss)
  case (Cons p ss)
  obtain d x where p: "p = (d, x)" by force
  show ?case
  proof (cases "d = c")
    case True
    have "filter (\<lambda>(k, _). k \<noteq> c) ss = ss"
      using Cons.prems(1) p True by (intro filter_True) (auto simp: image_iff)
    then show ?thesis using Cons.prems p True by simp
  next
    case False
    then show ?thesis using Cons p by simp
  qed
qed simp

lemma teardown_accounts:
  assumes "accounts base m"
  shows "accounts base (teardown_one c m)" and "length (sessions (teardown_one c m)) \<le> length (sessions m)"
proof -
  have "accounts base (teardown_one c m) \<and> length (sessions (teardown_one c m)) \<le> length (sessions m)"
  proof (cases "map_of (sessions m) c")
    case None
    then show ?thesis using assms by (simp add: teardown_one_def)
  next
    case (Some s)
    let ?h = "snd (kcp_session_release (s_kcp s) (heap m))"
    have h: "mem_good ?h" "mem_live ?h = mem_live (heap m) - sess_blocks (c, s)"
      using assms by (simp_all add: kcp_session_release_def accounts_def release_good release_live sess_blocks_def owed_def kcp_blocks_def split: option.splits)
    have m: "sessions (teardown_one c m) = filter (\<lambda>(k, _). k \<noteq> c) (sessions m)" "heap (teardown_one c m) = ?h"
      using Some by (simp_all add: teardown_one_def Let_def)
    have "distinct (map fst (sessions m))" using assms by (simp add: accounts_def)
    then show ?thesis
      using m h sum_blocks_drop [OF _ Some] assms by (simp add: accounts_def distinct_filter_key)
  qed
  then show "accounts base (teardown_one c m)" "length (sessions (teardown_one c m)) \<le> length (sessions m)" by simp_all
qed

lemma teardowns_accounts:
  "accounts base m \<Longrightarrow> accounts base (fold teardown_one cs m) \<and> length (sessions (fold teardown_one cs m)) \<le> length (sessions m)"
proof (induction cs arbitrary: m)
  case (Cons c cs)
  then show ?case
    using Cons.IH [OF teardown_accounts(1) [OF Cons.prems, of c]] teardown_accounts(2) [OF Cons.prems, of c]
    unfolding fold_simps by linarith
qed simp

lemma teardown_conns:
  assumes ok: "conns_ok busy base m"
  shows "conns_ok busy base (flush_teardown m)" and "length (sessions (flush_teardown m)) \<le> length (sessions m)"
proof -
  have inv: "mgr_inv (flush_teardown m)" using ok flush_teardown_inv by (simp add: conns_ok_def)
  have "accounts base m" using ok by (simp add: accounts_def conns_ok_def mgr_inv_def)
  then have a: "accounts base (fold teardown_one (to_erase m) m)"
      "length (sessions (fold teardown_one (to_erase m) m)) \<le> length (sessions m)"
    using teardowns_accounts by blast+
  have f: "sessions (flush_teardown m) = sessions (fold teardown_one (to_erase m) m)" "heap (flush_teardown m) = heap (fold teardown_one (to_erase m) m)"
    by (simp_all add: flush_teardown_def sync_timer_def)
  have "conn_ok busy c k" if kc: "kcp_at c (flush_teardown m) = Some k" for c k
  proof -
    have "kcp_at c m = Some k" using kcp_at_SomeD [OF kc] flush_teardown_sessions [of m c] by (auto simp: kcp_at_def split: if_splits)
    then show ?thesis using ok by (simp add: conns_ok_def)
  qed
  then show "conns_ok busy base (flush_teardown m)" using inv a(1) f by (simp add: conns_ok_def accounts_def)
  show "length (sessions (flush_teardown m)) \<le> length (sessions m)" using a(2) f(1) by simp
qed

section \<open>The loop as a whole\<close>

text \<open>The blocks of the pool in the order of the free list at the start.\<close>

abbreviation all_blocks :: "nat list" where "all_blocks \<equiv> rev [0..<POOL_CAP]"

lemma all_blocks_Cons: "all_blocks = 4095 # 4094 # rev [0..<4094]"
proof -
  have "rev [0..<Suc (Suc n)] = Suc n # n # rev [0..<n]" for n by simp
  from this [of 4094] show ?thesis by (simp only: eval_nat_numeral(2,3) arith_simps)
qed

definition loop_ok :: "world \<Rightarrow> int \<Rightarrow> nat \<Rightarrow> gateway \<Rightarrow> bool" where
  "loop_ok w base n g \<longleftrightarrow> fresh_sockets w \<and> kv_fits FD_SETSIZE w \<and> gw_ok FD_SETSIZE {} base all_blocks n g"

lemma loop_ok_mono: "loop_ok w base n g \<Longrightarrow> n \<le> n' \<Longrightarrow> loop_ok w base n' g"
  by (simp add: loop_ok_def gw_ok_def)

lemma loop_okI: "fresh_sockets w \<Longrightarrow> kv_fits FD_SETSIZE w \<Longrightarrow> safe (gw_ok FD_SETSIZE {} base all_blocks n) r \<Longrightarrow> safe (loop_ok w base n) r"
  by (rule safe_mono) (simp_all add: loop_ok_def)

lemma dispatch_safe:
  assumes ok: "loop_ok w base n g" and few: "n + length (snd ev) \<le> 4294967296"
  shows "safe (loop_ok w base (n + length (snd ev))) (dispatch w l ev g)"
proof -
  obtain fd input where ev: "ev = (fd, input)" by force
  have w: "fresh_sockets w" "kv_fits FD_SETSIZE w" and g: "gw_ok FD_SETSIZE {} base all_blocks n g" using ok by (simp_all add: loop_ok_def)
  have more: "safe (loop_ok w base (n + length input)) r" if "safe (gw_ok FD_SETSIZE {} base all_blocks n) r" for r
    by (rule safe_mono [OF loop_okI [OF w that]]) (simp add: loop_ok_mono)
  consider (client) "fd = el_client_fd l" | (timer) "fd \<noteq> el_client_fd l" "fd = timer_fd l"
    | (target) "fd \<noteq> el_client_fd l" "fd \<noteq> timer_fd l" by blast
  then show ?thesis
  proof cases
    case client
    have "safe (gw_ok FD_SETSIZE {} base all_blocks (n + length input)) (handle_tunnel_datagram w input g)"
      using datagram_safe [OF w g [unfolded all_blocks_Cons], of input] few ev by (simp add: all_blocks_Cons)
    then show ?thesis using client ev loop_okI [OF w] by (simp add: dispatch_def)
  next
    case timer
    then show ?thesis using ev more [OF timer_safe [OF g]] by (simp add: dispatch_def)
  next
    case target
    show ?thesis
    proof (cases "by_fd fd (mgr g)")
      case None
      then show ?thesis using target ev ok loop_ok_mono by (simp add: dispatch_def)
    next
      case (Some c)
      have inv: "mgr_inv (mgr g)" using g by (simp add: gw_ok_def conns_ok_def)
      then have "map_of (sessions (mgr g)) c \<noteq> None"
        using Some tables_fd [OF mgr_tables] by (auto simp: by_fd_def)
      then obtain k where k: "kcp_at c (mgr g) = Some k" using kcp_at_session [OF inv, of c] by auto
      have "safe (gw_ok FD_SETSIZE {} base all_blocks n) (handle_target_reply w c (map snd input) g)"
        using target_reply_safe [OF g [unfolded all_blocks_Cons] k] by (simp add: all_blocks_Cons)
      then show ?thesis using more target ev Some by (simp add: dispatch_def)
    qed
  qed
qed

interpretation events: safe_steps "dispatch w l" "loop_ok w base" "\<lambda>ev. length (snd ev)" 4294967296
  by unfold_locales (rule dispatch_safe)

definition batch_size :: "event list \<Rightarrow> nat" where
  "batch_size ready = sum_list (map (\<lambda>ev. length (snd ev)) ready)"

lemma batch_safe:
  assumes ok: "loop_ok w base n g" and few: "n + batch_size ready \<le> 4294967296"
  shows "safe (loop_ok w base (n + batch_size ready)) (run_batch w l ready g)"
proof -
  let ?evs = "take EPOLL_MAX ready"
  have le: "batch_size ?evs \<le> batch_size ready"
    using append_take_drop_id [of EPOLL_MAX ready] by (metis batch_size_def le_add1 map_append sum_list_append)
  then have lim: "n + sum_list (map (\<lambda>ev. length (snd ev)) ?evs) \<le> 4294967296" using few by (simp add: batch_size_def)
  have run: "safe (loop_ok w base (n + sum_list (map (\<lambda>ev. length (snd ev)) ?evs))) (dispatch_all w l ?evs g)"
    unfolding dispatch_all_steps by (rule events.steps_safe [OF ok lim])
  have "safe (loop_ok w base (n + batch_size ?evs)) (run_batch w l ready g)"
    unfolding run_batch_def
  proof (rule safe_rbind [OF run])
    fix g' assume "loop_ok w base (n + sum_list (map (\<lambda>ev. length (snd ev)) ?evs)) g'"
    then show "safe (loop_ok w base (n + batch_size ?evs))
        (Inr (if teardown_pending (mgr g') then g'\<lparr>mgr := flush_teardown (mgr g')\<rparr> else g'))"
      using teardown_conns [of "{}" base "mgr g'"] by (auto simp: loop_ok_def gw_ok_def batch_size_def)
  qed
  then show ?thesis by (rule safe_mono) (use le loop_ok_mono in \<open>simp add: loop_ok_mono\<close>)
qed

interpretation batches: safe_steps "run_batch w l" "loop_ok w base" batch_size 4294967296
  by unfold_locales (rule batch_safe)

lemma start_ok:
  assumes "fresh_sockets w" and "kv_sockets_below FD_SETSIZE (kv_net w)" and "mem_good (start_mem st)"
  shows "loop_ok w (mem_live (start_mem st)) 0 (start_gateway w st)"
proof -
  have "mgr_inv (set_idle_ms i (new_manager fd h))" for i fd h
    using new_manager_inv [of fd h] by (simp add: mgr_inv_def set_idle_ms_def)
  moreover have "kv_fd (snd (kv_connect (kv_net w) ip port new_kv_client)) < FD_SETSIZE" for ip port
    using assms(2) ensure_connected_fd(1) [of "kv_net w"]
    by (cases "ensure_connected (kv_net w) ((disconnect new_kv_client)\<lparr>kv_ip := ip, kv_port := port\<rparr>)")
      (simp add: kv_connect_def disconnect_def new_kv_client_def)
  ultimately show ?thesis
    using assms pool_new_rep
    by (simp add: kv_fits_def loop_ok_def gw_ok_def conns_ok_def start_gateway_def kcp_at_def new_manager_def set_idle_ms_def)
qed

text \<open>
  C1: The gateway does not crash, hang or leak, whatever arrives. Let the kernel give distinct
  descriptors to open sockets, and to the connection with the store one below 1024 (\<open>FD_SETSIZE\<close>), as it does under
  the usual limit of open files; let memory last, and let at most 2^32 datagrams arrive in all: then,
  whatever clients, strangers and game servers send, in whatever batches, \<open>Gateway::run\<close> returns 1 when
  the socket cannot be bound, and otherwise every handler returns, following no dangling pointer and
  running past no buffer, the one exception being the signed overflow of the round-trip estimate that
  a forged timestamp causes. When control is back at \<open>epoll_wait\<close> the session tables are consistent,
  every block of the pool is free again, the live memory is that of the sessions' connections and no
  more, and no datagram to a client is longer than 1400 bytes. With a larger descriptor \<open>read_reply\<close> overruns its
  \<open>fd_set\<close> (\<open>large_descriptor_overruns_fd_set\<close>).
\<close>

theorem gateway_never_crashes:
  assumes w: "fresh_sockets w" and kv: "kv_sockets_below FD_SETSIZE (kv_net w)" and m: "mem_good (start_mem st)" and few: "sum_list (map batch_size batches) \<le> 4294967296"
  shows "case gateway_run w st batches of
      Inl e \<Rightarrow> e = Int_Overflow
    | Inr (code, None) \<Rightarrow> code = 1 \<and> (sock_fd st < 0 \<or> \<not> bind_ok st)
    | Inr (code, Some g) \<Rightarrow> code = 0 \<and> mgr_inv (mgr g) \<and> pool_rep (gpool g) all_blocks \<and>
        mem_live (heap (mgr g)) = mem_live (start_mem st) + sum_list (map sess_blocks (sessions (mgr g))) \<and>
        list_all (\<lambda>(_, d). length d \<le> 1400) (to_clients g)"
proof (cases "bind_tunnel_socket (sock_fd st) (bind_ok st) < 0")
  case True
  then show ?thesis by (auto simp: gateway_run_def bind_tunnel_socket_def split: if_splits)
next
  case False
  let ?l = "EventLoop (bind_tunnel_socket (sock_fd st) (bind_ok st)) (epoll_fd st) (timerfd st)"
  let ?base = "mem_live (start_mem st)"
  note s = start_ok [OF w kv m]
  have "safe (loop_ok w ?base (sum_list (map batch_size batches))) (run_loop w ?l batches (start_gateway w st))"
  proof (cases "0 \<le> epfd ?l")
    case True
    have lim: "0 + sum_list (map batch_size batches) \<le> 4294967296" using few by simp
    show ?thesis
      unfolding run_loop_steps [OF True] using batches.steps_safe [OF s lim, of ?l] by simp
  next
    case False
    then show ?thesis using s loop_ok_mono by (cases batches) (simp_all, blast)
  qed
  then show ?thesis
    using False by (cases "run_loop w ?l batches (start_gateway w st)") (simp_all add: gateway_run_def loop_ok_def gw_ok_def conns_ok_def)
qed

text \<open>A world in which nobody answers on the network of the store.\<close>

definition quiet_world :: world where
  "quiet_world = \<lparr>clock = (\<lambda>n. word_of_nat n), new_socket = (\<lambda>fds. 1 + sum_list (map abs fds)), pton = (\<lambda>_. None),
     kv_net = \<lparr>w_socket = (\<lambda>_. - 1), w_pton = (\<lambda>_. False), w_connect = (\<lambda>_. False), w_send = (\<lambda>_ _. False),
       w_clock = (\<lambda>_. 0), w_reads = (\<lambda>_ _. [])\<rparr>\<rparr>"

lemma quiet_world_fresh: "fresh_sockets quiet_world"
proof -
  have "fd \<le> sum_list (map abs fds)" if "fd \<in> set fds" for fds and fd :: int
  proof -
    have "abs fd \<le> sum_list (map abs fds)" using that by (intro member_le_sum_list) auto
    then show ?thesis by linarith
  qed
  then show ?thesis by (fastforce simp: fresh_sockets_def quiet_world_def)
qed

lemma quiet_world_kv: "kv_sockets_below FD_SETSIZE (kv_net quiet_world)"
  by (simp add: kv_sockets_below_def quiet_world_def)

definition demo_start :: startup where
  "demo_start = \<lparr>sock_fd = 3, bind_ok = True, epoll_fd = 4, timerfd = 5, idle_env = None, start_mem = good_mem\<rparr>"

theorem gateway_never_crashes_witness:
  "case gateway_run quiet_world demo_start [[(3, [(\<lparr>sin_addr = 1, sin_port = 2\<rparr>, [PACKET_REGISTER])]), (5, [])], [(7, [])]] of
      Inl e \<Rightarrow> e = Int_Overflow
    | Inr (code, None) \<Rightarrow> code = 1 \<and> (sock_fd demo_start < 0 \<or> \<not> bind_ok demo_start)
    | Inr (code, Some g) \<Rightarrow> code = 0 \<and> mgr_inv (mgr g) \<and> pool_rep (gpool g) all_blocks \<and>
        mem_live (heap (mgr g)) = mem_live (start_mem demo_start) + sum_list (map sess_blocks (sessions (mgr g))) \<and>
        list_all (\<lambda>(_, d). length d \<le> 1400) (to_clients g)"
  by (rule gateway_never_crashes [OF quiet_world_fresh quiet_world_kv]) (simp_all add: demo_start_def batch_size_def)

end
