(* ===== verification/GatewayFlow.thy ===== *)
theory GatewayFlow
  imports Prelude KcpBase KcpSend KcpRecv KcpAck KcpInput KcpFlush KcpSafe Tunnel MemPool Sessions KvClient Gateway EventLoop
begin

text \<open>
  What the gateway does with the traffic: messages that a client's connection delivers reach the game
  server unchanged and in order, replies go into the connection whole, strangers cannot interfere, and a
  message larger than a pool block stops its session for good.
\<close>

section \<open>What a flush leaves alone\<close>

text \<open>The fragments that wait for transmission or for acknowledgement, in order.\<close>

definition outgoing :: "ikcpcb \<Rightarrow> (u32 \<times> bytes) list" where
  "outgoing k = map frag (snd_buf k @ snd_queue k)"

definition incoming :: "ikcpcb \<Rightarrow> ikcpseg list \<times> ikcpseg list \<times> u32 \<times> u32 \<times> u32 \<times> u32" where
  "incoming k = (rcv_queue k, rcv_buf k, rcv_nxt k, nrcv_que k, nrcv_buf k, rcv_wnd k)"

lemma incoming_update [simp]:
  "incoming (k\<lparr>probe := p\<rparr>) = incoming k" "incoming (k\<lparr>acklist := a\<rparr>) = incoming k" "incoming (k\<lparr>kstate := st\<rparr>) = incoming k"
  "incoming (k\<lparr>snd_buf := b\<rparr>) = incoming k" "incoming (k\<lparr>kcp_mem := h\<rparr>) = incoming k"
  "incoming (k\<lparr>current := t\<rparr>) = incoming k" "incoming (k\<lparr>updated := u\<rparr>) = incoming k" "incoming (k\<lparr>ts_flush := t\<rparr>) = incoming k"
  by (simp_all add: incoming_def)

lemma emit_kcp: "emit seg f = Inr f' \<Longrightarrow> fl_kcp f' = fl_kcp f"
  by (auto simp: emit_def ikcp_output_def Let_def split: if_splits elim!: rbindE)

lemma acks_kcp: "flush_acks acks seg f = Inr (seg', f') \<Longrightarrow> fl_kcp f' = fl_kcp f"
proof (induction acks arbitrary: seg f)
  case (Cons a acks)
  obtain sn ts where a: "a = (sn, ts)" by force
  from Cons.prems obtain f1 where "emit (seg\<lparr>ssn := sn, sts := ts\<rparr>) f = Inr f1" "flush_acks acks (seg\<lparr>ssn := sn, sts := ts\<rparr>) f1 = Inr (seg', f')"
    unfolding a flush_acks.simps Let_def by (elim rbindE)
  then show ?case using Cons.IH emit_kcp by metis
qed simp

lemma probes_kcp: "flush_probes seg f = Inr f' \<Longrightarrow> fl_kcp f' = (fl_kcp f)\<lparr>probe := 0\<rparr>"
  by (auto simp: flush_probes_def emit_kcp split: if_splits elim!: rbindE dest!: emit_kcp)

lemma probe_window_keeps [simp]:
  "incoming (probe_window k) = incoming k" "snd_buf (probe_window k) = snd_buf k" "snd_queue (probe_window k) = snd_queue k"
  by (simp_all add: probe_window_def incoming_def Let_def)

lemma move_snd_outgoing:
  "incoming (move_snd cw wnd segs k) = incoming k"
  "outgoing (move_snd cw wnd segs k) = map frag (snd_buf k @ segs)"
proof (induction segs arbitrary: k)
  case Nil
  { case 1 then show ?case by (simp add: incoming_def) }
  { case 2 then show ?case by (simp add: outgoing_def) }
next
  case (Cons seg segs)
  { case 1 then show ?case using Cons.IH(1) by (simp add: incoming_def Let_def) }
  { case 2 then show ?case using Cons.IH(2) by (simp add: outgoing_def Let_def frag_def) }
qed

lemma retime_frag [simp]: "frag (retime k rtomin why seg) = frag seg"
  by (simp add: retime_def frag_def Let_def split: send_reason.splits)

lemma count_reason_keeps [simp]:
  "incoming (fl_kcp (count_reason why f)) = incoming (fl_kcp f)" "snd_queue (fl_kcp (count_reason why f)) = snd_queue (fl_kcp f)"
  by (simp_all add: count_reason_def incoming_def split: send_reason.splits)

lemma segs_keeps:
  "flush_segs resent rtomin wnd segs f = Inr (segs', f') \<Longrightarrow>
     map frag segs' = map frag segs \<and> incoming (fl_kcp f') = incoming (fl_kcp f) \<and> snd_queue (fl_kcp f') = snd_queue (fl_kcp f)"
proof (induction segs arbitrary: f segs')
  case (Cons seg segs)
  let ?why = "send_reason (fl_kcp f) resent seg"
  let ?seg = "retime (fl_kcp f) rtomin ?why seg" and ?f = "count_reason ?why f"
  from Cons.prems obtain seg1 f1 segs1 where one:
      "(if ?why = Not_Due then Inr (?seg, ?f)
        else let seg = ?seg\<lparr>sts := current (fl_kcp f), swnd := wnd, suna := rcv_nxt (fl_kcp f)\<rparr>
             in rbind (emit seg ?f) (\<lambda>f'. Inr (seg, if dead_link (fl_kcp f) \<le> sxmit seg then f'\<lparr>fl_kcp := (fl_kcp f')\<lparr>kstate := - 1\<rparr>\<rparr> else f'))) = Inr (seg1, f1)"
      and more: "flush_segs resent rtomin wnd segs f1 = Inr (segs1, f')" "segs' = seg1 # segs1"
    by (auto simp: Let_def elim!: rbindE)
  have "frag seg1 = frag seg \<and> incoming (fl_kcp f1) = incoming (fl_kcp f) \<and> snd_queue (fl_kcp f1) = snd_queue (fl_kcp f)"
  proof (cases "?why = Not_Due")
    case True
    then show ?thesis using one by auto
  next
    case False
    let ?s = "?seg\<lparr>sts := current (fl_kcp f), swnd := wnd, suna := rcv_nxt (fl_kcp f)\<rparr>"
    obtain f2 where f2: "emit ?s ?f = Inr f2" "seg1 = ?s" "f1 = (if dead_link (fl_kcp f) \<le> sxmit ?s then f2\<lparr>fl_kcp := (fl_kcp f2)\<lparr>kstate := - 1\<rparr>\<rparr> else f2)"
      using one False unfolding Let_def by (auto elim!: rbindE)
    have "frag ?s = frag ?seg" by (simp add: frag_def)
    then show ?thesis using f2 emit_kcp [OF f2(1)] by simp
  qed
  then show ?case using Cons.IH [OF more(1)] more(2) by simp
qed simp

lemma adjust_keeps [simp]:
  "incoming (adjust_cwnd a b c d k) = incoming k" "snd_buf (adjust_cwnd a b c d k) = snd_buf k" "snd_queue (adjust_cwnd a b c d k) = snd_queue k"
  by (simp_all add: adjust_cwnd_def incoming_def Let_def)

lemma flush_same:
  assumes "ikcp_flush k = Inr (outs, k')"
  shows "outgoing k' = outgoing k" "incoming k' = incoming k"
proof -
  have "outgoing k' = outgoing k \<and> incoming k' = incoming k"
  proof (cases "updated k = 0")
    case True
    then show ?thesis using assms by (simp add: ikcp_flush_def)
  next
    case False
    from assms False obtain seg1 f1 f2 segs f3 f4 resent rtomin where
      f1: "flush_acks (acklist k) (ctl_seg k) (flush_start k) = Inr (seg1, f1)"
      and f2: "flush_probes seg1 (f1\<lparr>fl_kcp := probe_window ((fl_kcp f1)\<lparr>acklist := []\<rparr>)\<rparr>) = Inr f2"
      and f3: "flush_segs resent rtomin (swnd seg1)
          (snd_buf (move_snd (send_window (fl_kcp f2)) (swnd seg1) (snd_queue (fl_kcp f2)) (fl_kcp f2)))
          (f2\<lparr>fl_kcp := move_snd (send_window (fl_kcp f2)) (swnd seg1) (snd_queue (fl_kcp f2)) (fl_kcp f2)\<rparr>) = Inr (segs, f3)"
      and f4: "(if fl_buf f3 = [] then Inr f3 else ikcp_output f3) = Inr f4"
      and k': "k' = adjust_cwnd (cwnd k) resent (fl_change f4) (fl_lost f4) ((fl_kcp f4)\<lparr>snd_buf := segs\<rparr>)"
      unfolding ikcp_flush_def Let_def by (auto elim!: rbindE)
    let ?k = "move_snd (send_window (fl_kcp f2)) (swnd seg1) (snd_queue (fl_kcp f2)) (fl_kcp f2)"
    have k1: "fl_kcp f1 = k" using acks_kcp [OF f1] by (simp add: flush_start_def)
    have k2: "fl_kcp f2 = (probe_window (k\<lparr>acklist := []\<rparr>))\<lparr>probe := 0\<rparr>" using probes_kcp [OF f2] k1 by simp
    have k2': "incoming (fl_kcp f2) = incoming k" "snd_buf (fl_kcp f2) = snd_buf k" "snd_queue (fl_kcp f2) = snd_queue k"
      using k2 by simp_all
    have m: "incoming ?k = incoming k" "outgoing ?k = outgoing k"
      using move_snd_outgoing k2' by (simp_all add: outgoing_def [of k])
    have s: "map frag segs = map frag (snd_buf ?k)" "incoming (fl_kcp f3) = incoming ?k" "snd_queue (fl_kcp f3) = snd_queue ?k"
      using segs_keeps [OF f3] by simp_all
    have "fl_kcp f4 = fl_kcp f3" using f4 by (auto simp: ikcp_output_def split: if_splits)
    then show ?thesis using k' s m by (simp add: outgoing_def)
  qed
  then show "outgoing k' = outgoing k" "incoming k' = incoming k" by simp_all
qed

lemma update_same:
  assumes "ikcp_update k now = Inr (outs, k')"
  shows "outgoing k' = outgoing k" "incoming k' = incoming k"
proof -
  obtain u ts fl where u: "ikcp_update k now = (if fl then ikcp_flush (k\<lparr>current := now, updated := u, ts_flush := ts\<rparr>)
     else Inr ([], k\<lparr>current := now, updated := u, ts_flush := ts\<rparr>))"
    using update_form by blast
  let ?k = "k\<lparr>current := now, updated := u, ts_flush := ts\<rparr>"
  have same: "outgoing ?k = outgoing k" "incoming ?k = incoming k" by (simp_all add: outgoing_def incoming_def)
  have "outgoing k' = outgoing ?k \<and> incoming k' = incoming ?k"
  proof (cases fl)
    case True
    then have "ikcp_flush ?k = Inr (outs, k')" using assms u by simp
    then show ?thesis using flush_same by blast
  next
    case False
    then have "k' = ?k" using assms u by simp
    then show ?thesis by blast
  qed
  then show "outgoing k' = outgoing k" "incoming k' = incoming k" using same by simp_all
qed

section \<open>The session in hand\<close>

lemma on_kcp_does:
  assumes "map_of (sessions (mgr g)) c = Some s" "s_conv s = c" "ks_kcp (s_kcp s) = Some k"
    and "f (k\<lparr>kcp_mem := heap (mgr g)\<rparr>) = Inr (x, k')"
  shows "\<exists>g'. on_kcp f c g = Inr (x, g') \<and> map_of (sessions (mgr g')) c = Some (s\<lparr>s_kcp := (s_kcp s)\<lparr>ks_kcp := Some k'\<rparr>\<rparr>) \<and>
    to_targets g' = to_targets g \<and> to_clients g' = to_clients g \<and> gpool g' = gpool g \<and> heap (mgr g') = kcp_mem k'"
  using assms by (simp add: on_kcp_def session_at_def put_session_def)

lemma touch_does:
  assumes "map_of (sessions (mgr g)) c = Some s" "s_conv s = c"
  shows "\<exists>g' t. touch w c g = Inr g' \<and> map_of (sessions (mgr g')) c = Some (s\<lparr>last_active := t\<rparr>) \<and>
    to_targets g' = to_targets g \<and> to_clients g' = to_clients g \<and> gpool g' = gpool g \<and> heap (mgr g') = heap (mgr g)"
  using assms by (auto simp: touch_def session_at_def put_session_def)

lemma data_does:
  assumes "map_of (sessions (mgr g)) c = Some s" "s_conv s = c" "0 \<le> target_fd s"
    and "parse pkt = Some \<lparr>ptype = PACKET_DATA, pdata = Some d\<rparr>"
  shows "\<exists>g' t. handle_tunnel_msg w c pkt g = Inr (False, g') \<and> map_of (sessions (mgr g')) c = Some (s\<lparr>last_active := t\<rparr>) \<and>
    to_targets g' = to_targets g @ [(target_fd s, target_addr s, d)] \<and> to_clients g' = to_clients g \<and>
    heap (mgr g') = heap (mgr g)"
proof -
  obtain g' t where "touch w c g = Inr g'" "map_of (sessions (mgr g')) c = Some (s\<lparr>last_active := t\<rparr>)"
      "to_targets g' = to_targets g" "to_clients g' = to_clients g" "heap (mgr g') = heap (mgr g)"
    using touch_does [OF assms(1,2)] by blast
  then show ?thesis
    using assms by (simp add: handle_tunnel_msg_def handle_data_def session_at_def) blast
qed

lemma rcv_at_mem [simp]: "rcv_at M msgs k (kcp\<lparr>kcp_mem := h\<rparr>) = rcv_at M msgs k kcp"
  by (simp add: rcv_at_def rcv_wf_def rcv_stream_def rcv_off_def)

lemma parse_data_length: "parse pkt = Some \<lparr>ptype = PACKET_DATA, pdata = Some d\<rparr> \<Longrightarrow> 0 < length pkt"
  by (auto simp: parse_def split: if_splits)

section \<open>From the client to the game server\<close>

text \<open>\<open>data_packets pkts payloads\<close>: the messages \<open>pkts\<close> are DATA packets with these payloads that fit into a block.\<close>

definition data_packets :: "bytes list \<Rightarrow> bytes list \<Rightarrow> bool" where
  "data_packets pkts payloads \<longleftrightarrow>
     list_all2 (\<lambda>pkt d. parse pkt = Some \<lparr>ptype = PACKET_DATA, pdata = Some d\<rparr> \<and> length pkt \<le> POOL_BLOCK) pkts payloads"

lemma data_packets_nth:
  assumes "data_packets pkts payloads" "i < length payloads"
  shows "parse (pkts ! i) = Some \<lparr>ptype = PACKET_DATA, pdata = Some (payloads ! i)\<rparr>" "length (pkts ! i) \<le> POOL_BLOCK"
  using assms by (simp_all add: data_packets_def list_all2_conv_all_nth)

lemma drain_forwards:
  assumes "mem_good (heap (mgr g))" and "kcp_shape k"
    and "map_of (sessions (mgr g)) c = Some s" "s_conv s = c" "ks_kcp (s_kcp s) = Some k" "0 \<le> target_fd s"
    and "rcv_at M pkts i k" and small: "\<forall>m \<in> set pkts. length (chunks M m) < 4294967296"
    and pk: "data_packets pkts payloads" and "waiting c g < fuel"
  shows "\<exists>g' s' k' j. drain_msgs fuel w c b g = Inr (False, g') \<and> i \<le> j \<and> j \<le> length payloads \<and>
    to_targets g' = to_targets g @ map (\<lambda>d. (target_fd s, target_addr s, d)) (take (j - i) (drop i payloads)) \<and>
    to_clients g' = to_clients g \<and> map_of (sessions (mgr g')) c = Some s' \<and> s_conv s' = c \<and> ks_kcp (s_kcp s') = Some k' \<and> rcv_at M pkts j k' \<and>
    (i < length payloads \<and> length (chunks M (pkts ! i)) \<le> length (rcv_queue k) \<longrightarrow> i < j) \<and>
    (j < length payloads \<longrightarrow> length (rcv_queue k') < length (chunks M (pkts ! j)))"
  using assms(1-7) assms(10)
proof (induction fuel arbitrary: g s k i)
  case (Suc fuel)
  let ?recv = "\<lambda>k. rbind (ikcp_recv k (int POOL_BLOCK)) (\<lambda>(got, msg, k). Inr ((got, msg), k))"
  let ?k = "k\<lparr>kcp_mem := heap (mgr g)\<rparr>"
  have at: "rcv_at M pkts i ?k" using Suc.prems(7) by simp
  have n: "length pkts = length payloads" using pk by (simp add: data_packets_def list_all2_lengthD)
  have ok: "kcp_ok ?k" using Suc.prems(1,2) by (simp add: kcp_ok_def)
  have kat: "waiting c g = length (rcv_queue k) + length (rcv_buf k)"
    using Suc.prems(3,5) by (simp add: waiting_def)
  show ?case
  proof (cases "i < length payloads \<and> length (chunks M (pkts ! i)) \<le> length (rcv_queue k)")
    case True
    have d: "parse (pkts ! i) = Some \<lparr>ptype = PACKET_DATA, pdata = Some (payloads ! i)\<rparr>" "length (pkts ! i) \<le> POOL_BLOCK"
      using data_packets_nth [OF pk] True by auto
    then obtain k1 where k1: "ikcp_recv ?k (int POOL_BLOCK) = Inr (int (length (pkts ! i)), pkts ! i, k1)" "rcv_at M pkts (Suc i) k1"
      using recv_message [OF at small, of "int POOL_BLOCK"] True n by auto
    have r: "?recv ?k = Inr ((int (length (pkts ! i)), pkts ! i), k1)" using k1(1) by simp
    let ?s1 = "s\<lparr>s_kcp := (s_kcp s)\<lparr>ks_kcp := Some k1\<rparr>\<rparr>"
    obtain g1 where g1: "on_kcp ?recv c g = Inr ((int (length (pkts ! i)), pkts ! i), g1)"
        "map_of (sessions (mgr g1)) c = Some ?s1" "to_targets g1 = to_targets g" "to_clients g1 = to_clients g" "heap (mgr g1) = kcp_mem k1"
      using on_kcp_does [OF Suc.prems(3-5), of ?recv, OF r] by blast
    have ok1: "kcp_shape k1" "mem_good (kcp_mem k1)" "length (rcv_queue k1) + length (rcv_buf k1) < waiting c g"
      using recv_keeps [OF ok, of "int POOL_BLOCK"] k1(1) parse_data_length [OF d(1)] kat by (auto simp: keeps_def kcp_ok_def)
    let ?g1 = "pool_fill b (pkts ! i) g1"
    obtain g2 t where g2: "handle_tunnel_msg w c (pkts ! i) ?g1 = Inr (False, g2)" "map_of (sessions (mgr g2)) c = Some (?s1\<lparr>last_active := t\<rparr>)"
        "to_targets g2 = to_targets g @ [(target_fd s, target_addr s, payloads ! i)]" "to_clients g2 = to_clients g" "heap (mgr g2) = kcp_mem k1"
      using data_does [of ?g1 c ?s1 "pkts ! i" "payloads ! i" w] g1(2-5) Suc.prems(4,6) d(1) by auto
    have "waiting c g2 = length (rcv_queue k1) + length (rcv_buf k1)" using g2(2) by (simp add: waiting_def)
    then have "waiting c g2 < fuel" using ok1(3) Suc.prems(8) by linarith
    then have "\<exists>g' s' k' j. drain_msgs fuel w c b g2 = Inr (False, g') \<and> Suc i \<le> j \<and> j \<le> length payloads \<and>
        to_targets g' = to_targets g2 @ map (\<lambda>d. (target_fd s, target_addr s, d)) (take (j - Suc i) (drop (Suc i) payloads)) \<and>
        to_clients g' = to_clients g2 \<and> map_of (sessions (mgr g')) c = Some s' \<and> s_conv s' = c \<and> ks_kcp (s_kcp s') = Some k' \<and>
        rcv_at M pkts j k' \<and> (j < length payloads \<longrightarrow> length (rcv_queue k') < length (chunks M (pkts ! j)))"
      using Suc.IH [of g2 k1 "?s1\<lparr>last_active := t\<rparr>" "Suc i"] Suc.prems(4,6) ok1(1,2) g2(2,5) k1(2) by simp blast
    then obtain g' s' k' j where j: "drain_msgs fuel w c b g2 = Inr (False, g')" "Suc i \<le> j" "j \<le> length payloads"
        "to_targets g' = to_targets g2 @ map (\<lambda>d. (target_fd s, target_addr s, d)) (take (j - Suc i) (drop (Suc i) payloads))"
        "to_clients g' = to_clients g2" "map_of (sessions (mgr g')) c = Some s'" "s_conv s' = c" "ks_kcp (s_kcp s') = Some k'" "rcv_at M pkts j k'"
        "j < length payloads \<longrightarrow> length (rcv_queue k') < length (chunks M (pkts ! j))"
      by blast
    have "take (j - i) (drop i payloads) = payloads ! i # take (j - Suc i) (drop (Suc i) payloads)"
      using True j(2) by (simp add: Cons_nth_drop_Suc [symmetric] take_Cons' )
    then have tt: "to_targets g' = to_targets g @ map (\<lambda>d. (target_fd s, target_addr s, d)) (take (j - i) (drop i payloads))"
      using j(4) g2(3) by simp
    have "drain_msgs (Suc fuel) w c b g = Inr (False, g')"
      using g1(1) parse_data_length [OF d(1)] g2(1) j(1) by simp
    moreover have "i \<le> j" "i < j" using j(2) by simp_all
    ultimately show ?thesis using tt j g2(4) by metis
  next
    case False
    have "i < length pkts \<longrightarrow> length (rcv_queue ?k) < length (chunks M (pkts ! i))" using False n by auto
    then have "ikcp_peeksize ?k = - 1" by (rule recv_nothing [OF at small])
    then obtain r where r: "ikcp_recv ?k (int POOL_BLOCK) = Inr (r, [], ?k)" "r \<le> 0"
      by (cases "rcv_queue ?k = []") (simp_all add: ikcp_recv_def)
    have r': "?recv ?k = Inr ((r, []), ?k)" using r(1) by simp
    let ?s1 = "s\<lparr>s_kcp := (s_kcp s)\<lparr>ks_kcp := Some ?k\<rparr>\<rparr>"
    obtain g1 where g1: "on_kcp ?recv c g = Inr ((r, []), g1)" "map_of (sessions (mgr g1)) c = Some ?s1"
        "to_targets g1 = to_targets g" "to_clients g1 = to_clients g"
      using on_kcp_does [OF Suc.prems(3-5), of ?recv, OF r'] by blast
    have i: "i \<le> length payloads" using at n by (simp add: rcv_at_def)
    have "drain_msgs (Suc fuel) w c b g = Inr (False, g1)" using g1(1) r(2) by simp
    then show ?thesis
      using g1(2-4) i at False Suc.prems(4)
      by (intro exI [of _ g1] exI [of _ ?s1] exI [of _ ?k] exI [of _ i]) auto
  qed
qed simp

text \<open>
  C2: Game traffic reaches the server unchanged, once and in order. Let the client's messages be DATA
  packets that fit into a pool block, and the connection have delivered the first \<open>i\<close> of them. When a
  segment has been taken in, the gateway sends to the session's target exactly the payloads of the
  messages that have become complete, each as one datagram, in the order in which the client sent them:
  those from number \<open>i\<close> up to some \<open>j\<close>, where message \<open>j\<close>, if the client has sent it, still misses
  fragments. Nothing is sent to any client.
\<close>

theorem messages_reach_the_target:
  assumes "mem_good (heap (mgr g))" and "kcp_shape k"
    and "map_of (sessions (mgr g)) c = Some s" and "s_conv s = c" and "ks_kcp (s_kcp s) = Some k" and "0 \<le> target_fd s"
    and "rcv_at M pkts i k" and "\<forall>m \<in> set pkts. length (chunks M m) < 4294967296"
    and "data_packets pkts payloads"
  shows "\<exists>g' k' j. serve_messages w c b g = Inr g' \<and> i \<le> j \<and> j \<le> length payloads \<and>
    to_targets g' = to_targets g @ map (\<lambda>d. (target_fd s, target_addr s, d)) (take (j - i) (drop i payloads)) \<and>
    to_clients g' = to_clients g \<and> kcp_at c (mgr g') = Some k' \<and> rcv_at M pkts j k' \<and>
    (i < length payloads \<and> length (chunks M (pkts ! i)) \<le> length (rcv_queue k) \<longrightarrow> i < j) \<and>
    (j < length payloads \<longrightarrow> length (rcv_queue k') < length (chunks M (pkts ! j)))"
proof -
  obtain g1 s1 k1 j where j: "drain_msgs (Suc (waiting c g)) w c b g = Inr (False, g1)" "i \<le> j" "j \<le> length payloads"
      "to_targets g1 = to_targets g @ map (\<lambda>d. (target_fd s, target_addr s, d)) (take (j - i) (drop i payloads))"
      "to_clients g1 = to_clients g" "map_of (sessions (mgr g1)) c = Some s1" "s_conv s1 = c" "ks_kcp (s_kcp s1) = Some k1" "rcv_at M pkts j k1"
      "i < length payloads \<and> length (chunks M (pkts ! i)) \<le> length (rcv_queue k) \<longrightarrow> i < j"
      "j < length payloads \<longrightarrow> length (rcv_queue k1) < length (chunks M (pkts ! j))"
    using drain_forwards [OF assms lessI, of w b] by blast
  have "map_of (sessions (mgr (pool_put b g1))) c = Some s1" using j(6) by simp
  then obtain g2 t where g2: "touch w c (pool_put b g1) = Inr g2" "map_of (sessions (mgr g2)) c = Some (s1\<lparr>last_active := t\<rparr>)"
      "to_targets g2 = to_targets g1" "to_clients g2 = to_clients g1"
    using touch_does [of "pool_put b g1" c s1 w] j(7) by auto
  have "serve_messages w c b g = Inr g2" using j(1) g2(1) by (simp add: serve_messages_def)
  moreover have "kcp_at c (mgr g2) = Some k1" using g2(2) j(8) by (simp add: kcp_at_def)
  ultimately show ?thesis using j g2(3,4) by metis
qed

text \<open>A gateway with one session, to which a DATA packet has come.\<close>

definition demo_kcp :: ikcpcb where
  "demo_kcp = (new_kcp 1000 good_mem)\<lparr>has_output := True, rcv_queue := [fresh_seg\<lparr>sdata := [PACKET_DATA, 0, 2, 7, 8]\<rparr>], nrcv_que := 1, rcv_nxt := 1\<rparr>"

definition demo_session :: session where
  "demo_session = (Session 1000 \<lparr>sin_addr = 1, sin_port = 2\<rparr>)\<lparr>target_fd := 6, target_addr := \<lparr>sin_addr = 9, sin_port = 9\<rparr>,
     s_kcp := \<lparr>ks_kcp = Some demo_kcp, ks_peer = \<lparr>sin_addr = 1, sin_port = 2\<rparr>, ks_fd = 3\<rparr>\<rparr>"

definition demo_gateway :: gateway where
  "demo_gateway = \<lparr>gpool = pool_new, mgr = (new_manager 3 good_mem)\<lparr>sessions := [(1000, demo_session)], fd_to_session := [(6, 1000)], watched := [6], tick_ms := 5\<rparr>,
     kvc = new_kv_client, ticks = 0, to_clients = [], to_targets = []\<rparr>"

lemma demo_at: "rcv_at 1376 [[PACKET_DATA, 0, 2, 7, 8]] 0 demo_kcp"
proof -
  have "stream_of 1376 [[PACKET_DATA, 0, 2, 7, 8]] = [(0, [PACKET_DATA, 0, 2, 7, 8])]"
    by (simp add: stream_of_def chunks.simps [of 1376 "[PACKET_DATA, 0, 2, 7, 8]"])
  then have "rcv_stream (stream_of 1376 [[PACKET_DATA, 0, 2, 7, 8]]) 1 demo_kcp"
    by (simp add: rcv_stream_def demo_kcp_def new_kcp_def fresh_seg_def frag_def)
  moreover have "rcv_wf demo_kcp" by (simp add: rcv_wf_def demo_kcp_def new_kcp_def)
  ultimately show ?thesis by (auto simp: rcv_at_def demo_kcp_def intro: exI [of _ 1])
qed

lemma demo_shape: "kcp_shape demo_kcp"
  by (simp add: kcp_shape_def fits_def demo_kcp_def new_kcp_def)

theorem messages_reach_the_target_witness:
  "\<exists>g'. serve_messages quiet_world 1000 4095 demo_gateway = Inr g' \<and>
     to_targets g' = [(6, \<lparr>sin_addr = 9, sin_port = 9\<rparr>, [7, 8])] \<and> to_clients g' = []"
proof -
  let ?pkt = "[PACKET_DATA, 0, 2, 7, 8]"
  have one: "length (chunks 1376 ?pkt) = 1" by (simp add: chunks.simps [of 1376 ?pkt])
  have pk: "data_packets [?pkt] [[7, 8]]" by (simp add: data_packets_def parse_def host16_def)
  have g: "mem_good (heap (mgr demo_gateway))" "map_of (sessions (mgr demo_gateway)) 1000 = Some demo_session"
      "s_conv demo_session = 1000" "ks_kcp (s_kcp demo_session) = Some demo_kcp" "0 \<le> target_fd demo_session"
    by (simp_all add: demo_gateway_def demo_session_def new_manager_def Session_def)
  have d: "target_fd demo_session = 6" "target_addr demo_session = \<lparr>sin_addr = 9, sin_port = 9\<rparr>" "to_targets demo_gateway = []"
      "to_clients demo_gateway = []" "length (rcv_queue demo_kcp) = 1"
    by (simp_all add: demo_gateway_def demo_session_def demo_kcp_def)
  obtain g' k' j where r: "serve_messages quiet_world 1000 4095 demo_gateway = Inr g'" "j \<le> 1"
      "to_targets g' = to_targets demo_gateway @ map (\<lambda>d. (target_fd demo_session, target_addr demo_session, d)) (take j [[7, 8]])"
      "to_clients g' = to_clients demo_gateway" "0 < j"
    using messages_reach_the_target [OF g(1) demo_shape g(2-5) demo_at _ pk, of quiet_world 4095] one d(5) by auto
  then have "j = 1" by simp
  then show ?thesis using r(1,3,4) d by simp
qed

section \<open>Strangers\<close>

lemma pool_borrow:
  assumes "pool_rep (gpool g) (b # free)" and "b < POOL_CAP"
  shows "\<exists>g'. pool_get g = Inr (Some b, g') \<and> mgr g' = mgr g \<and> to_clients g' = to_clients g \<and> to_targets g' = to_targets g \<and>
    (\<forall>d. pool_rep (gpool (pool_put b (pool_fill b d g'))) (b # free)) \<and> pool_rep (gpool (pool_put b g')) (b # free) \<and> pool_rep (gpool g') free"
proof -
  obtain p' where p: "pool_alloc (gpool g) = Inr (Some b, p')" "pool_rep p' free" "b \<notin> set free"
    "\<And>data q. pool_rep q free \<Longrightarrow> pool_rep (pool_free (Some b) (pool_write b data q)) (b # free)"
    using blocks.borrow [OF assms(1)] by metis
  have "pool_rep (pool_free (Some b) p') (b # free)" using p(2,3) assms(2) by (simp add: pool_rep_def pool_free_def)
  then show ?thesis using p by (simp add: pool_get_def pool_fill_def pool_put_def)
qed

lemma pool_rep_fill: "b \<notin> set free \<Longrightarrow> pool_rep (gpool (pool_fill b d g)) free = pool_rep (gpool g) free"
  by (simp add: pool_fill_def pool_write_def pool_rep_def)

lemma pool_rep_put: "pool_rep (gpool g) free \<Longrightarrow> b \<notin> set free \<Longrightarrow> b < POOL_CAP \<Longrightarrow> pool_rep (gpool (pool_put b g)) (b # free)"
  by (simp add: pool_put_def pool_free_def pool_rep_def)

text \<open>
  C36: Strangers cannot interfere. A datagram that is not a REGISTER, and is too short for a KCP header or
  carries a conversation number that is unknown or belongs to another address, is dropped: no session,
  connection, target or table is touched, nothing is sent to anyone, and the pool is as it was.
\<close>

theorem strangers_are_ignored:
  assumes p: "pool_rep (gpool g) (b # free)" "b < POOL_CAP"
    and noreg: "\<not> (length d = 1 \<and> d ! 0 = PACKET_REGISTER)"
    and nobody: "length d < 24 \<or> (\<exists>cv. ikcp_getconv (take POOL_BLOCK d) = Inr cv \<and>
      (\<forall>s. map_of (sessions (mgr g)) cv = Some s \<longrightarrow> \<not> same_addr (client_addr s) src))"
  shows "\<exists>g'. handle_tunnel_datagram w [(src, d)] g = Inr g' \<and> mgr g' = mgr g \<and>
    to_clients g' = to_clients g \<and> to_targets g' = to_targets g \<and> pool_rep (gpool g') (b # free)"
proof -
  define pkt where "pkt = take POOL_BLOCK d"
  obtain g1 where g1: "pool_get g = Inr (Some b, g1)" "mgr g1 = mgr g" "to_clients g1 = to_clients g" "to_targets g1 = to_targets g"
      "\<forall>d. pool_rep (gpool (pool_put b (pool_fill b d g1))) (b # free)"
    using pool_borrow [OF p] by blast
  let ?g = "pool_put b (pool_fill b pkt g1)"
  have g: "mgr ?g = mgr g" "to_clients ?g = to_clients g" "to_targets ?g = to_targets g" "pool_rep (gpool ?g) (b # free)"
    using g1 by simp_all
  have reg: "\<not> (length pkt = 1 \<and> pkt ! 0 = PACKET_REGISTER)"
    using noreg by (auto simp: pkt_def split: if_splits)
  have none: "lookup src pkt (mgr g) = Inr None" if "\<not> length pkt < 24"
  proof -
    have "\<not> length d < 24" using that by (simp add: pkt_def)
    then show ?thesis using nobody by (auto simp: lookup_def pkt_def split: option.splits)
  qed
  have step: "handle_tunnel_datagram w [(src, d)] g = handle_tunnel_datagram w [] ?g"
    unfolding handle_tunnel_datagram.simps(2) Let_def pkt_def [symmetric] using g1(1,2) reg none by (auto simp del: handle_tunnel_datagram.simps)
  obtain g2 where g2: "pool_get ?g = Inr (Some b, g2)" "mgr g2 = mgr ?g" "to_clients g2 = to_clients ?g" "to_targets g2 = to_targets ?g"
      "pool_rep (gpool (pool_put b g2)) (b # free)"
    using pool_borrow [OF g(4) p(2)] by blast
  have "handle_tunnel_datagram w [] ?g = Inr (pool_put b g2)" using g2(1) by simp
  then show ?thesis using step g g2 by (intro exI [of _ "pool_put b g2"]) simp
qed

lemma demo_pool: "pool_rep (gpool demo_gateway) (4095 # 4094 # rev [0..<4094])"
  using pool_new_rep all_blocks_Cons by (simp add: demo_gateway_def)

theorem strangers_are_ignored_witness:
  "\<exists>g'. handle_tunnel_datagram quiet_world [(\<lparr>sin_addr = 66, sin_port = 66\<rparr>, [232, 3, 0, 0] @ replicate 20 0)] demo_gateway = Inr g' \<and>
     mgr g' = mgr demo_gateway \<and> to_clients g' = [] \<and> to_targets g' = []"
proof -
  let ?src = "\<lparr>sin_addr = 66, sin_port = 66\<rparr> :: sockaddr" and ?d = "[232, 3, 0, 0] @ replicate 20 0 :: bytes"
  have cv: "ikcp_getconv (take POOL_BLOCK ?d) = Inr 1000" by (simp add: ikcp_getconv_def)
  have "\<forall>s. map_of (sessions (mgr demo_gateway)) 1000 = Some s \<longrightarrow> \<not> same_addr (client_addr s) ?src"
    by (simp add: demo_gateway_def demo_session_def Session_def same_addr_def)
  then have "length ?d < 24 \<or> (\<exists>cv. ikcp_getconv (take POOL_BLOCK ?d) = Inr cv \<and>
      (\<forall>s. map_of (sessions (mgr demo_gateway)) cv = Some s \<longrightarrow> \<not> same_addr (client_addr s) ?src))"
    using cv by blast
  note s = strangers_are_ignored [OF demo_pool _ _ this, of quiet_world]
  show ?thesis using s by (auto simp: demo_gateway_def)
qed

section \<open>From the game server to the client\<close>

lemma kcp_out_does:
  assumes "map_of (sessions (mgr g)) c = Some s" "s_conv s = c" "ks_kcp (s_kcp s) = Some k"
    and "f (k\<lparr>kcp_mem := heap (mgr g)\<rparr>) = Inr (outs, k')"
  shows "\<exists>g'. kcp_out f c g = Inr g' \<and> map_of (sessions (mgr g')) c = Some (s\<lparr>s_kcp := (s_kcp s)\<lparr>ks_kcp := Some k'\<rparr>\<rparr>) \<and>
    to_targets g' = to_targets g \<and> to_clients g' = to_clients g @ map (Pair (ks_peer (s_kcp s))) outs \<and> gpool g' = gpool g \<and>
    heap (mgr g') = kcp_mem k'"
  using on_kcp_does [where f = f, OF assms] assms(1) by (auto simp: kcp_out_def session_at_def)

lemma outgoing_mem [simp]: "outgoing (k\<lparr>kcp_mem := h\<rparr>) = outgoing k"
  by (simp add: outgoing_def)

lemma send_outgoing:
  assumes ok: "kcp_ok k" and m: "mtu k = 1400" and len: "length msg \<le> POOL_BLOCK"
  shows "\<exists>k'. ikcp_send k msg (int (length msg)) = Inr (int (length msg), k') \<and> outgoing k' = outgoing k @ countdown (chunks 1376 msg) \<and> keeps k k' \<and>
    updated k' = updated k"
proof -
  have mss: "mss k = word_of_nat 1376" using ok m by (simp add: kcp_ok_def kcp_shape_def)
  have st: "stream k = 0" "mem_good (kcp_mem k)" using ok by (simp_all add: kcp_ok_def kcp_shape_def)
  have l30: "length msg < 2 ^ 30" using len by simp
  have "length (chunks 1376 msg) < 128" using len by (simp add: chunks_length less_mult_imp_div_less)
  then have s: "ikcp_send k msg (int (length msg)) = Inr (int (length msg), enqueue (countdown (chunks 1376 msg)) k)"
    using send_good [OF mss _ _ l30 st] by simp
  have "outgoing (enqueue (countdown (chunks 1376 msg)) k) = outgoing k @ countdown (chunks 1376 msg)"
    by (simp add: outgoing_def enqueue_def comp_def)
  then show ?thesis using s send_keeps [OF ok l30] send_updated [OF ok l30 s] by auto
qed

lemma relay_one:
  assumes h: "mem_good (heap (mgr g))" and k: "kcp_shape k" "mtu k = 1400"
    and s: "map_of (sessions (mgr g)) c = Some s" "s_conv s = c" "ks_kcp (s_kcp s) = Some k"
    and len: "length msg \<le> POOL_BLOCK"
  shows "\<exists>g' k' outs. rbind (kcp_out (\<lambda>k. ikcp_update k t) c g) (\<lambda>g.
       rbind (on_kcp (\<lambda>k. ikcp_send k msg (int (length msg))) c g) (\<lambda>(_, g). kcp_out ikcp_flush c g)) = Inr g' \<and>
    kcp_at c (mgr g') = Some k' \<and> outgoing k' = outgoing k @ countdown (chunks 1376 msg) \<and> incoming k' = incoming k \<and>
    to_targets g' = to_targets g \<and> to_clients g' = to_clients g @ map (Pair (ks_peer (s_kcp s))) outs \<and> gpool g' = gpool g"
proof -
  let ?k = "k\<lparr>kcp_mem := heap (mgr g)\<rparr>"
  have ok: "kcp_ok ?k" using h k by (simp add: kcp_ok_def)
  obtain o1 k1 where u: "ikcp_update ?k t = Inr (o1, k1)" "keeps ?k k1" using update_keeps [OF ok, of t] by blast
  let ?s1 = "s\<lparr>s_kcp := (s_kcp s)\<lparr>ks_kcp := Some k1\<rparr>\<rparr>"
  obtain g1 where g1: "kcp_out (\<lambda>k. ikcp_update k t) c g = Inr g1" "map_of (sessions (mgr g1)) c = Some ?s1"
      "to_targets g1 = to_targets g" "to_clients g1 = to_clients g @ map (Pair (ks_peer (s_kcp s))) o1" "gpool g1 = gpool g" "heap (mgr g1) = kcp_mem k1"
    using kcp_out_does [OF s, of "\<lambda>k. ikcp_update k t", OF u(1)] by blast
  have k1: "k1\<lparr>kcp_mem := heap (mgr g1)\<rparr> = k1" using g1(6) by simp
  have ok1: "kcp_ok k1" "mtu k1 = 1400" using u(2) k(2) by (simp_all add: keeps_def)
  obtain k2 where sd: "ikcp_send k1 msg (int (length msg)) = Inr (int (length msg), k2)"
      "outgoing k2 = outgoing k1 @ countdown (chunks 1376 msg)" "keeps k1 k2"
    using send_outgoing [OF ok1 len] by blast
  have inc: "incoming k2 = incoming k1"
  proof -
    have mss: "mss k1 = word_of_nat (unat (mss k1))" "0 < unat (mss k1)" "unat (mss k1) < 2 ^ 30"
      using ok1(1) mss_bound [OF ok1(1)] by (simp_all add: kcp_ok_def kcp_shape_def)
    have st: "stream k1 = 0" "mem_good (kcp_mem k1)" "length msg < 2 ^ 30" using ok1(1) len by (simp_all add: kcp_ok_def kcp_shape_def)
    show ?thesis
      using sd(1) send_good [OF mss st(3,1,2)] by (auto simp: enqueue_def incoming_def split: if_splits)
  qed
  have s1: "s_conv ?s1 = c" "ks_kcp (s_kcp ?s1) = Some k1" using s by simp_all
  have sd': "(\<lambda>k. ikcp_send k msg (int (length msg))) (k1\<lparr>kcp_mem := heap (mgr g1)\<rparr>) = Inr (int (length msg), k2)" using sd(1) k1 by simp
  let ?s2 = "?s1\<lparr>s_kcp := (s_kcp ?s1)\<lparr>ks_kcp := Some k2\<rparr>\<rparr>"
  obtain g2 where g2: "on_kcp (\<lambda>k. ikcp_send k msg (int (length msg))) c g1 = Inr (int (length msg), g2)" "map_of (sessions (mgr g2)) c = Some ?s2"
      "to_targets g2 = to_targets g1" "to_clients g2 = to_clients g1" "gpool g2 = gpool g1" "heap (mgr g2) = kcp_mem k2"
    using on_kcp_does [OF g1(2) s1, of "\<lambda>k. ikcp_send k msg (int (length msg))", OF sd'] by blast
  obtain o3 k3 where f: "ikcp_flush k2 = Inr (o3, k3)" using flush_keeps [of k2] sd(3) by (auto simp: keeps_def)
  have f': "ikcp_flush (k2\<lparr>kcp_mem := heap (mgr g2)\<rparr>) = Inr (o3, k3)" using f g2(6) by simp
  have s2: "s_conv ?s2 = c" "ks_kcp (s_kcp ?s2) = Some k2" using s by simp_all
  obtain g3 where g3: "kcp_out ikcp_flush c g2 = Inr g3" "map_of (sessions (mgr g3)) c = Some (?s2\<lparr>s_kcp := (s_kcp ?s2)\<lparr>ks_kcp := Some k3\<rparr>\<rparr>)"
      "to_targets g3 = to_targets g2" "to_clients g3 = to_clients g2 @ map (Pair (ks_peer (s_kcp ?s2))) o3" "gpool g3 = gpool g2"
    using kcp_out_does [OF g2(2) s2, of ikcp_flush, OF f'] by blast
  have "outgoing k3 = outgoing k @ countdown (chunks 1376 msg)" "incoming k3 = incoming k"
    using flush_same [OF f] sd(2) update_same [OF u(1)] inc by simp_all
  moreover have "kcp_at c (mgr g3) = Some k3" using g3(2) by (simp add: kcp_at_def)
  moreover have "to_clients g3 = to_clients g @ map (Pair (ks_peer (s_kcp s))) (o1 @ o3)" using g1(4) g2(4) g3(4) by simp
  ultimately show ?thesis
    using g1 g2 g3 by (intro exI [of _ g3] exI [of _ k3] exI [of _ "o1 @ o3"]) simp
qed

text \<open>
  C3: A reply goes to its client whole. A datagram from the game server, cut to the 2045 bytes that a
  pool block can hold beside the DATA header, is appended to the session's connection as one DATA message
  that parses back to these bytes, behind everything that still waits there; what the connection has
  received is untouched, nothing goes to a game server, every datagram that is sent goes to the session's
  client, and both blocks return to the pool.
\<close>

theorem reply_enters_the_connection:
  assumes "mem_good (heap (mgr g))" and k: "kcp_shape k" "mtu k = 1400"
    and s: "map_of (sessions (mgr g)) c = Some s" "s_conv s = c" "ks_kcp (s_kcp s) = Some k"
    and p: "pool_rep (gpool g) (b1 # b2 # free)" "b1 < POOL_CAP" "b2 < POOL_CAP"
  shows "\<exists>g' k' pkt outs. relay_replies w c [reply] g = Inr g' \<and> kcp_at c (mgr g') = Some k' \<and>
    parse pkt = Some \<lparr>ptype = PACKET_DATA, pdata = Some (take 2045 reply)\<rparr> \<and>
    outgoing k' = outgoing k @ countdown (chunks 1376 pkt) \<and> incoming k' = incoming k \<and>
    to_targets g' = to_targets g \<and> to_clients g' = to_clients g @ map (Pair (ks_peer (s_kcp s))) outs \<and>
    pool_rep (gpool g') (b1 # b2 # free)"
proof -
  define rply where "rply = take MAX_REPLY reply"
  have len: "length rply < 65536" "3 + length rply \<le> POOL_BLOCK" by (simp_all add: rply_def)
  obtain pkt where pkt: "pack_data POOL_BLOCK rply (word_of_nat (length rply)) = Inr pkt" "length pkt = 3 + length rply"
      "parse pkt = Some \<lparr>ptype = PACKET_DATA, pdata = Some rply\<rparr>"
    using parse_pack_data [OF len] by (metis append_Nil2)
  obtain g1 where g1: "pool_get g = Inr (Some b1, g1)" "mgr g1 = mgr g" "to_clients g1 = to_clients g" "to_targets g1 = to_targets g"
      "pool_rep (gpool g1) (b2 # free)"
    using pool_borrow [OF p(1,2)] by blast
  have b: "b1 \<notin> set (b2 # free)" "b2 \<notin> set free" using p(1) by (auto simp: pool_rep_def)
  let ?g1 = "pool_fill b1 rply g1"
  have r1: "pool_rep (gpool ?g1) (b2 # free)" using g1(5) pool_rep_fill [OF b(1)] by simp
  have m1: "map_of (sessions (mgr ?g1)) c = Some s" using g1(2) s(1) by simp
  obtain g2 t where g2: "touch w c ?g1 = Inr g2" "map_of (sessions (mgr g2)) c = Some (s\<lparr>last_active := t\<rparr>)"
      "to_targets g2 = to_targets g" "to_clients g2 = to_clients g" "gpool g2 = gpool ?g1" "heap (mgr g2) = heap (mgr g)"
    using touch_does [OF m1 s(2), of w] g1(2-4) by auto
  have r2: "pool_rep (gpool g2) (b2 # free)" using r1 g2(5) by simp
  obtain g3 where g3: "pool_get g2 = Inr (Some b2, g3)" "mgr g3 = mgr g2" "to_clients g3 = to_clients g2" "to_targets g3 = to_targets g2"
      "pool_rep (gpool g3) free"
    using pool_borrow [OF r2 p(3)] by blast
  define g4 where "g4 = (pool_fill b2 pkt g3)\<lparr>ticks := Suc (ticks (pool_fill b2 pkt g3))\<rparr>"
  let ?t = "now32 (clock w (ticks (pool_fill b2 pkt g3)))"
  have g4: "mem_good (heap (mgr g4))" "map_of (sessions (mgr g4)) c = Some (s\<lparr>last_active := t\<rparr>)" "to_targets g4 = to_targets g"
      "to_clients g4 = to_clients g" "pool_rep (gpool g4) free"
    using g2 g3 assms(1) pool_rep_fill [OF b(2)] by (simp_all add: g4_def)
  have l: "length pkt \<le> POOL_BLOCK" using pkt(2) len(2) by simp
  obtain g5 k5 outs where g5: "rbind (kcp_out (\<lambda>k. ikcp_update k ?t) c g4) (\<lambda>g.
       rbind (on_kcp (\<lambda>k. ikcp_send k pkt (int (length pkt))) c g) (\<lambda>(_, g). kcp_out ikcp_flush c g)) = Inr g5"
      "kcp_at c (mgr g5) = Some k5" "outgoing k5 = outgoing k @ countdown (chunks 1376 pkt)" "incoming k5 = incoming k"
      "to_targets g5 = to_targets g4" "to_clients g5 = to_clients g4 @ map (Pair (ks_peer (s_kcp s))) outs" "gpool g5 = gpool g4"
    using relay_one [OF g4(1) k g4(2) _ _ l, of ?t] s by auto
  let ?g5 = "pool_put b1 (pool_put b2 g5)"
  have r5: "pool_rep (gpool ?g5) (b1 # b2 # free)"
    by (rule pool_rep_put [OF pool_rep_put]) (use g5(7) g4(5) b p(2,3) in simp_all)
  have "relay_replies w c [reply] g = rbind (rbind (kcp_out (\<lambda>k. ikcp_update k ?t) c g4) (\<lambda>g.
       rbind (on_kcp (\<lambda>k. ikcp_send k pkt (int (length pkt))) c g) (\<lambda>(_, g). kcp_out ikcp_flush c g)))
     (\<lambda>g. relay_replies w c [] (pool_put b1 (pool_put b2 g)))"
    unfolding relay_replies.simps(2) Let_def rply_def [symmetric]
    by (simp add: g1(1) g2(1) g3(1) pkt(1) g4_def rbind_assoc case_prod_unfold)
  then have eq: "relay_replies w c [reply] g = relay_replies w c [] ?g5"
    unfolding g5(1) by simp
  obtain g6 where g6: "pool_get ?g5 = Inr (Some b1, g6)" "mgr g6 = mgr ?g5" "to_clients g6 = to_clients ?g5" "to_targets g6 = to_targets ?g5"
      "pool_rep (gpool (pool_put b1 g6)) (b1 # b2 # free)"
    using pool_borrow [OF r5 p(2)] by blast
  have "relay_replies w c [reply] g = Inr (pool_put b1 g6)" using eq g6(1) by simp
  moreover have "parse pkt = Some \<lparr>ptype = PACKET_DATA, pdata = Some (take 2045 reply)\<rparr>" using pkt(3) by (simp add: rply_def)
  ultimately show ?thesis
    using g5 g6 g4(3,4) by (intro exI [of _ "pool_put b1 g6"] exI [of _ k5] exI [of _ pkt] exI [of _ outs]) simp
qed

theorem reply_enters_the_connection_witness:
  "\<exists>g' k' pkt. relay_replies quiet_world 1000 [[5, 6]] demo_gateway = Inr g' \<and> kcp_at 1000 (mgr g') = Some k' \<and>
     parse pkt = Some \<lparr>ptype = PACKET_DATA, pdata = Some [5, 6]\<rparr> \<and> outgoing k' = countdown (chunks 1376 pkt) \<and> to_targets g' = []"
proof -
  have g: "mem_good (heap (mgr demo_gateway))" "mtu demo_kcp = 1400" "map_of (sessions (mgr demo_gateway)) 1000 = Some demo_session"
      "s_conv demo_session = 1000" "ks_kcp (s_kcp demo_session) = Some demo_kcp"
    by (simp_all add: demo_gateway_def demo_session_def new_manager_def Session_def demo_kcp_def new_kcp_def)
  have o: "outgoing demo_kcp = []" "to_targets demo_gateway = []"
    by (simp_all add: outgoing_def demo_kcp_def new_kcp_def demo_gateway_def)
  obtain g' k' pkt where "relay_replies quiet_world 1000 [[5, 6]] demo_gateway = Inr g'" "kcp_at 1000 (mgr g') = Some k'"
      "parse pkt = Some \<lparr>ptype = PACKET_DATA, pdata = Some (take 2045 [5, 6])\<rparr>"
      "outgoing k' = outgoing demo_kcp @ countdown (chunks 1376 pkt)" "to_targets g' = to_targets demo_gateway"
    using reply_enters_the_connection [OF g(1) demo_shape g(2-5) demo_pool, of quiet_world "[5, 6]"] by auto
  then show ?thesis unfolding o by auto
qed

section \<open>Messages larger than a block\<close>

text \<open>The first message of the queue is complete and larger than a block.\<close>

definition blocked :: "ikcpcb \<Rightarrow> bool" where
  "blocked k \<longleftrightarrow> list_ex (\<lambda>seg. sfrg seg = 0) (rcv_queue k) \<and> int POOL_BLOCK < data_len (fst (split_message (rcv_queue k)))"

lemma split_message_extend:
  "list_ex (\<lambda>seg. sfrg seg = 0) q \<Longrightarrow> fst (split_message (q @ ext)) = fst (split_message q)"
  by (induction q) (auto simp: case_prod_beta)

lemma blocked_append: "blocked k \<Longrightarrow> rcv_queue k' = rcv_queue k @ ext \<Longrightarrow> blocked k'"
  by (simp add: blocked_def split_message_extend)

lemma recv_blocked:
  assumes "blocked k"
  shows "\<exists>r. r \<le> 0 \<and> ikcp_recv k (int POOL_BLOCK) = Inr (r, [], k)"
proof (cases "rcv_queue k")
  case (Cons seg segs)
  then have "ikcp_peeksize k = - 1 \<or> int POOL_BLOCK < ikcp_peeksize k"
    using assms by (auto simp: blocked_def ikcp_peeksize_def)
  then show ?thesis using Cons by (auto simp: ikcp_recv_def)
qed (use assms in \<open>simp add: blocked_def\<close>)

text \<open>Input only appends to the queue.\<close>

definition extends :: "ikcpcb \<Rightarrow> ikcpcb \<Rightarrow> bool" where
  "extends k k' \<longleftrightarrow> (\<exists>ext. rcv_queue k' = rcv_queue k @ ext)"

lemma extends_refl: "rcv_queue k' = rcv_queue k \<Longrightarrow> extends k k'"
  by (simp add: extends_def)

lemma extends_trans: "extends a b \<Longrightarrow> extends b c \<Longrightarrow> extends a c"
  by (auto simp: extends_def)

lemma extends_blocked: "extends k k' \<Longrightarrow> blocked k \<Longrightarrow> blocked k'"
  by (auto simp: extends_def intro: blocked_append)

lemma move_ready_extends: "extends k (move_ready buf k)"
proof (induction buf arbitrary: k)
  case (Cons seg buf)
  let ?k = "k\<lparr>nrcv_buf := nrcv_buf k - 1, rcv_queue := rcv_queue k @ [seg], nrcv_que := nrcv_que k + 1, rcv_nxt := rcv_nxt k + 1\<rparr>"
  have "extends k ?k" by (simp add: extends_def)
  then show ?case using Cons.IH [of ?k] extends_trans by (auto intro: extends_refl)
qed (simp add: extends_def)

lemma parse_data_extends: "extends k (ikcp_parse_data k seg)"
proof -
  have "extends k (take_in k seg)"
    by (rule extends_refl) (simp add: take_in_def split: option.splits)
  then have "extends k (move_ready (rcv_buf (take_in k seg)) (take_in k seg))" by (rule extends_trans [OF _ move_ready_extends])
  then show ?thesis by (simp add: ikcp_parse_data_def take_in_def Let_def extends_refl)
qed

lemma una_queue: "rcv_queue (una_loop una segs k) = rcv_queue k"
  by (induction segs arbitrary: k) simp_all

lemma segment_new_queue: "rcv_queue (snd (ikcp_segment_new n k)) = rcv_queue k"
  by (simp add: ikcp_segment_new_def ikcp_malloc_def case_prod_beta)

lemma push_extends: "input_push k h d = Inr k' \<Longrightarrow> extends k k'"
proof -
  assume r: "input_push k h d = Inr k'"
  show "extends k k'"
  proof (cases "itimediff (hsn h) (rcv_nxt k + rcv_wnd k) < 0")
    case True
    obtain k1 where k1: "ikcp_ack_push k (hsn h) (hts h) = Inr k1"
        "(if 0 \<le> itimediff (hsn h) (rcv_nxt k1) then let (ok, kcp) = ikcp_segment_new (unat (hlen h)) k1
            in if \<not> ok then Inl Null_Deref else Inr (ikcp_parse_data kcp (push_seg h d)) else Inr k1) = Inr k'"
      using r True unfolding input_push_def by (auto elim: rbindE)
    have q1: "rcv_queue k1 = rcv_queue k"
      using k1(1) by (auto simp: ikcp_ack_push_def Let_def ikcp_malloc_def ikcp_free_def case_prod_beta split: if_splits elim!: rbindE)
    let ?k2 = "snd (ikcp_segment_new (unat (hlen h)) k1)"
    have "k' = k1 \<or> k' = ikcp_parse_data ?k2 (push_seg h d)"
      using k1(2) by (auto simp: case_prod_beta Let_def split: if_splits)
    then show ?thesis
      using q1 segment_new_queue parse_data_extends extends_trans by (metis extends_refl)
  next
    case False
    then show ?thesis using r by (simp add: input_push_def extends_refl)
  qed
qed

lemma ack_queue: "input_ack k acks sn ts = Inr (k', acks') \<Longrightarrow> rcv_queue k' = rcv_queue k"
  by (auto simp: input_ack_def ikcp_shrink_buf_def ikcp_parse_ack_def split: if_splits option.splits elim!: rbindE dest!: update_ack_cases)

lemma seg_extends: "input_seg k acks h d = Inr (k', acks') \<Longrightarrow> extends k k'"
proof -
  assume r: "input_seg k acks h d = Inr (k', acks')"
  let ?k = "ikcp_shrink_buf (ikcp_parse_una (k\<lparr>rmt_wnd := ucast (hwnd h)\<rparr>) (huna h))"
  have q: "extends k ?k" by (rule extends_refl) (simp add: ikcp_shrink_buf_def ikcp_parse_una_def una_queue)
  have "extends ?k k'"
    using r push_extends ack_queue
    by (auto simp: input_seg_def Let_def split: if_splits elim!: rbindE intro: extends_refl)
  then show ?thesis using q extends_trans by blast
qed

lemma loop_extends: "input_loop data k acks = Inr (r, k', acks') \<Longrightarrow> extends k k'"
proof (induction data k acks rule: input_loop.induct)
  case (1 data k acks)
  show ?case
  proof (cases "length data < 24")
    case True
    then show ?thesis using 1(2) input_loop.simps [of data k acks] by (auto intro: extends_refl)
  next
    case False
    then obtain h q where h: "decode_header data = Inr (h, q)"
      using 1(2) input_loop.simps [of data k acks] by (auto split: sum.splits)
    show ?thesis
    proof (cases "hconv h \<noteq> conv k \<or> length q < unat (hlen h) \<or> sint (hlen h) < 0 \<or> \<not> known_cmd (hcmd h)")
      case True
      then show ?thesis
        using 1(2) False h input_loop.simps [of data k acks] by (auto split: if_splits intro: extends_refl)
    next
      case good: False
      then obtain k1 acks1 where k1: "input_seg k acks h (take (unat (hlen h)) q) = Inr (k1, acks1)"
          "input_loop (drop (unat (hlen h)) q) k1 acks1 = Inr (r, k', acks')"
        using 1(2) False h input_loop.simps [of data k acks] by (auto split: sum.splits)
      have "extends k1 k'" using 1(1) [OF False h refl _ _ _ k1(1) refl k1(2)] good by auto
      then show ?thesis using seg_extends [OF k1(1)] extends_trans by blast
    qed
  qed
qed

lemma grow_queue: "grow_cwnd k = Inr k' \<Longrightarrow> rcv_queue k' = rcv_queue k"
  by (auto simp: grow_cwnd_def Let_def split: if_splits elim!: rbindE)

lemma input_extends:
  assumes "ikcp_input k data = Inr (r, k')"
  shows "extends k k'"
proof -
  let ?k = "k\<lparr>ackedlen := 0\<rparr>"
  have k: "extends k ?k" by (simp add: extends_refl)
  show ?thesis
  proof (cases "sint (word_of_nat (length data) :: u32) < 24")
    case True
    then show ?thesis using assms k by (auto simp: ikcp_input_def Let_def)
  next
    case False
    from assms False obtain r1 k1 acks where l: "input_loop data ?k None = Inr (r1, k1, acks)"
        "(if r1 \<noteq> 0 then Inr (r1, k1)
          else let kcp = (case acks of None \<Rightarrow> k1 | Some (maxack, latest_ts) \<Rightarrow> ikcp_parse_fastack k1 maxack latest_ts)
             in rbind (if 0 < itimediff (snd_una kcp) (snd_una k) then grow_cwnd kcp else Inr kcp) (\<lambda>kcp. Inr (0, kcp))) = Inr (r, k')"
      unfolding ikcp_input_def Let_def by (auto elim!: rbindE)
    have fast: "rcv_queue (case acks of None \<Rightarrow> k1 | Some (maxack, latest_ts) \<Rightarrow> ikcp_parse_fastack k1 maxack latest_ts) = rcv_queue k1"
      by (simp add: ikcp_parse_fastack_def split: option.splits prod.splits)
    have "rcv_queue k' = rcv_queue k1"
      using l(2) fast by (auto simp: Let_def split: if_splits elim!: rbindE dest!: grow_queue)
    then show ?thesis
      using loop_extends [OF l(1)] k extends_refl extends_trans by blast
  qed
qed

lemma on_kcp_inv:
  assumes "on_kcp f c g = Inr (x, g')" and inv: "mgr_inv (mgr g)" and k: "kcp_at c (mgr g) = Some k"
  shows "\<exists>k'. f (k\<lparr>kcp_mem := heap (mgr g)\<rparr>) = Inr (x, k') \<and> kcp_at c (mgr g') = Some k' \<and> to_targets g' = to_targets g"
proof -
  obtain s where s: "map_of (sessions (mgr g)) c = Some s" "ks_kcp (s_kcp s) = Some k" using kcp_at_SomeD [OF k] by blast
  have c: "s_conv s = c" by (rule mgr_session(1) [OF inv s(1)])
  from assms(1) s obtain k' where f: "f (k\<lparr>kcp_mem := heap (mgr g)\<rparr>) = Inr (x, k')"
    by (auto simp: on_kcp_def session_at_def elim!: rbindE)
  show ?thesis
    using on_kcp_does [OF s(1) c s(2), of f, OF f] assms(1) f by (auto simp: kcp_at_def)
qed

lemma kcp_out_inv:
  assumes "kcp_out f c g = Inr g'" and inv: "mgr_inv (mgr g)" and k: "kcp_at c (mgr g) = Some k"
  shows "\<exists>outs k'. f (k\<lparr>kcp_mem := heap (mgr g)\<rparr>) = Inr (outs, k') \<and> kcp_at c (mgr g') = Some k' \<and> to_targets g' = to_targets g"
proof -
  obtain outs g1 where g1: "on_kcp f c g = Inr (outs, g1)" "mgr g' = mgr g1" "to_targets g' = to_targets g1"
    using assms(1) by (auto simp: kcp_out_def elim!: rbindE)
  then show ?thesis using on_kcp_inv [OF g1(1) inv k] by auto
qed

lemma on_kcp_mgr_inv:
  assumes "on_kcp f c g = Inr (x, g')" and inv: "mgr_inv (mgr g)"
  shows "mgr_inv (mgr g')"
proof -
  obtain s k k' where s: "map_of (sessions (mgr g)) c = Some s" "ks_kcp (s_kcp s) = Some k"
      and g': "mgr g' = put_session (s\<lparr>s_kcp := (s_kcp s)\<lparr>ks_kcp := Some k'\<rparr>\<rparr>) ((mgr g)\<lparr>heap := kcp_mem k'\<rparr>)"
    using assms(1) by (auto simp: on_kcp_def session_at_def split: option.splits elim!: rbindE)
  show ?thesis
    unfolding g' by (rule put_session_inv [where ?s0.0 = s]) (use s inv mgr_session [OF inv s(1)] in simp_all)
qed

lemma kcp_out_mgr_inv: "kcp_out f c g = Inr g' \<Longrightarrow> mgr_inv (mgr g) \<Longrightarrow> mgr_inv (mgr g')"
  by (auto simp: kcp_out_def elim!: rbindE dest: on_kcp_mgr_inv)

lemma gw_inv: "gw_ok lim busy base free n g \<Longrightarrow> mgr_inv (mgr g)"
  by (simp add: gw_ok_def conns_ok_def)

text \<open>A run that is safe and whose results have \<open>Q\<close>.\<close>

lemma safe_conj: "safe P r \<Longrightarrow> (\<And>x. r = Inr x \<Longrightarrow> Q x) \<Longrightarrow> safe (\<lambda>x. P x \<and> Q x) r"
  by (cases r) simp_all

definition stuck :: "u32 \<Rightarrow> gateway \<Rightarrow> gateway \<Rightarrow> bool" where
  "stuck c g g' \<longleftrightarrow> to_targets g' = to_targets g \<and> (\<exists>k. kcp_at c (mgr g') = Some k \<and> blocked k)"

lemma touch_stuck:
  assumes "touch w c g = Inr g'" and inv: "mgr_inv (mgr g)" and k: "kcp_at c (mgr g) = Some k"
  shows "to_targets g' = to_targets g \<and> kcp_at c (mgr g') = Some k"
proof -
  obtain s where s: "map_of (sessions (mgr g)) c = Some s" "ks_kcp (s_kcp s) = Some k" using kcp_at_SomeD [OF k] by blast
  show ?thesis
    using touch_does [OF s(1) mgr_session(1) [OF inv s(1)], of w] assms(1) s(2) by (auto simp: kcp_at_def)
qed

lemma segment_stuck:
  assumes ok: "gw_ok lim {} base free n g" and k: "kcp_at c (mgr g) = Some k" "blocked k"
    and r: "serve_segment w c pkt g = Inr g'"
  shows "stuck c g g'"
proof -
  obtain g1 where g1: "touch w c g = Inr g1" "gw_ok lim {} base free n g1" "kcp_at c (mgr g1) = Some k" "to_targets g1 = to_targets g"
    using touch_safe [OF ok k(1), of w] touch_stuck [OF _ gw_inv [OF ok] k(1), of w] by blast
  from r g1(1) obtain x g2 where g2: "on_kcp (\<lambda>k. ikcp_input k pkt) c g1 = Inr (x, g2)"
      "rbind (kcp_out (\<lambda>k. ikcp_update k (now32 (clock w (ticks g2)))) c (g2\<lparr>ticks := Suc (ticks g2)\<rparr>)) (kcp_out ikcp_flush c) = Inr g'"
    by (auto simp: serve_segment_def elim!: rbindE)
  obtain k2 where k2: "ikcp_input (k\<lparr>kcp_mem := heap (mgr g1)\<rparr>) pkt = Inr (x, k2)" "kcp_at c (mgr g2) = Some k2" "to_targets g2 = to_targets g1"
    using on_kcp_inv [OF g2(1) gw_inv [OF g1(2)] g1(3)] by blast
  have b0: "blocked (k\<lparr>kcp_mem := h\<rparr>) = blocked k" for k h by (simp add: blocked_def)
  have b2: "blocked k2" using extends_blocked [OF input_extends [OF k2(1)]] b0 k(2) by simp
  have inv2: "mgr_inv (mgr g2)"
    using on_kcp_mgr_inv [OF g2(1)] gw_inv [OF g1(2)] by blast
  let ?g2 = "g2\<lparr>ticks := Suc (ticks g2)\<rparr>"
  obtain g3 where g3: "kcp_out (\<lambda>k. ikcp_update k (now32 (clock w (ticks g2)))) c ?g2 = Inr g3" "kcp_out ikcp_flush c g3 = Inr g'"
    using g2(2) by (auto elim!: rbindE)
  obtain o3 k3 where k3: "ikcp_update (k2\<lparr>kcp_mem := heap (mgr ?g2)\<rparr>) (now32 (clock w (ticks g2))) = Inr (o3, k3)"
      "kcp_at c (mgr g3) = Some k3" "to_targets g3 = to_targets ?g2"
    using kcp_out_inv [OF g3(1), of k2] inv2 k2(2) by auto
  have q3: "rcv_queue k3 = rcv_queue k2" using update_same(2) [OF k3(1)] by (simp add: incoming_def)
  have inv3: "mgr_inv (mgr g3)" using kcp_out_mgr_inv [OF g3(1)] inv2 by simp
  obtain o4 k4 where k4: "ikcp_flush (k3\<lparr>kcp_mem := heap (mgr g3)\<rparr>) = Inr (o4, k4)" "kcp_at c (mgr g') = Some k4" "to_targets g' = to_targets g3"
    using kcp_out_inv [OF g3(2) inv3 k3(2)] by blast
  have "rcv_queue k4 = rcv_queue k2" using flush_same(2) [OF k4(1)] q3 by (simp add: incoming_def)
  then have "blocked k4" using b2 by (simp add: blocked_def)
  then show ?thesis using k4(2,3) k3(3) k2(3) g1(4) by (simp add: stuck_def)
qed

text \<open>Of a blocked session no message is read, so nothing is asked of the store.\<close>

lemma messages_blocked_safe:
  assumes ok: "gw_ok lim busy base free n g" and k: "kcp_at c (mgr g) = Some k" "blocked k" and b: "b \<notin> set free" "b < POOL_CAP"
  shows "safe (gw_ok lim busy base (b # free) n) (serve_messages w c b g)"
proof -
  let ?recv = "\<lambda>k. rbind (ikcp_recv k (int POOL_BLOCK)) (\<lambda>(got, msg, k). Inr ((got, msg), k))"
  let ?k = "k\<lparr>kcp_mem := heap (mgr g)\<rparr>"
  have "blocked ?k" using k(2) by (simp add: blocked_def)
  then obtain x where x: "x \<le> 0" "?recv ?k = Inr ((x, []), ?k)" using recv_blocked by force
  obtain s where s: "map_of (sessions (mgr g)) c = Some s" "ks_kcp (s_kcp s) = Some k" using kcp_at_SomeD [OF k(1)] by blast
  obtain g1 where g1: "on_kcp ?recv c g = Inr ((x, []), g1)"
    using on_kcp_does [OF s(1) mgr_session(1) [OF gw_inv [OF ok] s(1)] s(2), of ?recv, OF x(2)] by blast
  then obtain k1 where k1: "gw_ok lim busy base free n g1" "kcp_at c (mgr g1) = Some k1"
    using recv_safe [OF ok k(1)] by auto
  have "serve_messages w c b g = touch w c (pool_put b g1)"
    using g1 x(1) by (simp add: serve_messages_def)
  then show ?thesis
    using touch_safe [OF pool_put_safe [OF k1(1) b], of c k1 w] k1(2) by auto
qed

lemma messages_stuck:
  assumes inv: "mgr_inv (mgr g)" and k: "kcp_at c (mgr g) = Some k" "blocked k" and r: "serve_messages w c b g = Inr g'"
  shows "stuck c g g'"
proof -
  let ?recv = "\<lambda>k. rbind (ikcp_recv k (int POOL_BLOCK)) (\<lambda>(got, msg, k). Inr ((got, msg), k))"
  let ?k = "k\<lparr>kcp_mem := heap (mgr g)\<rparr>"
  have bk: "blocked ?k" using k(2) by (simp add: blocked_def)
  obtain x where x: "x \<le> 0" "ikcp_recv ?k (int POOL_BLOCK) = Inr (x, [], ?k)" using recv_blocked [OF bk] by blast
  have x': "?recv ?k = Inr ((x, []), ?k)" using x(2) by simp
  obtain s where s: "map_of (sessions (mgr g)) c = Some s" "ks_kcp (s_kcp s) = Some k" using kcp_at_SomeD [OF k(1)] by blast
  obtain g1 where g1: "on_kcp ?recv c g = Inr ((x, []), g1)"
    using on_kcp_does [OF s(1) mgr_session(1) [OF inv s(1)] s(2), of ?recv, OF x'] by blast
  have k1: "kcp_at c (mgr g1) = Some ?k" "to_targets g1 = to_targets g" using on_kcp_inv [OF g1 inv k(1)] x' by auto
  have "drain_msgs (Suc (waiting c g)) w c b g = Inr (False, g1)" using g1 x(1) by simp
  then have t: "touch w c (pool_put b g1) = Inr g'" using r unfolding serve_messages_def by simp
  have "to_targets g' = to_targets (pool_put b g1) \<and> kcp_at c (mgr g') = Some ?k"
    by (rule touch_stuck [OF t]) (use on_kcp_mgr_inv [OF g1 inv] k1(1) in simp_all)
  then show ?thesis using k1(2) bk by (simp add: stuck_def)
qed

lemma segment_dispatch:
  assumes "pool_get g = Inr (Some b, g1)" and "24 \<le> length d" and "lookup src (take POOL_BLOCK d) (mgr g1) = Inr (Some c)"
    and "session_at (mgr g1) c = Inr s"
  shows "handle_tunnel_datagram w ((src, d) # rest) g =
    (let g2 = pool_fill b (take POOL_BLOCK d) g1 in
     if dying s then handle_tunnel_datagram w rest (pool_put b g2)
     else rbind (serve_segment w c (take POOL_BLOCK d) g2) (\<lambda>g. rbind (pool_get (pool_put b g)) (\<lambda>(b, g).
       case b of None \<Rightarrow> Inr g | Some b \<Rightarrow> rbind (serve_messages w c b g) (handle_tunnel_datagram w rest))))"
proof -
  define pkt where "pkt = take POOL_BLOCK d"
  have len: "24 \<le> length pkt" using assms(2) by (simp add: pkt_def)
  show ?thesis
    using assms(1,3,4) len
    unfolding handle_tunnel_datagram.simps(2) Let_def pkt_def [symmetric] by (auto simp del: handle_tunnel_datagram.simps)
qed

lemma foreign_dispatch:
  assumes "pool_get g = Inr (Some b, g1)" and "24 \<le> length d" and "lookup src (take POOL_BLOCK d) (mgr g1) = Inr None"
  shows "handle_tunnel_datagram w ((src, d) # rest) g = handle_tunnel_datagram w rest (pool_put b (pool_fill b (take POOL_BLOCK d) g1))"
proof -
  define pkt where "pkt = take POOL_BLOCK d"
  have len: "24 \<le> length pkt" using assms(2) by (simp add: pkt_def)
  show ?thesis
    using assms(1,3) len
    unfolding handle_tunnel_datagram.simps(2) Let_def pkt_def [symmetric] by (auto simp del: handle_tunnel_datagram.simps)
qed

lemma stuck_trans: "stuck c a b \<Longrightarrow> stuck c b d \<Longrightarrow> stuck c a d"
  by (auto simp: stuck_def)

text \<open>
  C37: A message larger than a pool block stops its session for good. Once such a message is complete at
  the head of the queue, \<open>ikcp_recv\<close> answers -3 and leaves it there - the log line says "dropped" -, so
  whatever further segments of this conversation arrive, nothing is forwarded to the game server any more
  and the message is still in the way; the handler itself returns normally. The client can therefore only
  wait for the idle limit, which its own segments keep pushing back.
\<close>

theorem oversized_message_blocks_session:
  assumes ok: "gw_ok lim {} base (b # free) n g" and b: "b < POOL_CAP"
    and k: "kcp_at c (mgr g) = Some k" and bk: "blocked k"
    and seg: "list_all (\<lambda>(src, d). 24 \<le> length d \<and> ikcp_getconv (take POOL_BLOCK d) = Inr c) dgrams"
  shows "safe (\<lambda>g'. to_targets g' = to_targets g \<and> (\<exists>k'. kcp_at c (mgr g') = Some k' \<and> blocked k')) (handle_tunnel_datagram w dgrams g)"
proof -
  have "safe (stuck c g) (handle_tunnel_datagram w dgrams g)"
    using ok k bk seg
  proof (induction dgrams arbitrary: g k)
    case Nil
    obtain g1 where "pool_get g = Inr (Some b, g1)" "mgr g1 = mgr g" "to_targets g1 = to_targets g" using pool_get_safe [OF Nil.prems(1)] by blast
    then show ?case using Nil.prems by (simp add: stuck_def)
  next
    case (Cons x rest)
    obtain src d where x: "x = (src, d)" by force
    let ?pkt = "take POOL_BLOCK d"
    have d: "24 \<le> length d" "ikcp_getconv ?pkt = Inr c" and more: "list_all (\<lambda>(src, d). 24 \<le> length d \<and> ikcp_getconv (take POOL_BLOCK d) = Inr c) rest"
      using Cons.prems(4) x by simp_all
    obtain g1 where g1: "pool_get g = Inr (Some b, g1)" "gw_ok lim {} base free n g1" "b \<notin> set free" "mgr g1 = mgr g" "to_targets g1 = to_targets g"
      using pool_get_safe [OF Cons.prems(1)] by blast
    let ?g2 = "pool_fill b ?pkt g1"
    have g2: "gw_ok lim {} base free n ?g2" "kcp_at c (mgr ?g2) = Some k" using g1 Cons.prems(2) by simp_all
    have skip: "safe (stuck c g) (handle_tunnel_datagram w rest (pool_put b ?g2))"
    proof -
      have "safe (stuck c (pool_put b ?g2)) (handle_tunnel_datagram w rest (pool_put b ?g2))"
        using Cons.IH [OF pool_put_safe [OF g2(1) g1(3) b] _ Cons.prems(3) more] g2(2) by simp
      then show ?thesis by (rule safe_mono) (use g1(5) in \<open>simp add: stuck_def\<close>)
    qed
    obtain s where s: "map_of (sessions (mgr g1)) c = Some s" "session_at (mgr g1) c = Inr s"
      using gw_session [OF g2] by auto
    show ?case
    proof (cases "same_addr (client_addr s) src")
      case False
      then have "lookup src ?pkt (mgr g1) = Inr None" using d(2) s(1) by (simp add: lookup_def)
      then show ?thesis using skip foreign_dispatch [OF g1(1) d(1)] x by simp
    next
      case True
      then have "lookup src ?pkt (mgr g1) = Inr (Some c)" using d(2) s(1) by (simp add: lookup_def)
      note eq = segment_dispatch [OF g1(1) d(1) this s(2), of w rest]
      have one: "safe (\<lambda>g'. (gw_ok lim {} base free n g' \<and> kcp_at c (mgr g') \<noteq> None) \<and> stuck c ?g2 g') (serve_segment w c ?pkt ?g2)"
        by (rule safe_conj [OF segment_safe [OF g2]]) (auto intro: segment_stuck [OF g2 Cons.prems(3)])
      have "safe (stuck c g) (rbind (serve_segment w c ?pkt ?g2) (\<lambda>g. rbind (pool_get (pool_put b g)) (\<lambda>(b, g).
          case b of None \<Rightarrow> Inr g | Some b \<Rightarrow> rbind (serve_messages w c b g) (handle_tunnel_datagram w rest))))"
      proof (rule safe_rbind [OF one], clarify)
        fix g3 k3 assume g3: "gw_ok lim {} base free n g3" "stuck c ?g2 g3"
        obtain k3' where k3: "kcp_at c (mgr g3) = Some k3'" "blocked k3'" using g3(2) by (auto simp: stuck_def)
        obtain g4 where g4: "pool_get (pool_put b g3) = Inr (Some b, g4)" "gw_ok lim {} base free n g4" "mgr g4 = mgr g3" "to_targets g4 = to_targets g3"
          using pool_get_safe [OF pool_put_safe [OF g3(1) g1(3) b]] by auto
        have k4: "kcp_at c (mgr g4) = Some k3'" using k3 g4(3) by simp
        have two: "safe (\<lambda>g'. gw_ok lim {} base (b # free) n g' \<and> stuck c g4 g') (serve_messages w c b g4)"
          by (rule safe_conj [OF messages_blocked_safe [OF g4(2) k4 k3(2) g1(3) b]]) (rule messages_stuck [OF gw_inv [OF g4(2)] k4 k3(2)])
        have "safe (stuck c g) (rbind (serve_messages w c b g4) (handle_tunnel_datagram w rest))"
        proof (rule safe_rbind [OF two], clarify)
          fix g5 assume g5: "gw_ok lim {} base (b # free) n g5" "stuck c g4 g5"
          obtain k5 where k5: "kcp_at c (mgr g5) = Some k5" "blocked k5" using g5(2) by (auto simp: stuck_def)
          have t5: "to_targets g5 = to_targets g" using g5(2) g4(4) g3(2) g1(5) by (simp add: stuck_def)
          show "safe (stuck c g) (handle_tunnel_datagram w rest g5)"
            by (rule safe_mono [OF Cons.IH [OF g5(1) k5 more]]) (use t5 in \<open>simp add: stuck_def\<close>)
        qed
        then show "safe (stuck c g) (rbind (pool_get (pool_put b g3)) (\<lambda>(b, g).
            case b of None \<Rightarrow> Inr g | Some b \<Rightarrow> rbind (serve_messages w c b g) (handle_tunnel_datagram w rest)))"
          using g4(1) by simp
      qed
      then show ?thesis using skip eq x by (simp add: Let_def)
    qed
  qed
  then show ?thesis by (rule safe_mono) (simp add: stuck_def)
qed

text \<open>The gateway above, with a message of 2100 bytes in the session's queue.\<close>

definition big_kcp :: ikcpcb where
  "big_kcp = demo_kcp\<lparr>rcv_queue := [fresh_seg\<lparr>sfrg := 1, sdata := replicate 1376 0\<rparr>, fresh_seg\<lparr>sdata := replicate 724 0\<rparr>], nrcv_que := 2\<rparr>"

definition big_gateway :: gateway where
  "big_gateway = demo_gateway\<lparr>mgr := put_session (demo_session\<lparr>s_kcp := (s_kcp demo_session)\<lparr>ks_kcp := Some big_kcp\<rparr>\<rparr>) (mgr demo_gateway)\<rparr>"

lemma big_session:
  "sessions (mgr big_gateway) = [(1000, demo_session\<lparr>s_kcp := (s_kcp demo_session)\<lparr>ks_kcp := Some big_kcp\<rparr>\<rparr>)]"
  by (simp add: big_gateway_def demo_gateway_def put_session_def demo_session_def Session_def)

lemma big_kcp_at: "kcp_at c (mgr big_gateway) = (if c = 1000 then Some big_kcp else None)"
  by (simp add: kcp_at_def big_session)

lemma demo_mgr_inv: "mgr_inv (mgr demo_gateway)"
  by (simp add: mgr_inv_def tables_ok_def demo_gateway_def new_manager_def demo_session_def Session_def)

lemma big_ok: "gw_ok 0 {} (mem_live good_mem - int (kcp_blocks big_kcp)) (4095 # 4094 # rev [0..<4094]) 1 big_gateway"
proof -
  have s: "map_of (sessions (mgr demo_gateway)) 1000 = Some demo_session" "s_conv demo_session = 1000" "ks_peer (s_kcp demo_session) = client_addr demo_session"
    by (simp_all add: demo_gateway_def demo_session_def Session_def)
  have "mgr_inv (mgr big_gateway)"
    unfolding big_gateway_def by (simp, rule put_session_inv [OF demo_mgr_inv, where ?s0.0 = demo_session]) (use s in simp_all)
  moreover have "conn_ok {} 1000 big_kcp"
    by (simp add: conn_ok_def kcp_shape_def fits_def big_kcp_def demo_kcp_def new_kcp_def)
  moreover have "heap (mgr big_gateway) = good_mem" "gpool big_gateway = gpool demo_gateway" "to_clients big_gateway = []"
      "kv_fd (kvc big_gateway) < 0"
    by (simp_all add: big_gateway_def demo_gateway_def new_manager_def new_kv_client_def)
  ultimately show ?thesis
    using demo_pool by (simp add: gw_ok_def conns_ok_def big_kcp_at big_session sess_blocks_def)
qed

lemma big_blocked: "blocked big_kcp"
  by (simp add: blocked_def big_kcp_def data_len_def fresh_seg_def)

theorem oversized_message_blocks_session_witness:
  "safe (\<lambda>g'. to_targets g' = to_targets big_gateway \<and> (\<exists>k'. kcp_at 1000 (mgr g') = Some k' \<and> blocked k'))
     (handle_tunnel_datagram quiet_world [(\<lparr>sin_addr = 1, sin_port = 2\<rparr>, [232, 3, 0, 0] @ replicate 20 0)] big_gateway)"
  by (rule oversized_message_blocks_session [OF big_ok _ _ big_blocked])
     (simp_all add: big_kcp_at ikcp_getconv_def)

end
