(* ===== verification/TunnelClient.thy ===== *)
theory TunnelClient
  imports Prelude KcpBase KcpSend KcpRecv KcpAck KcpInput KcpFlush KcpSafe Tunnel MemPool Sessions KvClient Gateway EventLoop GatewayFlow
begin

unbundle bit_operations_syntax

text \<open>
  The other ends of the tunnel: the client, \<open>src/client/tunnel_client.cpp\<close> and \<open>src/client/main.cpp\<close>, and the
  echo server that plays the game server in tests, \<open>src/test_server/udp_echo_server.cpp\<close>.
\<close>

section \<open>The client\<close>

text \<open>
  What the surroundings answer: the clock by the number of the reading; what comes back in a registration
  attempt (\<^term>\<open>None\<close>: \<open>select\<close> times out or \<open>recvfrom\<close> yields nothing); what a wait for the connection's
  datagrams yields, by the number of the wait; \<open>socket\<close> and \<open>inet_pton\<close>.
\<close>

record client_world =
  cw_clock :: "nat \<Rightarrow> u64"
  cw_register :: "nat \<Rightarrow> (sockaddr \<times> bytes) option"
  cw_datagram :: "nat \<Rightarrow> bytes option"
  cw_socket :: int
  cw_pton :: "string \<Rightarrow> u32 option"

text \<open>\<open>c_sent\<close> are the datagrams sent to the gateway, and \<open>c_mem\<close> is the process's allocator.\<close>

record tunnel_client =
  c_fd :: int
  c_kcp :: "ikcpcb option"
  c_gw :: sockaddr
  c_conv :: u32
  c_mem :: mem
  c_ticks :: nat
  c_waits :: nat
  c_sent :: "bytes list"

abbreviation WBUF :: nat where "WBUF \<equiv> 65535"

definition new_client :: "mem \<Rightarrow> tunnel_client" where
  "new_client m = \<lparr>c_fd = - 1, c_kcp = None, c_gw = no_addr, c_conv = 0, c_mem = m, c_ticks = 0, c_waits = 0, c_sent = []\<rparr>"

definition client_now :: "client_world \<Rightarrow> tunnel_client \<Rightarrow> u64 \<times> tunnel_client" where
  "client_now w c = (cw_clock w (c_ticks c), c\<lparr>c_ticks := Suc (c_ticks c)\<rparr>)"

definition client_kcp :: "(ikcpcb \<Rightarrow> ('a \<times> ikcpcb) res) \<Rightarrow> tunnel_client \<Rightarrow> ('a \<times> tunnel_client) res" where
  "client_kcp f c =
     (case c_kcp c of
        None \<Rightarrow> Inl Null_Deref
      | Some k \<Rightarrow> rbind (f (k\<lparr>kcp_mem := c_mem c\<rparr>)) (\<lambda>(x, k). Inr (x, c\<lparr>c_kcp := Some k, c_mem := kcp_mem k\<rparr>)))"

text \<open>Calls that send, through \<open>TunnelClient::kcp_output\<close>.\<close>

definition client_out :: "(ikcpcb \<Rightarrow> (bytes list \<times> ikcpcb) res) \<Rightarrow> tunnel_client \<Rightarrow> tunnel_client res" where
  "client_out f c = rbind (client_kcp f c) (\<lambda>(ds, c). Inr (c\<lparr>c_sent := c_sent c @ ds\<rparr>))"

definition kcp_pump :: "client_world \<Rightarrow> tunnel_client \<Rightarrow> tunnel_client res" where
  "kcp_pump w c =
     (let (t, c) = client_now w c
      in rbind (client_out (\<lambda>k. ikcp_update k (now32 t)) c) (client_out ikcp_flush))"

definition send_tun :: "client_world \<Rightarrow> bytes \<Rightarrow> tunnel_client \<Rightarrow> tunnel_client res" where
  "send_tun w pkt c =
     (let (t, c) = client_now w c
      in rbind (client_out (\<lambda>k. ikcp_update k (now32 t)) c) (\<lambda>c.
         rbind (client_kcp (\<lambda>k. ikcp_send k pkt (int (length pkt))) c) (\<lambda>(_, c).
           client_out ikcp_flush c)))"

text \<open>The attempts of \<open>register_with_gateway\<close> from number \<open>i\<close> on, of which \<open>n\<close> are left.\<close>

fun register_attempts :: "client_world \<Rightarrow> nat \<Rightarrow> nat \<Rightarrow> tunnel_client \<Rightarrow> u32 option \<times> tunnel_client" where
  "register_attempts w i 0 c = (None, c)"
| "register_attempts w i (Suc n) c =
     (let c = c\<lparr>c_sent := c_sent c @ [pack_register]\<rparr>
      in case cw_register w i of
           None \<Rightarrow> register_attempts w (Suc i) n c
         | Some (from_addr, d) \<Rightarrow>
             let buf = take 16 d
             in if buf = [] then register_attempts w (Suc i) n c
                else if sin_addr from_addr \<noteq> sin_addr (c_gw c) \<or> sin_port from_addr \<noteq> sin_port (c_gw c)
                then register_attempts w (Suc i) n c
                else (case read_registered buf of
                        Some cv \<Rightarrow> (Some cv, c)
                      | None \<Rightarrow> register_attempts w (Suc i) n c))"

definition register_with_gateway :: "client_world \<Rightarrow> tunnel_client \<Rightarrow> u32 option \<times> tunnel_client" where
  "register_with_gateway w c = register_attempts w 0 5 c"

definition client_connect :: "client_world \<Rightarrow> string \<Rightarrow> u16 \<Rightarrow> tunnel_client \<Rightarrow> (bool \<times> tunnel_client) res" where
  "client_connect w ip port c =
     (let c = c\<lparr>c_fd := cw_socket w\<rparr>
      in if c_fd c < 0 then Inr (False, c)
         else
           let gw = (c_gw c)\<lparr>sin_port := htons port\<rparr>;
               gw = (case cw_pton w ip of None \<Rightarrow> gw | Some a \<Rightarrow> gw\<lparr>sin_addr := a\<rparr>);
               (cv, c) = register_with_gateway w (c\<lparr>c_gw := gw\<rparr>)
           in case cv of
                None \<Rightarrow> Inr (False, c\<lparr>c_fd := - 1\<rparr>)
              | Some cv \<Rightarrow>
                  (case ikcp_create cv (c_mem c) of
                     (None, m) \<Rightarrow> Inl Null_Deref
                   | (Some k, m) \<Rightarrow>
                       let k = ikcp_setoutput k;
                           (_, k) = ikcp_nodelay k 1 10 2 1
                       in Inr (True, c\<lparr>c_conv := cv, c_kcp := Some k, c_mem := m\<rparr>)))"

definition bytes_of :: "string \<Rightarrow> bytes" where
  "bytes_of s = map (\<lambda>ch. word_of_nat (of_char ch)) s"

text \<open>\<open>open_route\<close> and \<open>send_data\<close>; the arguments are C strings, without the NUL.\<close>

definition open_route :: "client_world \<Rightarrow> string \<Rightarrow> tunnel_client \<Rightarrow> (bool \<times> tunnel_client) res" where
  "open_route w route c =
     (if ROUTE_MAX < length route then Inr (False, c)
      else rbind (pack_connect WBUF (bytes_of route) (word_of_nat (length route))) (\<lambda>pkt.
           rbind (send_tun w pkt c) (\<lambda>c. Inr (True, c))))"

definition send_data :: "client_world \<Rightarrow> bytes \<Rightarrow> u16 \<Rightarrow> tunnel_client \<Rightarrow> tunnel_client res" where
  "send_data w text len c = rbind (pack_data WBUF text len) (\<lambda>pkt. send_tun w pkt c)"

text \<open>
  The loop of \<open>wait_reply\<close>, entered at \<open>start\<close>: the reply, or \<^term>\<open>None\<close> for \<open>false\<close>. The fuel bounds the
  number of passes, which the source leaves to the clock.
\<close>

fun wait_loop :: "nat \<Rightarrow> client_world \<Rightarrow> u64 \<Rightarrow> int \<Rightarrow> tunnel_client \<Rightarrow> (bytes option \<times> tunnel_client) res" where
  "wait_loop 0 w start timeout_ms c = Inl Diverges"
| "wait_loop (Suc n) w start timeout_ms c =
     rbind (kcp_pump w c) (\<lambda>c.
     rbind (client_kcp (\<lambda>k. rbind (ikcp_recv k 65535) (\<lambda>(got, msg, k). Inr ((got, msg), k))) c) (\<lambda>((got, msg), c).
       if 0 < got then Inr (Some msg, c)
       else
         let (t, c) = client_now w c;
             rem = timeout_ms - sint (t - start)
         in if rem \<le> 0 then Inr (None, c)
            else
              let d = cw_datagram w (c_waits c);
                  c = c\<lparr>c_waits := Suc (c_waits c)\<rparr>
              in case d of
                   None \<Rightarrow> wait_loop n w start timeout_ms c
                 | Some d \<Rightarrow>
                     let buf = take 65535 d
                     in if buf = [] then wait_loop n w start timeout_ms c
                        else rbind (client_kcp (\<lambda>k. ikcp_input k buf) c) (\<lambda>(_, c).
                             rbind (kcp_pump w c) (wait_loop n w start timeout_ms))))"

definition wait_reply :: "nat \<Rightarrow> client_world \<Rightarrow> int \<Rightarrow> tunnel_client \<Rightarrow> (bytes option \<times> tunnel_client) res" where
  "wait_reply fuel w timeout_ms c = (let (t, c) = client_now w c in wait_loop fuel w t timeout_ms c)"

definition send_close :: "client_world \<Rightarrow> tunnel_client \<Rightarrow> tunnel_client res" where
  "send_close w c = rbind (send_tun w pack_close c) (kcp_pump w)"

definition client_disconnect :: "tunnel_client \<Rightarrow> tunnel_client" where
  "client_disconnect c =
     (let c = (case c_kcp c of
                 None \<Rightarrow> c
               | Some k \<Rightarrow> c\<lparr>c_mem := ikcp_release (k\<lparr>kcp_mem := c_mem c\<rparr>), c_kcp := None\<rparr>)
      in if 0 \<le> c_fd c then c\<lparr>c_fd := - 1\<rparr> else c)"

section \<open>The client's main program\<close>

datatype echo = Malformed | Echo bytes | Unexpected u8

text \<open>\<open>print_echo\<close>: what is printed of a reply.\<close>

definition print_echo :: "bytes \<Rightarrow> echo" where
  "print_echo buf =
     (case parse buf of
        None \<Rightarrow> Malformed
      | Some p \<Rightarrow>
          if ptype p = PACKET_DATA then
            let data = (case pdata p of None \<Rightarrow> [] | Some d \<Rightarrow> d);
                n = (if length data < 4096 then length data else 4096)
            in Echo (takeWhile (\<lambda>b. b \<noteq> 0) (take n data))
          else Unexpected (ptype p))"

definition roundtrip :: "nat \<Rightarrow> client_world \<Rightarrow> string \<Rightarrow> tunnel_client \<Rightarrow> (echo option \<times> tunnel_client) res" where
  "roundtrip fuel w text c =
     rbind (send_data w (bytes_of text) (word_of_nat (length text)) c) (\<lambda>c.
     rbind (wait_reply fuel w 3000 c) (\<lambda>(r, c). Inr (map_option print_echo r, c)))"

text \<open>The interactive loop over what \<open>fgets\<close> returns.\<close>

fun interactive :: "nat \<Rightarrow> client_world \<Rightarrow> string list \<Rightarrow> tunnel_client \<Rightarrow> tunnel_client res" where
  "interactive fuel w [] c = Inr c"
| "interactive fuel w (line # lines) c =
     (let line = takeWhile (\<lambda>ch. ch \<noteq> CHR 0x0A) (c_str line)
      in if line = [] then interactive fuel w lines c
         else if line = ''quit'' then Inr c
         else rbind (roundtrip fuel w line c) (\<lambda>(_, c). interactive fuel w lines c))"

text \<open>\<open>main\<close>: the arguments after the program's name, and the lines of the standard input; the exit status.\<close>

definition client_main :: "nat \<Rightarrow> client_world \<Rightarrow> string list \<Rightarrow> string list \<Rightarrow> mem \<Rightarrow> (int \<times> tunnel_client) res" where
  "client_main fuel w args lines m =
     (case args of
        [] \<Rightarrow> Inr (1, new_client m)
      | route # texts \<Rightarrow>
          if ROUTE_MAX < length route then Inr (1, new_client m)
          else
            rbind (client_connect w ''127.0.0.1'' 8000 (new_client m)) (\<lambda>(ok, c).
              if \<not> ok then Inr (1, client_disconnect c)
              else rbind (open_route w route c) (\<lambda>(ok, c).
                if \<not> ok then Inr (1, client_disconnect c)
                else rbind (case texts of
                              text # _ \<Rightarrow> rbind (roundtrip fuel w text c) (\<lambda>(_, c). Inr c)
                            | [] \<Rightarrow> interactive fuel w lines c) (\<lambda>c.
                     rbind (send_close w c) (\<lambda>c. Inr (0, client_disconnect c))))))"

section \<open>The echo server\<close>

abbreviation BUF_SIZE :: nat where "BUF_SIZE \<equiv> 65535"

text \<open>The loop of \<open>main\<close> over the results of \<open>recvfrom\<close> (\<^term>\<open>None\<close>: it fails): the datagrams sent.\<close>

fun echo_loop :: "(sockaddr \<times> bytes) option list \<Rightarrow> (sockaddr \<times> bytes) list res" where
  "echo_loop [] = Inr []"
| "echo_loop (None # rest) = echo_loop rest"
| "echo_loop (Some (peer, d) # rest) =
     (let buf = take BUF_SIZE d
      in if BUF_SIZE \<le> length buf then Inl Out_Of_Bounds
         else rbind (echo_loop rest) (\<lambda>out. Inr ((peer, buf) # out)))"

text \<open>\<open>main\<close> when \<open>socket\<close> returns \<open>fd\<close> and \<open>bind\<close> succeeds or not.\<close>

definition echo_main :: "int \<Rightarrow> bool \<Rightarrow> (sockaddr \<times> bytes) option list \<Rightarrow> (int \<times> (sockaddr \<times> bytes) list) res" where
  "echo_main fd bound input =
     (if fd < 0 then Inr (1, [])
      else if \<not> bound then Inr (1, [])
      else rbind (echo_loop input) (\<lambda>out. Inr (0, out)))"

section \<open>Datagrams carry the conversation number\<close>

definition carries :: "u32 \<Rightarrow> bytes \<Rightarrow> bool" where
  "carries cv d \<longleftrightarrow> 24 \<le> length d \<and> ikcp_getconv d = Inr cv"

definition own :: "ikcpcb \<Rightarrow> bool" where
  "own k \<longleftrightarrow> (\<forall>seg \<in> set (snd_buf k). sconv seg = conv k)"

lemma encode_seg_append: "ikcp_encode_seg buf seg = buf @ ikcp_encode_seg [] seg"
  by (simp add: ikcp_encode_seg_def ikcp_encode8u_def ikcp_encode16u_def ikcp_encode32u_def)

lemma encode_seg_carries: "carries (sconv seg) (ikcp_encode_seg [] seg @ d)"
proof -
  have "ikcp_encode_seg [] seg @ d = ikcp_encode32u [] (sconv seg) @
      drop 4 (ikcp_encode_seg [] seg) @ d"
    by (simp add: ikcp_encode_seg_def ikcp_encode8u_def ikcp_encode16u_def ikcp_encode32u_def)
  then have "ikcp_decode32u (ikcp_encode_seg [] seg @ d) = Inr (sconv seg, drop 4 (ikcp_encode_seg [] seg) @ d)"
    using decode32_encode32 by metis
  moreover have "length (ikcp_encode_seg [] seg) = 24"
    by (simp add: ikcp_encode_seg_def ikcp_encode8u_def ikcp_encode16u_def ikcp_encode32u_def)
  ultimately show ?thesis by (simp add: carries_def ikcp_getconv_def)
qed

lemma carries_append: "carries cv d \<Longrightarrow> carries cv (d @ e)"
  by (cases d rule: ikcp_decode32u.cases) (auto simp: carries_def ikcp_getconv_def)

definition tagged :: "u32 \<Rightarrow> flush \<Rightarrow> bool" where
  "tagged cv f \<longleftrightarrow> (fl_buf f = [] \<or> carries cv (fl_buf f)) \<and> list_all (carries cv) (fl_sent f)"

lemma output_tagged: "ikcp_output f = Inr f' \<Longrightarrow> tagged cv f \<Longrightarrow> tagged cv f' \<and> fl_kcp f' = fl_kcp f \<and> list_all (carries cv) (fl_sent f')"
  by (auto simp: ikcp_output_def tagged_def split: if_splits)

lemma emit_tagged:
  assumes "emit seg f = Inr f'" and "tagged cv f" and "sconv seg = cv"
  shows "tagged cv f'"
proof -
  obtain f1 where f1: "(if sint (mtu (fl_kcp f)) < int (length (fl_buf f)) + (24 + int (length (sdata seg)))
      then rbind (ikcp_output f) (\<lambda>f. Inr (f\<lparr>fl_buf := []\<rparr>)) else Inr f) = Inr f1"
      "f' = f1\<lparr>fl_buf := ikcp_encode_seg (fl_buf f1) seg @ sdata seg\<rparr>"
    using assms(1) unfolding emit_def by (auto simp: Let_def split: if_splits elim!: rbindE)
  have t1: "tagged cv f1"
    using f1(1) assms(2) output_tagged [of f _ cv] by (auto simp: tagged_def split: if_splits elim!: rbindE)
  have "carries cv (ikcp_encode_seg (fl_buf f1) seg @ sdata seg)"
  proof (cases "fl_buf f1 = []")
    case True
    then show ?thesis using encode_seg_carries [of seg "sdata seg"] assms(3) by simp
  next
    case False
    then have "carries cv (fl_buf f1)" using t1 by (simp add: tagged_def)
    then show ?thesis using encode_seg_append [of "fl_buf f1" seg] carries_append by simp
  qed
  then show ?thesis using t1 f1(2) by (simp add: tagged_def)
qed

lemma acks_tagged:
  "flush_acks acks seg f = Inr (seg', f') \<Longrightarrow> tagged cv f \<Longrightarrow> sconv seg = cv \<Longrightarrow> tagged cv f' \<and> sconv seg' = cv"
proof (induction acks arbitrary: seg f)
  case (Cons a acks)
  obtain sn ts where a: "a = (sn, ts)" by force
  let ?seg = "seg\<lparr>ssn := sn, sts := ts\<rparr>"
  from Cons.prems obtain f1 where f1: "emit ?seg f = Inr f1" "flush_acks acks ?seg f1 = Inr (seg', f')"
    unfolding a flush_acks.simps Let_def by (elim rbindE)
  have "tagged cv f1" by (rule emit_tagged [OF f1(1) Cons.prems(2)]) (use Cons.prems(3) in simp)
  then show ?case using Cons.IH [OF f1(2)] Cons.prems(3) by simp
qed simp

lemma probes_tagged:
  assumes "flush_probes seg f = Inr f'" and "tagged cv f" and "sconv seg = cv"
  shows "tagged cv f'"
proof -
  from assms(1) obtain f1 f2 where f:
      "(if probe (fl_kcp f) AND IKCP_ASK_SEND \<noteq> 0 then emit (seg\<lparr>scmd := IKCP_CMD_WASK\<rparr>) f else Inr f) = Inr f1"
      "(if probe (fl_kcp f1) AND IKCP_ASK_TELL \<noteq> 0 then emit (seg\<lparr>scmd := IKCP_CMD_WINS\<rparr>) f1 else Inr f1) = Inr f2"
      "f' = f2\<lparr>fl_kcp := (fl_kcp f2)\<lparr>probe := 0\<rparr>\<rparr>"
    unfolding flush_probes_def by (elim rbindE) auto
  have "tagged cv f1" using f(1) assms(2,3) emit_tagged [of "seg\<lparr>scmd := IKCP_CMD_WASK\<rparr>" f f1 cv] by (auto split: if_splits)
  then have "tagged cv f2" using f(2) assms(3) emit_tagged [of "seg\<lparr>scmd := IKCP_CMD_WINS\<rparr>" f1 f2 cv] by (auto split: if_splits)
  then show ?thesis using f(3) by (simp add: tagged_def)
qed

lemma tagged_kcp [simp]: "tagged cv (f\<lparr>fl_kcp := k\<rparr>) = tagged cv f"
  by (simp add: tagged_def)

lemma move_snd_own: "own k \<Longrightarrow> own (move_snd cw wnd segs k) \<and> conv (move_snd cw wnd segs k) = conv k"
proof (induction segs arbitrary: k)
  case (Cons seg segs)
  let ?new = "seg\<lparr>sconv := conv k, scmd := IKCP_CMD_PUSH, swnd := wnd, sts := current k, ssn := snd_nxt k, suna := rcv_nxt k,
    sresendts := current k, srto := word_of_int (rx_rto k), sfastack := 0, sxmit := 0\<rparr>"
  let ?k = "k\<lparr>snd_buf := snd_buf k @ [?new], nsnd_que := nsnd_que k - 1, nsnd_buf := nsnd_buf k + 1, snd_nxt := snd_nxt k + 1\<rparr>"
  have "own ?k" using Cons.prems by (auto simp: own_def)
  then show ?case using Cons.IH [of ?k] Cons.prems by (simp add: own_def Let_def)
qed (simp add: own_def)

lemma retime_conv [simp]: "sconv (retime k rtomin why seg) = sconv seg"
  by (simp add: retime_def Let_def split: send_reason.splits)

lemma count_reason_tagged [simp]: "tagged cv (count_reason why f) = tagged cv f" "conv (fl_kcp (count_reason why f)) = conv (fl_kcp f)"
  by (simp_all add: count_reason_def tagged_def split: send_reason.splits)

lemma segs_tagged:
  "flush_segs resent rtomin wnd segs f = Inr (segs', f') \<Longrightarrow> tagged cv f \<Longrightarrow> \<forall>seg \<in> set segs. sconv seg = cv \<Longrightarrow>
     tagged cv f' \<and> (\<forall>seg \<in> set segs'. sconv seg = cv) \<and> conv (fl_kcp f') = conv (fl_kcp f)"
proof (induction segs arbitrary: f segs')
  case (Cons seg segs)
  let ?why = "send_reason (fl_kcp f) resent seg"
  let ?seg = "retime (fl_kcp f) rtomin ?why seg" and ?f = "count_reason ?why f"
  let ?s = "?seg\<lparr>sts := current (fl_kcp f), swnd := wnd, suna := rcv_nxt (fl_kcp f)\<rparr>"
  from Cons.prems(1) obtain seg1 f1 segs1 where one:
      "(if ?why = Not_Due then Inr (?seg, ?f)
        else let seg = ?s
             in rbind (emit seg ?f) (\<lambda>f'. Inr (seg, if dead_link (fl_kcp f) \<le> sxmit seg then f'\<lparr>fl_kcp := (fl_kcp f')\<lparr>kstate := - 1\<rparr>\<rparr> else f'))) = Inr (seg1, f1)"
      and rest: "flush_segs resent rtomin wnd segs f1 = Inr (segs1, f')" "segs' = seg1 # segs1"
    by (auto simp: Let_def elim!: rbindE)
  have "tagged cv f1 \<and> sconv seg1 = cv \<and> conv (fl_kcp f1) = conv (fl_kcp f)"
  proof (cases "?why = Not_Due")
    case True
    then show ?thesis using one Cons.prems(2,3) by auto
  next
    case False
    obtain f2 where f2: "emit ?s ?f = Inr f2" "seg1 = ?s" "f1 = (if dead_link (fl_kcp f) \<le> sxmit ?s then f2\<lparr>fl_kcp := (fl_kcp f2)\<lparr>kstate := - 1\<rparr>\<rparr> else f2)"
      using one False unfolding Let_def by (auto elim!: rbindE)
    have "tagged cv f2" by (rule emit_tagged [OF f2(1)]) (use Cons.prems(2,3) in simp_all)
    then show ?thesis using f2(2,3) emit_kcp [OF f2(1)] Cons.prems(3) by simp
  qed
  then show ?case using Cons.IH [OF rest(1)] Cons.prems(3) rest(2) by simp
qed simp

lemma adjust_conv [simp]: "conv (adjust_cwnd a b c d k) = conv k"
  by (simp add: adjust_cwnd_def Let_def)

lemma probe_window_conv [simp]: "conv (probe_window k) = conv k"
  by (simp add: probe_window_def Let_def)

lemma flush_carries:
  assumes "ikcp_flush k = Inr (outs, k')" and "own k"
  shows "list_all (carries (conv k)) outs" "own k'"
proof -
  have "list_all (carries (conv k)) outs \<and> own k'"
  proof (cases "updated k = 0")
    case True
    then show ?thesis using assms by (simp add: ikcp_flush_def)
  next
    case False
    from assms(1) False obtain seg1 f1 f2 segs f3 f4 resent rtomin where
      f1: "flush_acks (acklist k) (ctl_seg k) (flush_start k) = Inr (seg1, f1)"
      and f2: "flush_probes seg1 (f1\<lparr>fl_kcp := probe_window ((fl_kcp f1)\<lparr>acklist := []\<rparr>)\<rparr>) = Inr f2"
      and f3: "flush_segs resent rtomin (swnd seg1)
          (snd_buf (move_snd (send_window (fl_kcp f2)) (swnd seg1) (snd_queue (fl_kcp f2)) (fl_kcp f2)))
          (f2\<lparr>fl_kcp := move_snd (send_window (fl_kcp f2)) (swnd seg1) (snd_queue (fl_kcp f2)) (fl_kcp f2)\<rparr>) = Inr (segs, f3)"
      and f4: "(if fl_buf f3 = [] then Inr f3 else ikcp_output f3) = Inr f4"
      and k': "k' = adjust_cwnd (cwnd k) resent (fl_change f4) (fl_lost f4) ((fl_kcp f4)\<lparr>snd_buf := segs\<rparr>)" and outs: "outs = fl_sent f4"
      unfolding ikcp_flush_def Let_def by (auto elim!: rbindE)
    let ?k = "move_snd (send_window (fl_kcp f2)) (swnd seg1) (snd_queue (fl_kcp f2)) (fl_kcp f2)"
    have t1: "tagged (conv k) f1" "sconv seg1 = conv k"
      using acks_tagged [OF f1, of "conv k"] by (simp_all add: tagged_def flush_start_def ctl_seg_def)
    have k1: "fl_kcp f1 = k" using acks_kcp [OF f1] by (simp add: flush_start_def)
    have t2: "tagged (conv k) f2" using probes_tagged [OF f2 _ t1(2)] t1(1) by simp
    have k2: "fl_kcp f2 = (probe_window (k\<lparr>acklist := []\<rparr>))\<lparr>probe := 0\<rparr>" using probes_kcp [OF f2] k1 by simp
    have "own (fl_kcp f2)" "conv (fl_kcp f2) = conv k" using k2 assms(2) by (simp_all add: own_def)
    then have mk: "own ?k" "conv ?k = conv k" using move_snd_own by simp_all
    have t3: "tagged (conv k) f3" "\<forall>seg \<in> set segs. sconv seg = conv k" "conv (fl_kcp f3) = conv k"
      using segs_tagged [OF f3, of "conv k"] t2 mk by (simp_all add: own_def)
    have "fl_kcp f4 = fl_kcp f3" "list_all (carries (conv k)) (fl_sent f4)"
      using f4 t3(1) output_tagged [of f3 f4 "conv k"] by (auto simp: tagged_def split: if_splits)
    then show ?thesis using k' outs t3 by (simp add: own_def)
  qed
  then show "list_all (carries (conv k)) outs" "own k'" by simp_all
qed

lemma update_carries:
  assumes "ikcp_update k now = Inr (outs, k')" and "own k"
  shows "list_all (carries (conv k)) outs" "own k'"
proof -
  obtain u ts fl where u: "ikcp_update k now = (if fl then ikcp_flush (k\<lparr>current := now, updated := u, ts_flush := ts\<rparr>)
     else Inr ([], k\<lparr>current := now, updated := u, ts_flush := ts\<rparr>))"
    using update_form by blast
  let ?k = "k\<lparr>current := now, updated := u, ts_flush := ts\<rparr>"
  have o: "own ?k" "conv ?k = conv k" using assms(2) by (simp_all add: own_def)
  have "list_all (carries (conv k)) outs \<and> own k'"
  proof (cases fl)
    case True
    then have "ikcp_flush ?k = Inr (outs, k')" using assms u by simp
    then show ?thesis using flush_carries [OF _ o(1)] o(2) by simp
  next
    case False
    then have "k' = ?k" "outs = []" using assms u by simp_all
    then show ?thesis using o by simp
  qed
  then show "list_all (carries (conv k)) outs" "own k'" by simp_all
qed

text \<open>Input only removes segments from the send buffer.\<close>

definition shrinks :: "ikcpcb \<Rightarrow> ikcpcb \<Rightarrow> bool" where
  "shrinks k k' \<longleftrightarrow> sconv ` set (snd_buf k') \<subseteq> sconv ` set (snd_buf k)"

lemma shrinks_refl: "snd_buf k' = snd_buf k \<Longrightarrow> shrinks k k'"
  by (simp add: shrinks_def)

lemma shrinks_trans: "shrinks a b \<Longrightarrow> shrinks b c \<Longrightarrow> shrinks a c"
  by (auto simp: shrinks_def)

lemma segment_delete_snd [simp]: "snd_buf (ikcp_segment_delete seg k) = snd_buf k"
  by (simp add: ikcp_segment_delete_def ikcp_free_def)

lemma una_shrinks: "sconv ` set (snd_buf (una_loop una segs k)) \<subseteq> sconv ` set segs"
  by (induction segs arbitrary: k) (auto simp: subset_iff)

lemma remove_sn_subset: "remove_sn sn segs = Some (seg, rest) \<Longrightarrow> set rest \<subseteq> set segs"
  by (induction segs arbitrary: rest) (auto split: if_splits)

lemma fastack_convs: "map sconv (fastack_loop sn ts segs) = map sconv segs"
  by (induction segs) simp_all

lemma parse_ack_shrinks: "shrinks k (ikcp_parse_ack k sn)"
  by (auto simp: shrinks_def ikcp_parse_ack_def dest!: remove_sn_subset split: option.splits)

lemma fastack_shrinks: "shrinks k (ikcp_parse_fastack k sn ts)"
  using arg_cong [OF fastack_convs [of sn ts "snd_buf k"], of set] by (simp add: shrinks_def ikcp_parse_fastack_def)

lemma parse_data_snd [simp]: "snd_buf (ikcp_parse_data k seg) = snd_buf k"
  by (simp add: ikcp_parse_data_def Let_def split: option.splits)

lemma push_snd: "input_push k h d = Inr k' \<Longrightarrow> snd_buf k' = snd_buf k"
proof -
  assume r: "input_push k h d = Inr k'"
  have new: "snd_buf (snd (ikcp_segment_new n k)) = snd_buf k" for n k
    by (simp add: ikcp_segment_new_def ikcp_malloc_def case_prod_beta)
  have ap: "snd_buf k1 = snd_buf k" if "ikcp_ack_push k sn ts = Inr k1" for k1 sn ts
    using that by (auto simp: ikcp_ack_push_def Let_def ikcp_malloc_def ikcp_free_def case_prod_beta split: if_splits elim!: rbindE)
  show ?thesis
    using r ap new by (auto simp: input_push_def Let_def case_prod_beta split: if_splits elim!: rbindE)
qed

lemma seg_shrinks: "input_seg k acks h d = Inr (k', acks') \<Longrightarrow> shrinks k k'"
proof -
  assume r: "input_seg k acks h d = Inr (k', acks')"
  let ?k = "ikcp_shrink_buf (ikcp_parse_una (k\<lparr>rmt_wnd := ucast (hwnd h)\<rparr>) (huna h))"
  have q: "shrinks k ?k" using una_shrinks by (simp add: shrinks_def ikcp_shrink_buf_def ikcp_parse_una_def)
  have ack: "shrinks k0 k'" if a: "input_ack k0 acks sn ts = Inr (k', acks')" for k0 sn ts
  proof -
    obtain k1 where k1: "(if 0 \<le> itimediff (current k0) ts then ikcp_update_ack k0 (itimediff (current k0) ts) else Inr k0) = Inr k1"
        "k' = ikcp_shrink_buf (ikcp_parse_ack k1 sn)"
      using a unfolding input_ack_def by (elim rbindE) auto
    have "snd_buf k1 = snd_buf k0" using k1(1) by (auto split: if_splits dest!: update_ack_cases)
    then show ?thesis
      using k1(2) parse_ack_shrinks [of k1 sn] by (simp add: shrinks_def ikcp_shrink_buf_def)
  qed
  have "shrinks ?k k'"
    using r push_snd ack
    by (auto simp: input_seg_def Let_def split: if_splits elim!: rbindE intro: shrinks_refl)
  then show ?thesis using q shrinks_trans by blast
qed

lemma loop_shrinks: "input_loop data k acks = Inr (r, k', acks') \<Longrightarrow> shrinks k k'"
proof (induction data k acks rule: input_loop.induct)
  case (1 data k acks)
  show ?case
  proof (cases "length data < 24")
    case True
    then show ?thesis using 1(2) input_loop.simps [of data k acks] by (auto intro: shrinks_refl)
  next
    case False
    then obtain h q where h: "decode_header data = Inr (h, q)"
      using 1(2) input_loop.simps [of data k acks] by (auto split: sum.splits)
    show ?thesis
    proof (cases "hconv h \<noteq> conv k \<or> length q < unat (hlen h) \<or> sint (hlen h) < 0 \<or> \<not> known_cmd (hcmd h)")
      case True
      then show ?thesis
        using 1(2) False h input_loop.simps [of data k acks] by (auto split: if_splits intro: shrinks_refl)
    next
      case good: False
      then obtain k1 acks1 where k1: "input_seg k acks h (take (unat (hlen h)) q) = Inr (k1, acks1)"
          "input_loop (drop (unat (hlen h)) q) k1 acks1 = Inr (r, k', acks')"
        using 1(2) False h input_loop.simps [of data k acks] by (auto split: sum.splits)
      have "shrinks k1 k'" using 1(1) [OF False h refl _ _ _ k1(1) refl k1(2)] good by auto
      then show ?thesis using seg_shrinks [OF k1(1)] shrinks_trans by blast
    qed
  qed
qed

lemma input_shrinks:
  assumes "ikcp_input k data = Inr (r, k')"
  shows "shrinks k k'"
proof -
  let ?k = "k\<lparr>ackedlen := 0\<rparr>"
  have k: "shrinks k ?k" by (simp add: shrinks_refl)
  show ?thesis
  proof (cases "sint (word_of_nat (length data) :: u32) < 24")
    case True
    then show ?thesis using assms k by (auto simp: ikcp_input_def Let_def)
  next
    case False
    from assms False obtain r1 k1 acks where l: "input_loop data ?k None = Inr (r1, k1, acks)"
        "(if r1 \<noteq> 0 then Inr (r1, k1)
          else let kcp = (case acks of None \<Rightarrow> k1 | Some (maxack, latest_ts) \<Rightarrow> ikcp_parse_fastack k1 maxack latest_ts)
             in rbind (if 0 < itimediff (snd_una kcp) (snd_una k) then grow_cwnd kcp else Inr kcp) (\<lambda>kcp. Inr (0, kcp))) = Inr (r, k')"
      unfolding ikcp_input_def Let_def by (auto elim!: rbindE)
    let ?f = "case acks of None \<Rightarrow> k1 | Some (maxack, latest_ts) \<Rightarrow> ikcp_parse_fastack k1 maxack latest_ts"
    have grow: "snd_buf b = snd_buf a" if "grow_cwnd a = Inr b" for a b
      using that by (auto simp: grow_cwnd_def Let_def split: if_splits elim!: rbindE)
    have "shrinks k1 ?f" using fastack_shrinks by (auto simp: shrinks_refl split: option.splits)
    moreover have "k' = k1 \<or> snd_buf k' = snd_buf ?f"
      using l(2) grow by (auto simp: Let_def split: if_splits elim!: rbindE)
    ultimately have "shrinks k1 k'" by (auto simp: shrinks_def)
    then show ?thesis using loop_shrinks [OF l(1)] k shrinks_trans by blast
  qed
qed

lemma shrinks_own: "shrinks k k' \<Longrightarrow> conv k' = conv k \<Longrightarrow> own k \<Longrightarrow> own k'"
  by (auto simp: shrinks_def own_def image_subset_iff)

section \<open>The client does not break\<close>

text \<open>
  The state between two calls: the connection is in order, owes no acknowledgement and has the client's
  number; the memory beyond \<open>base\<close> is the connection's; every datagram since the registration carries the
  number and fits the MTU.
\<close>

definition client_kcp_ok :: "int \<Rightarrow> tunnel_client \<Rightarrow> ikcpcb \<Rightarrow> bool" where
  "client_kcp_ok base c k \<longleftrightarrow>
     c_kcp c = Some k \<and> kcp_shape k \<and> mtu k = 1400 \<and> conv k = c_conv c \<and> own k \<and>
     mem_good (c_mem c) \<and> mem_live (c_mem c) = base + int (kcp_blocks k)"

definition sent_ok :: "tunnel_client \<Rightarrow> bool" where
  "sent_ok c \<longleftrightarrow> (\<exists>r ds. r \<le> 5 \<and> c_sent c = replicate r pack_register @ ds \<and>
     list_all (\<lambda>d. carries (c_conv c) d \<and> length d \<le> 1400) ds)"

definition client_ok :: "int \<Rightarrow> tunnel_client \<Rightarrow> bool" where
  "client_ok base c \<longleftrightarrow> sent_ok c \<and> (\<exists>k. client_kcp_ok base c k \<and> acklist k = [])"

lemma client_kcp_safe:
  assumes k: "client_kcp_ok base c k" and s: "sent_ok c"
    and f: "\<And>h. kcp_ok (k\<lparr>kcp_mem := h\<rparr>) \<Longrightarrow> own (k\<lparr>kcp_mem := h\<rparr>) \<Longrightarrow>
      safe (\<lambda>(x, k'). keeps (k\<lparr>kcp_mem := h\<rparr>) k' \<and> own k' \<and> Q x k') (f (k\<lparr>kcp_mem := h\<rparr>))"
  shows "safe (\<lambda>(x, c'). \<exists>k'. client_kcp_ok base c' k' \<and> Q x k' \<and> sent_ok c' \<and> c_ticks c' = c_ticks c \<and> c_conv c' = c_conv c) (client_kcp f c)"
proof -
  have c: "c_kcp c = Some k" using k by (simp add: client_kcp_ok_def)
  have "kcp_ok (k\<lparr>kcp_mem := c_mem c\<rparr>)" "own (k\<lparr>kcp_mem := c_mem c\<rparr>)" using k by (simp_all add: client_kcp_ok_def kcp_ok_def own_def)
  note f = f [OF this]
  show ?thesis
    unfolding client_kcp_def c option.case
  proof (rule safe_rbind [OF f], clarify, unfold safe_simps, clarify)
    fix x k' assume k': "keeps (k\<lparr>kcp_mem := c_mem c\<rparr>) k'" "own k'" "Q x k'"
    have "client_kcp_ok base (c\<lparr>c_kcp := Some k', c_mem := kcp_mem k'\<rparr>) k'"
      using k k' by (simp add: client_kcp_ok_def keeps_def kcp_ok_def owed_def kcp_blocks_def)
    then show "\<exists>k'a. client_kcp_ok base (c\<lparr>c_kcp := Some k', c_mem := kcp_mem k'\<rparr>) k'a \<and> Q x k'a \<and>
        sent_ok (c\<lparr>c_kcp := Some k', c_mem := kcp_mem k'\<rparr>) \<and> c_ticks (c\<lparr>c_kcp := Some k', c_mem := kcp_mem k'\<rparr>) = c_ticks c \<and>
        c_conv (c\<lparr>c_kcp := Some k', c_mem := kcp_mem k'\<rparr>) = c_conv c"
      using k'(3) s by (auto simp: sent_ok_def)
  qed
qed

lemma sent_ok_append:
  assumes "sent_ok c" and "list_all (\<lambda>d. carries (c_conv c) d \<and> length d \<le> 1400) ds"
  shows "sent_ok (c\<lparr>c_sent := c_sent c @ ds\<rparr>)"
proof -
  obtain r es where r: "r \<le> 5" "c_sent c = replicate r pack_register @ es" "list_all (\<lambda>d. carries (c_conv c) d \<and> length d \<le> 1400) es"
    using assms(1) by (auto simp: sent_ok_def)
  then show ?thesis
    using assms(2) by (auto simp: sent_ok_def intro!: exI [of _ r] exI [of _ "es @ ds"])
qed

lemma client_out_safe:
  assumes k: "client_kcp_ok base c k" and s: "sent_ok c"
    and f: "\<And>h. kcp_ok (k\<lparr>kcp_mem := h\<rparr>) \<Longrightarrow> own (k\<lparr>kcp_mem := h\<rparr>) \<Longrightarrow>
      safe (\<lambda>(outs, k'). keeps (k\<lparr>kcp_mem := h\<rparr>) k' \<and> own k' \<and> list_all (\<lambda>d. carries (conv k) d \<and> length d \<le> 1400) outs \<and> Q k') (f (k\<lparr>kcp_mem := h\<rparr>))"
  shows "safe (\<lambda>c'. \<exists>k'. client_kcp_ok base c' k' \<and> Q k' \<and> sent_ok c' \<and> c_ticks c' = c_ticks c) (client_out f c)"
  unfolding client_out_def
proof (rule safe_rbind [OF client_kcp_safe [OF k s f]], assumption, assumption, clarify, unfold safe_simps)
  fix outs :: "bytes list" and c' k' assume c': "client_kcp_ok base c' k'" "list_all (\<lambda>d. carries (conv k) d \<and> length d \<le> 1400) outs" "Q k'" "sent_ok c'"
      "c_ticks c' = c_ticks c" "c_conv c' = c_conv c"
  have "conv k = c_conv c'" using k c'(6) by (simp add: client_kcp_ok_def)
  then have "sent_ok (c'\<lparr>c_sent := c_sent c' @ outs\<rparr>)" using c'(2) sent_ok_append [OF c'(4)] by simp
  moreover have "client_kcp_ok base (c'\<lparr>c_sent := c_sent c' @ outs\<rparr>) k'" using c'(1) by (simp add: client_kcp_ok_def)
  ultimately show "\<exists>k'. client_kcp_ok base (c'\<lparr>c_sent := c_sent c' @ outs\<rparr>) k' \<and> Q k' \<and> sent_ok (c'\<lparr>c_sent := c_sent c' @ outs\<rparr>) \<and>
      c_ticks (c'\<lparr>c_sent := c_sent c' @ outs\<rparr>) = c_ticks c"
    using c'(3,5) by auto
qed

lemma client_update_safe:
  assumes k: "client_kcp_ok base c k" and s: "sent_ok c"
  shows "safe (\<lambda>c'. \<exists>k'. client_kcp_ok base c' k' \<and> (updated k' \<noteq> 0 \<and> (acklist k = [] \<longrightarrow> acklist k' = [])) \<and> sent_ok c' \<and> c_ticks c' = c_ticks c)
    (client_out (\<lambda>k. ikcp_update k t) c)"
proof (rule client_out_safe [OF k s])
  fix h assume ok: "kcp_ok (k\<lparr>kcp_mem := h\<rparr>)" "own (k\<lparr>kcp_mem := h\<rparr>)"
  obtain outs k' where u: "ikcp_update (k\<lparr>kcp_mem := h\<rparr>) t = Inr (outs, k')" "keeps (k\<lparr>kcp_mem := h\<rparr>) k'" "\<forall>d \<in> set outs. length d \<le> 1400"
      "updated k' \<noteq> 0" "acklist k' = acklist k \<or> acklist k' = []"
    using update_keeps [OF ok(1), of t] k by (auto simp: client_kcp_ok_def)
  have "list_all (carries (conv k)) outs" "own k'" using update_carries [OF u(1) ok(2)] by simp_all
  then show "safe (\<lambda>(outs, k'). keeps (k\<lparr>kcp_mem := h\<rparr>) k' \<and> own k' \<and> list_all (\<lambda>d. carries (conv k) d \<and> length d \<le> 1400) outs \<and>
      (updated k' \<noteq> 0 \<and> (acklist k = [] \<longrightarrow> acklist k' = []))) (ikcp_update (k\<lparr>kcp_mem := h\<rparr>) t)"
    using u by (auto simp: list_all_iff)
qed

lemma client_flush_safe:
  assumes k: "client_kcp_ok base c k" and s: "sent_ok c" and u: "updated k \<noteq> 0"
  shows "safe (\<lambda>c'. \<exists>k'. client_kcp_ok base c' k' \<and> acklist k' = [] \<and> sent_ok c' \<and> c_ticks c' = c_ticks c) (client_out ikcp_flush c)"
proof (rule client_out_safe [OF k s])
  fix h assume ok: "kcp_ok (k\<lparr>kcp_mem := h\<rparr>)" "own (k\<lparr>kcp_mem := h\<rparr>)"
  obtain outs k' where f: "ikcp_flush (k\<lparr>kcp_mem := h\<rparr>) = Inr (outs, k')" "keeps (k\<lparr>kcp_mem := h\<rparr>) k'" "\<forall>d \<in> set outs. length d \<le> 1400"
      "acklist k' = []"
    using flush_keeps [OF ok(1)] k u by (auto simp: client_kcp_ok_def)
  have "list_all (carries (conv k)) outs" "own k'" using flush_carries [OF f(1) ok(2)] by simp_all
  then show "safe (\<lambda>(outs, k'). keeps (k\<lparr>kcp_mem := h\<rparr>) k' \<and> own k' \<and> list_all (\<lambda>d. carries (conv k) d \<and> length d \<le> 1400) outs \<and> acklist k' = [])
      (ikcp_flush (k\<lparr>kcp_mem := h\<rparr>))"
    using f by (auto simp: list_all_iff)
qed

lemma client_simps [simp]:
  "client_kcp_ok base (c\<lparr>c_ticks := n\<rparr>) k = client_kcp_ok base c k" "client_kcp_ok base (c\<lparr>c_waits := n\<rparr>) k = client_kcp_ok base c k"
  "sent_ok (c\<lparr>c_ticks := n\<rparr>) = sent_ok c" "sent_ok (c\<lparr>c_waits := n\<rparr>) = sent_ok c"
  "client_now w c = (cw_clock w (c_ticks c), c\<lparr>c_ticks := Suc (c_ticks c)\<rparr>)"
  by (simp_all add: client_kcp_ok_def sent_ok_def client_now_def)

lemma pump_safe:
  assumes k: "client_kcp_ok base c k" and s: "sent_ok c"
  shows "safe (\<lambda>c'. \<exists>k'. client_kcp_ok base c' k' \<and> acklist k' = [] \<and> sent_ok c' \<and> c_ticks c' = Suc (c_ticks c)) (kcp_pump w c)"
proof -
  let ?c = "c\<lparr>c_ticks := Suc (c_ticks c)\<rparr>"
  have c: "client_kcp_ok base ?c k" "sent_ok ?c" using k s by simp_all
  have "safe (\<lambda>c'. \<exists>k'. client_kcp_ok base c' k' \<and> acklist k' = [] \<and> sent_ok c' \<and> c_ticks c' = Suc (c_ticks c))
      (rbind (client_out (\<lambda>k. ikcp_update k (now32 (cw_clock w (c_ticks c)))) ?c) (client_out ikcp_flush))"
  proof (rule safe_rbind [OF client_update_safe [OF c]], clarify)
    fix c1 k1 assume c1: "client_kcp_ok base c1 k1" "updated k1 \<noteq> 0" "sent_ok c1" "c_ticks c1 = c_ticks ?c"
    show "safe (\<lambda>c'. \<exists>k'. client_kcp_ok base c' k' \<and> acklist k' = [] \<and> sent_ok c' \<and> c_ticks c' = Suc (c_ticks c)) (client_out ikcp_flush c1)"
      by (rule safe_mono [OF client_flush_safe [OF c1(1,3,2)]]) (use c1(4) in auto)
  qed
  then show ?thesis by (simp add: kcp_pump_def)
qed

lemma client_send_safe:
  assumes k: "client_kcp_ok base c k" and s: "sent_ok c" and len: "length msg < 2 ^ 30"
  shows "safe (\<lambda>(r, c'). \<exists>k'. client_kcp_ok base c' k' \<and> (updated k' = updated k) \<and> sent_ok c' \<and> c_ticks c' = c_ticks c \<and> c_conv c' = c_conv c)
    (client_kcp (\<lambda>k. ikcp_send k msg (int (length msg))) c)"
proof (rule client_kcp_safe [OF k s])
  fix h assume ok: "kcp_ok (k\<lparr>kcp_mem := h\<rparr>)" "own (k\<lparr>kcp_mem := h\<rparr>)"
  let ?k = "k\<lparr>kcp_mem := h\<rparr>"
  obtain r k' where r: "ikcp_send ?k msg (int (length msg)) = Inr (r, k')" "keeps ?k k'" using send_keeps [OF ok(1) len] by blast
  have M: "mss ?k = word_of_nat (unat (mss ?k))" "0 < unat (mss ?k)" "unat (mss ?k) < 2 ^ 30"
    using ok(1) mss_bound [OF ok(1)] by (simp_all add: kcp_ok_def kcp_shape_def)
  have st: "stream ?k = 0" "mem_good (kcp_mem ?k)" using ok(1) by (simp_all add: kcp_ok_def kcp_shape_def)
  have "snd_buf k' = snd_buf ?k" using r(1) send_good [OF M len st] by (auto simp: enqueue_def split: if_splits)
  then have "own k'" using ok(2) r(2) by (simp add: own_def keeps_def)
  moreover have "updated k' = updated k" using send_updated [OF ok(1) len r(1)] by simp
  ultimately show "safe (\<lambda>(x, k'). keeps ?k k' \<and> own k' \<and> updated k' = updated k) (ikcp_send ?k msg (int (length msg)))"
    using r by simp
qed

lemma send_tun_safe:
  assumes c: "client_ok base c" and len: "length pkt < 2 ^ 30"
  shows "safe (\<lambda>c'. client_ok base c') (send_tun w pkt c)"
proof -
  obtain k where k: "client_kcp_ok base c k" "sent_ok c" using c by (auto simp: client_ok_def)
  let ?c = "c\<lparr>c_ticks := Suc (c_ticks c)\<rparr>"
  have c0: "client_kcp_ok base ?c k" "sent_ok ?c" using k by simp_all
  have "safe (client_ok base) (rbind (client_out (\<lambda>k. ikcp_update k (now32 (cw_clock w (c_ticks c)))) ?c) (\<lambda>c.
      rbind (client_kcp (\<lambda>k. ikcp_send k pkt (int (length pkt))) c) (\<lambda>(_, c). client_out ikcp_flush c)))"
  proof (rule safe_rbind [OF client_update_safe [OF c0]], clarify)
    fix c1 k1 assume c1: "client_kcp_ok base c1 k1" "updated k1 \<noteq> 0" "sent_ok c1"
    show "safe (client_ok base) (rbind (client_kcp (\<lambda>k. ikcp_send k pkt (int (length pkt))) c1) (\<lambda>(_, c). client_out ikcp_flush c))"
    proof (rule safe_rbind [OF client_send_safe [OF c1(1,3) len]], clarify)
      fix c2 k2 assume c2: "client_kcp_ok base c2 k2" "updated k2 = updated k1" "sent_ok c2"
      have "updated k2 \<noteq> 0" using c1(2) c2(2) by simp
      then show "safe (client_ok base) (client_out ikcp_flush c2)"
        by (rule safe_mono [OF client_flush_safe [OF c2(1,3)]]) (auto simp: client_ok_def)
    qed
  qed
  then show ?thesis by (simp add: send_tun_def)
qed

lemma client_recv_safe:
  assumes k: "client_kcp_ok base c k" and s: "sent_ok c" and a: "acklist k = []"
  shows "safe (\<lambda>(x, c'). \<exists>k'. client_kcp_ok base c' k' \<and> acklist k' = [] \<and> sent_ok c' \<and> c_ticks c' = c_ticks c \<and> c_conv c' = c_conv c)
    (client_kcp (\<lambda>k. rbind (ikcp_recv k 65535) (\<lambda>(got, msg, k). Inr ((got, msg), k))) c)"
proof (rule client_kcp_safe [OF k s])
  fix h assume ok: "kcp_ok (k\<lparr>kcp_mem := h\<rparr>)" "own (k\<lparr>kcp_mem := h\<rparr>)"
  let ?k = "k\<lparr>kcp_mem := h\<rparr>"
  obtain r d k' where r: "ikcp_recv ?k 65535 = Inr (r, d, k')" "keeps ?k k'" using recv_keeps [OF ok(1), of 65535] by auto
  have fs: "snd_buf (free_segments segs x) = snd_buf x" for segs x using free_segments_form [of segs x] by auto
  have "snd_buf k' = snd_buf ?k"
    using r(1) fs by (auto simp: ikcp_recv_def Let_def case_prod_beta res_simps split: if_splits)
  then have "own k'" using ok(2) r(2) by (simp add: own_def keeps_def)
  moreover have "acklist k' = []" using send_recv_acklist(2) [OF r(1)] a by simp
  ultimately show "safe (\<lambda>(x, k'). keeps ?k k' \<and> own k' \<and> acklist k' = []) (rbind (ikcp_recv ?k 65535) (\<lambda>(got, msg, k). Inr ((got, msg), k)))"
    using r by simp
qed

lemma client_input_safe:
  assumes k: "client_kcp_ok base c k" and s: "sent_ok c" and a: "acklist k = []" and len: "length d \<le> 65535"
  shows "safe (\<lambda>(x, c'). \<exists>k'. client_kcp_ok base c' k' \<and> True \<and> sent_ok c' \<and> c_ticks c' = c_ticks c \<and> c_conv c' = c_conv c) (client_kcp (\<lambda>k. ikcp_input k d) c)"
proof (rule client_kcp_safe [OF k s])
  fix h assume ok: "kcp_ok (k\<lparr>kcp_mem := h\<rparr>)" "own (k\<lparr>kcp_mem := h\<rparr>)"
  let ?k = "k\<lparr>kcp_mem := h\<rparr>"
  have "length (acklist ?k) + length d < 2147483648" using a len by simp
  note i = input_keeps [OF ok(1) this]
  show "safe (\<lambda>(x, k'). keeps ?k k' \<and> own k' \<and> True) (ikcp_input ?k d)"
  proof (rule safe_only_overflow [OF i(1)], clarify)
    fix x k' assume r: "ikcp_input ?k d = Inr (x, k')"
    have "keeps ?k k'" using i(2) [OF r] by blast
    then show "keeps ?k k' \<and> own k' \<and> True" using shrinks_own [OF input_shrinks [OF r]] ok(2) by (simp add: keeps_def)
  qed
qed

text \<open>
  The clock: \<open>n\<close> readings or a few more after a reading, more than three seconds have passed. One reading
  in three decides whether the wait goes on, so four readings in a row are asked for.
\<close>

definition ticking :: "client_world \<Rightarrow> nat \<Rightarrow> bool" where
  "ticking w n \<longleftrightarrow> (\<forall>i j. n \<le> j \<and> j \<le> n + 3 \<longrightarrow> 3000 \<le> sint (cw_clock w (i + j) - cw_clock w i))"

lemma wait_loop_safe:
  assumes "ticking w n" and "client_ok base c" and "c_ticks c = i + e" and "e \<le> n + 2" and "n + 3 \<le> fuel + e"
  shows "safe (\<lambda>(_, c'). client_ok base c') (wait_loop fuel w (cw_clock w i) 3000 c)"
  using assms(2-)
proof (induction fuel arbitrary: c e)
  case (Suc fuel)
  obtain k where k: "client_kcp_ok base c k" "sent_ok c" using Suc.prems(1) by (auto simp: client_ok_def)
  show ?case
    unfolding wait_loop.simps
  proof (rule safe_rbind [OF pump_safe [OF k]], clarify)
    fix c1 k1 assume c1: "client_kcp_ok base c1 k1" "acklist k1 = []" "sent_ok c1" "c_ticks c1 = Suc (c_ticks c)"
    let ?P = "safe (\<lambda>(_, c'). client_ok base c')"
    let ?wait = "wait_loop fuel w (cw_clock w i) 3000"
    show "?P (rbind (client_kcp (\<lambda>k. rbind (ikcp_recv k 65535) (\<lambda>(got, msg, k). Inr ((got, msg), k))) c1) (\<lambda>((got, msg), c).
       if 0 < got then Inr (Some msg, c)
       else let (t, c) = client_now w c; rem = 3000 - sint (t - cw_clock w i)
         in if rem \<le> 0 then Inr (None, c)
            else let d = cw_datagram w (c_waits c); c = c\<lparr>c_waits := Suc (c_waits c)\<rparr>
              in case d of None \<Rightarrow> ?wait c
                 | Some d \<Rightarrow> let buf = take 65535 d
                     in if buf = [] then ?wait c
                        else rbind (client_kcp (\<lambda>k. ikcp_input k buf) c) (\<lambda>(_, c). rbind (kcp_pump w c) ?wait)))"
    proof (rule safe_rbind [OF client_recv_safe [OF c1(1,3,2)]], clarify)
      fix got :: int and msg c2 k2 assume c2: "client_kcp_ok base c2 k2" "acklist k2 = []" "sent_ok c2" "c_ticks c2 = c_ticks c1"
      let ?c3 = "c2\<lparr>c_ticks := Suc (c_ticks c2)\<rparr>" and ?t = "cw_clock w (c_ticks c2)"
      let ?c4 = "?c3\<lparr>c_waits := Suc (c_waits ?c3)\<rparr>"
      have ok2: "client_ok base c2" "client_ok base ?c3" "client_kcp_ok base ?c4 k2" "sent_ok ?c4" "client_ok base ?c4"
        using c2 by (auto simp: client_ok_def)
      have tk: "c_ticks c2 = i + (e + 1)" "c_ticks ?c4 = i + (e + 2)" using c1(4) c2(4) Suc.prems(2) by simp_all
      have stop: "e + 1 < n" if "\<not> 3000 - sint (?t - cw_clock w i) \<le> 0"
      proof (rule ccontr)
        assume "\<not> e + 1 < n"
        then have "n \<le> e + 1 \<and> e + 1 \<le> n + 3" using Suc.prems(3) by linarith
        then have "3000 \<le> sint (cw_clock w (i + (e + 1)) - cw_clock w i)" using assms(1) unfolding ticking_def by blast
        then show False using that tk(1) by simp
      qed
      have again: "?P (?wait ?c4)" if "e + 1 < n"
        by (rule Suc.IH [OF ok2(5) tk(2)]) (use that Suc.prems(4) in linarith)+
      have input: "?P (rbind (client_kcp (\<lambda>k. ikcp_input k buf) ?c4) (\<lambda>(_, c). rbind (kcp_pump w c) ?wait))"
        if lt: "e + 1 < n" and len: "length buf \<le> 65535" for buf
      proof (rule safe_rbind [OF client_input_safe [OF ok2(3,4) c2(2) len]], clarify)
        fix c5 k5 assume c5: "client_kcp_ok base c5 k5" "sent_ok c5" "c_ticks c5 = c_ticks ?c4"
        show "?P (rbind (kcp_pump w c5) ?wait)"
        proof (rule safe_rbind [OF pump_safe [OF c5(1,2)]], clarify)
          fix c6 k6 assume c6: "client_kcp_ok base c6 k6" "acklist k6 = []" "sent_ok c6" "c_ticks c6 = Suc (c_ticks c5)"
          have "client_ok base c6" using c6 by (auto simp: client_ok_def)
          moreover have "c_ticks c6 = i + (e + 3)" using c6(4) c5(3) tk(2) by simp
          ultimately show "?P (?wait c6)" by (rule Suc.IH) (use lt Suc.prems(4) in linarith)+
        qed
      qed
      show "?P (if 0 < got then Inr (Some msg, c2)
       else let (t, c) = client_now w c2; rem = 3000 - sint (t - cw_clock w i)
         in if rem \<le> 0 then Inr (None, c)
            else let d = cw_datagram w (c_waits c); c = c\<lparr>c_waits := Suc (c_waits c)\<rparr>
              in case d of None \<Rightarrow> ?wait c
                 | Some d \<Rightarrow> let buf = take 65535 d
                     in if buf = [] then ?wait c
                        else rbind (client_kcp (\<lambda>k. ikcp_input k buf) c) (\<lambda>(_, c). rbind (kcp_pump w c) ?wait))"
        using ok2(1,2) stop again input by (auto simp: Let_def split: option.split)
    qed
  qed
qed simp

lemma pack_data_client:
  assumes "length text \<le> 65532"
  shows "\<exists>pkt. pack_data WBUF text (word_of_nat (length text)) = Inr pkt \<and> length pkt = 3 + length text \<and>
    parse pkt = Some \<lparr>ptype = PACKET_DATA, pdata = Some text\<rparr>"
proof -
  have len: "length text < 65536" "3 + length text \<le> WBUF" using assms by simp_all
  obtain pkt where "pack_data WBUF text (word_of_nat (length text)) = Inr pkt" "length pkt = 3 + length text"
      "\<And>rest. parse (pkt @ rest) = Some \<lparr>ptype = PACKET_DATA, pdata = Some text\<rparr>"
    using parse_pack_data [OF len] by blast
  then show ?thesis by (metis append_Nil2)
qed

lemma roundtrip_safe:
  assumes w: "ticking w n" "n + 2 \<le> fuel" and c: "client_ok base c" and len: "length text \<le> 65532"
  shows "safe (\<lambda>(_, c'). client_ok base c') (roundtrip fuel w text c)"
proof -
  have l: "length (bytes_of text) \<le> 65532" using len by (simp add: bytes_of_def)
  obtain pkt where pkt: "pack_data WBUF (bytes_of text) (word_of_nat (length text)) = Inr pkt" "length pkt = 3 + length text"
    using pack_data_client [OF l] by (auto simp: bytes_of_def)
  have p30: "length pkt < 2 ^ 30" using pkt(2) len by simp
  have "safe (\<lambda>c'. client_ok base c') (send_data w (bytes_of text) (word_of_nat (length text)) c)"
    unfolding send_data_def pkt(1) rbind.simps by (rule send_tun_safe [OF c p30])
  then show ?thesis
    unfolding roundtrip_def
  proof (rule safe_rbind)
    fix c1 assume c1: "client_ok base c1"
    let ?c = "c1\<lparr>c_ticks := Suc (c_ticks c1)\<rparr>"
    have "client_ok base ?c" using c1 by (simp add: client_ok_def)
    then have "safe (\<lambda>(_, c'). client_ok base c') (wait_loop fuel w (cw_clock w (c_ticks c1)) 3000 ?c)"
      by (rule wait_loop_safe [OF w(1), where e = 1]) (use w(2) in simp_all)
    then have "safe (\<lambda>(_, c'). client_ok base c') (wait_reply fuel w 3000 c1)" by (simp add: wait_reply_def)
    then show "safe (\<lambda>(_, c'). client_ok base c') (rbind (wait_reply fuel w 3000 c1) (\<lambda>(r, c). Inr (map_option print_echo r, c)))"
      by (rule safe_rbind) auto
  qed
qed

lemma interactive_safe:
  assumes w: "ticking w n" "n + 2 \<le> fuel"
  shows "client_ok base c \<Longrightarrow> list_all (\<lambda>l. length l \<le> 65532) lines \<Longrightarrow> safe (client_ok base) (interactive fuel w lines c)"
proof (induction lines arbitrary: c)
  case (Cons line lines)
  let ?l = "takeWhile (\<lambda>ch. ch \<noteq> CHR 0x0A) (c_str line)"
  have "length (c_str line) \<le> length line" by (simp add: c_str_def length_takeWhile_le)
  then have len: "length ?l \<le> 65532" using Cons.prems(2) length_takeWhile_le [of "\<lambda>ch. ch \<noteq> CHR 0x0A" "c_str line"] by simp
  have "safe (client_ok base) (rbind (roundtrip fuel w ?l c) (\<lambda>(_, c). interactive fuel w lines c))"
    by (rule safe_rbind [OF roundtrip_safe [OF w Cons.prems(1) len]]) (use Cons.IH Cons.prems(2) in auto)
  then show ?case using Cons.IH [OF Cons.prems(1)] Cons.prems by (simp add: Let_def)
qed simp

lemma register_sends:
  "register_attempts w i n c = (cv, c') \<Longrightarrow> \<exists>r \<le> n. c' = c\<lparr>c_sent := c_sent c @ replicate r pack_register\<rparr>"
proof (induction n arbitrary: i c)
  case (Suc n)
  let ?c = "c\<lparr>c_sent := c_sent c @ [pack_register]\<rparr>"
  have "c' = ?c \<or> register_attempts w (Suc i) n ?c = (cv, c')"
    using Suc.prems by (auto simp: Let_def split: option.splits prod.splits if_splits)
  then show ?case
  proof
    assume "c' = ?c"
    then show ?thesis by (intro exI [of _ 1]) simp
  next
    assume "register_attempts w (Suc i) n ?c = (cv, c')"
    then obtain r where "r \<le> n" "c' = ?c\<lparr>c_sent := c_sent ?c @ replicate r pack_register\<rparr>" using Suc.IH by blast
    then show ?thesis by (intro exI [of _ "Suc r"]) simp
  qed
qed auto

lemma connect_safe_client:
  assumes m: "mem_good m"
  shows "safe (\<lambda>(ok, c). if ok then client_ok (mem_live m) c
      else c_kcp c = None \<and> c_fd c < 0 \<and> c_mem c = m \<and> (\<exists>r \<le> 5. c_sent c = replicate r pack_register)) (client_connect w ip port (new_client m))"
proof (cases "cw_socket w < 0")
  case True
  then show ?thesis by (auto simp: client_connect_def new_client_def)
next
  case False
  define gw where "gw = (let g = (c_gw (new_client m))\<lparr>sin_port := htons port\<rparr> in case cw_pton w ip of None \<Rightarrow> g | Some a \<Rightarrow> g\<lparr>sin_addr := a\<rparr>)"
  let ?c = "(new_client m)\<lparr>c_fd := cw_socket w, c_gw := gw\<rparr>"
  obtain cv c1 where r: "register_attempts w 0 5 ?c = (cv, c1)" by force
  obtain n where n: "n \<le> 5" "c1 = ?c\<lparr>c_sent := c_sent ?c @ replicate n pack_register\<rparr>" using register_sends [OF r] by blast
  have eq: "client_connect w ip port (new_client m) =
      (case cv of None \<Rightarrow> Inr (False, c1\<lparr>c_fd := - 1\<rparr>)
       | Some cv \<Rightarrow> (case ikcp_create cv (c_mem c1) of (None, m) \<Rightarrow> Inl Null_Deref
         | (Some k, m) \<Rightarrow> let k = ikcp_setoutput k; (_, k) = ikcp_nodelay k 1 10 2 1 in Inr (True, c1\<lparr>c_conv := cv, c_kcp := Some k, c_mem := m\<rparr>)))"
    using False r by (simp add: client_connect_def register_with_gateway_def gw_def Let_def new_client_def)
  show ?thesis
  proof (cases cv)
    case None
    then have "client_connect w ip port (new_client m) = Inr (False, c1\<lparr>c_fd := - 1\<rparr>)" unfolding eq by simp
    then show ?thesis using n by (auto simp: new_client_def)
  next
    case (Some v)
    let ?h = "snd (kvstore_malloc (unat ((IKCP_MTU_DEF + IKCP_OVERHEAD) * 3)) (snd (kvstore_malloc 296 m)))"
    let ?k = "snd (ikcp_nodelay (ikcp_setoutput (new_kcp v ?h)) 1 10 2 1)"
    have h: "mem_good ?h" "mem_live ?h = mem_live m + 2" using m by (simp_all add: res_simps)
    have mem: "c_mem c1 = m" using n(2) by (simp add: new_client_def)
    have "client_connect w ip port (new_client m) = Inr (True, c1\<lparr>c_conv := v, c_kcp := Some ?k, c_mem := ?h\<rparr>)"
      unfolding eq Some mem using m by (simp add: ikcp_create_def res_simps case_prod_beta)
    moreover have "client_kcp_ok (mem_live m) (c1\<lparr>c_conv := v, c_kcp := Some ?k, c_mem := ?h\<rparr>) ?k"
      using h new_kcp_ok [OF h(1), of v 1 10 2 1]
      by (simp add: client_kcp_ok_def kcp_ok_def own_def kcp_blocks_def new_kcp_def ikcp_nodelay_def ikcp_setoutput_def Let_def)
    moreover have "acklist ?k = []" by (simp add: new_kcp_def ikcp_nodelay_def ikcp_setoutput_def Let_def)
    moreover have "sent_ok (c1\<lparr>c_conv := v, c_kcp := Some ?k, c_mem := ?h\<rparr>)"
      using n by (auto simp: sent_ok_def new_client_def)
    ultimately show ?thesis by (auto simp: client_ok_def)
  qed
qed

lemma open_route_safe:
  assumes c: "client_ok base c" and r: "length route \<le> ROUTE_MAX"
  shows "safe (\<lambda>(ok, c'). ok \<and> client_ok base c') (open_route w route c)"
proof -
  have len: "length (bytes_of route) \<le> ROUTE_MAX" "2 + length (bytes_of route) \<le> WBUF" using r by (simp_all add: bytes_of_def)
  obtain pkt where pkt: "pack_connect WBUF (bytes_of route) (word_of_nat (length route)) = Inr pkt" "length pkt = 2 + length route"
    using parse_pack_connect [OF len] by (auto simp: bytes_of_def)
  have p30: "length pkt < 2 ^ 30" using pkt(2) r by simp
  have "safe (\<lambda>(ok, c'). ok \<and> client_ok base c') (rbind (send_tun w pkt c) (\<lambda>c. Inr (True, c)))"
    by (rule safe_rbind [OF send_tun_safe [OF c p30]]) simp
  then show ?thesis using r pkt(1) by (simp add: open_route_def)
qed

text \<open>What a finished client leaves behind.\<close>

definition client_done :: "mem \<Rightarrow> int \<times> tunnel_client \<Rightarrow> bool" where
  "client_done m = (\<lambda>(code, c). (code = 0 \<or> code = 1) \<and> c_kcp c = None \<and> c_fd c < 0 \<and> mem_live (c_mem c) = mem_live m \<and>
     (\<exists>r ds. r \<le> 5 \<and> c_sent c = replicate r pack_register @ ds \<and> list_all (\<lambda>d. carries (c_conv c) d \<and> length d \<le> 1400) ds))"

lemma disconnect_done:
  assumes "client_ok (mem_live m) c"
  shows "client_done m (0, client_disconnect c)" and "client_done m (1, client_disconnect c)"
proof -
  obtain k where k: "client_kcp_ok (mem_live m) c k" "sent_ok c" using assms by (auto simp: client_ok_def)
  have "mem_live (ikcp_release (k\<lparr>kcp_mem := c_mem c\<rparr>)) = mem_live m"
    using k(1) by (simp add: release_live owed_def client_kcp_ok_def kcp_blocks_def)
  then show "client_done m (0, client_disconnect c)" "client_done m (1, client_disconnect c)"
    using k by (simp_all add: client_done_def client_disconnect_def client_kcp_ok_def sent_ok_def Let_def)
qed

section \<open>Properties\<close>

text \<open>
  C4: For texts of at most 65532 characters, a clock that runs and memory that lasts, the client's program either
  stops at the signed overflow in the transport's round-trip estimate, which a forged timestamp causes, or it
  ends, whatever the gateway or anyone else sends: \<open>main\<close> returns 0 or 1 - the waits for replies end -, every
  buffer was large enough, and the connection and the socket are released. All that it sent is up to five
  REGISTER packets and then datagrams of at most 1400 bytes that carry the conversation number which the
  gateway assigned. Longer texts overrun the client's buffer, which is shown below.
\<close>

theorem client_main_ends_cleanly:
  assumes m: "mem_good m" and w: "ticking w n" "n + 2 \<le> fuel" and len: "list_all (\<lambda>t. length t \<le> 65532) (args @ lines)"
  shows "case client_main fuel w args lines m of
      Inl e \<Rightarrow> e = Int_Overflow
    | Inr (code, c) \<Rightarrow> (code = 0 \<or> code = 1) \<and> c_kcp c = None \<and> c_fd c < 0 \<and> mem_live (c_mem c) = mem_live m \<and>
        (\<exists>r ds. r \<le> 5 \<and> c_sent c = replicate r pack_register @ ds \<and> list_all (\<lambda>d. carries (c_conv c) d \<and> length d \<le> 1400) ds)"
proof -
  let ?base = "mem_live m"
  have "safe (client_done m) (client_main fuel w args lines m)"
  proof (cases args)
    case Nil
    then show ?thesis by (simp add: client_main_def client_done_def new_client_def)
  next
    case (Cons route texts)
    show ?thesis
    proof (cases "ROUTE_MAX < length route")
      case True
      then show ?thesis using Cons by (simp add: client_main_def client_done_def new_client_def)
    next
      case False
      let ?talk = "\<lambda>c. case texts of text # _ \<Rightarrow> rbind (roundtrip fuel w text c) (\<lambda>(_, c). Inr c) | [] \<Rightarrow> interactive fuel w lines c"
      have talk: "safe (client_ok ?base) (?talk c)" if c: "client_ok ?base c" for c
      proof (cases texts)
        case Nil
        then show ?thesis using interactive_safe [OF w c] len Cons by simp
      next
        case (Cons t1 rest)
        have "length t1 \<le> 65532" using len \<open>args = route # texts\<close> Cons by simp
        then have "safe (client_ok ?base) (rbind (roundtrip fuel w t1 c) (\<lambda>(_, c). Inr c))"
          by (rule safe_rbind [OF roundtrip_safe [OF w c]]) auto
        then show ?thesis using Cons by simp
      qed
      have close: "safe (client_done m) (rbind (send_close w c) (\<lambda>c. Inr (0, client_disconnect c)))" if c: "client_ok ?base c" for c
      proof -
        have "length pack_close < 2 ^ 30" by (simp add: pack_close_def)
        then have "safe (client_ok ?base) (send_close w c)"
          unfolding send_close_def
        proof (rule safe_rbind [OF send_tun_safe [OF c]])
          fix c1 assume "client_ok ?base c1"
          then obtain k where "client_kcp_ok ?base c1 k" "sent_ok c1" by (auto simp: client_ok_def)
          then show "safe (client_ok ?base) (kcp_pump w c1)" by (rule safe_mono [OF pump_safe]) (auto simp: client_ok_def)
        qed
        then show ?thesis by (rule safe_rbind) (simp add: disconnect_done(1))
      qed
      have opened: "safe (client_done m) (rbind (open_route w route c) (\<lambda>(ok, c). if \<not> ok then Inr (1, client_disconnect c)
          else rbind (?talk c) (\<lambda>c. rbind (send_close w c) (\<lambda>c. Inr (0, client_disconnect c)))))" if c: "client_ok ?base c" for c
      proof -
        have r: "length route \<le> ROUTE_MAX" using False by simp
        show ?thesis
        proof (rule safe_rbind [OF open_route_safe [OF c r]], clarify)
          fix ok c1 assume ok: "ok" and c1: "client_ok ?base c1"
          show "safe (client_done m) (if \<not> ok then Inr (1, client_disconnect c1)
              else rbind (?talk c1) (\<lambda>c. rbind (send_close w c) (\<lambda>c. Inr (0, client_disconnect c))))"
            using safe_rbind [OF talk [OF c1] close] ok by simp
        qed
      qed
      have "safe (client_done m) (rbind (client_connect w ''127.0.0.1'' 8000 (new_client m)) (\<lambda>(ok, c).
          if \<not> ok then Inr (1, client_disconnect c)
          else rbind (open_route w route c) (\<lambda>(ok, c). if \<not> ok then Inr (1, client_disconnect c)
            else rbind (?talk c) (\<lambda>c. rbind (send_close w c) (\<lambda>c. Inr (0, client_disconnect c))))))"
      proof (rule safe_rbind [OF connect_safe_client [OF m]], clarify)
        fix ok c assume c: "if ok then client_ok ?base c else c_kcp c = None \<and> c_fd c < 0 \<and> c_mem c = m \<and> (\<exists>r \<le> 5. c_sent c = replicate r pack_register)"
        show "safe (client_done m) (if \<not> ok then Inr (1, client_disconnect c)
          else rbind (open_route w route c) (\<lambda>(ok, c). if \<not> ok then Inr (1, client_disconnect c)
            else rbind (?talk c) (\<lambda>c. rbind (send_close w c) (\<lambda>c. Inr (0, client_disconnect c)))))"
        proof (cases ok)
          case True
          then show ?thesis using opened c by simp
        next
          case False
          then have "client_disconnect c = c" using c by (simp add: client_disconnect_def)
          moreover have "client_done m (1, c)" using c False by (auto simp: client_done_def)
          ultimately show ?thesis using False by simp
        qed
      qed
      then show ?thesis using Cons False by (simp add: client_main_def)
    qed
  qed
  then show ?thesis by (cases "client_main fuel w args lines m") (auto simp: client_done_def)
qed

text \<open>A clock that advances a millisecond with every reading; the gateway answers, later traffic is noise.\<close>

definition noisy_world :: client_world where
  "noisy_world = \<lparr>cw_clock = word_of_nat, cw_register = (\<lambda>i. if i = 1 then Some (\<lparr>sin_addr = 7, sin_port = htons 8000\<rparr>, pack_registered 1000) else None),
     cw_datagram = (\<lambda>n. if even n then Some [1, 2, 3] else None), cw_socket = 3, cw_pton = (\<lambda>_. Some 7)\<rparr>"

lemma noisy_ticking: "ticking noisy_world 3000"
proof -
  have "3000 \<le> sint (word_of_nat (i + j) - word_of_nat i :: u64)" if "3000 \<le> j \<and> j \<le> 3003" for i j
  proof -
    have "word_of_nat (i + j) - word_of_nat i = (word_of_nat j :: u64)" by simp
    moreover have "sint (word_of_nat j :: u64) = int j"
      using that by (simp add: sint_uint signed_take_bit_int_eq_self unsigned_of_nat take_bit_nat_eq_self)
    ultimately show ?thesis using that by simp
  qed
  then show ?thesis by (simp add: ticking_def noisy_world_def)
qed

theorem client_main_ends_cleanly_witness:
  "case client_main 3002 noisy_world [''test.com'', ''hello''] [] good_mem of
      Inl e \<Rightarrow> e = Int_Overflow
    | Inr (code, c) \<Rightarrow> (code = 0 \<or> code = 1) \<and> c_kcp c = None \<and> c_fd c < 0 \<and> mem_live (c_mem c) = mem_live good_mem \<and>
        (\<exists>r ds. r \<le> 5 \<and> c_sent c = replicate r pack_register @ ds \<and> list_all (\<lambda>d. carries (c_conv c) d \<and> length d \<le> 1400) ds)"
  by (rule client_main_ends_cleanly [OF _ noisy_ticking]) simp_all

lemma register_reply:
  assumes inv: "mgr_inv m" and good: "mem_good (heap m)" and few: "length (sessions m) < 4294967296"
    and reg: "register_client src m = Inr (reply, m')"
  shows "\<exists>cv s. reply = pack_registered cv \<and> map_of (sessions m') cv = Some s \<and> pending_from src s"
proof (cases "find (\<lambda>(_, s). pending_from src s) (sessions m)")
  case None
  obtain cv s m1 where "register_client src m = Inr (pack_registered cv, m1)" "map_of (sessions m1) = (map_of (sessions m))(cv \<mapsto> s)" "pending_from src s"
    using register_new [OF inv good few None] by metis
  then show ?thesis using reg by auto
next
  case (Some p)
  obtain c s where p: "p = (c, s)" by force
  note f = register_found [OF inv Some [unfolded p]]
  show ?thesis using register_again [OF inv f] reg f by auto
qed

lemma attempts_answered:
  assumes "\<forall>j < i. cw_register w (b + j) = None" and "cw_register w (b + i) = Some (c_gw c, pack_registered cv)" and "i < n"
  shows "\<exists>c'. register_attempts w b n c = (Some cv, c') \<and> c_mem c' = c_mem c"
  using assms
proof (induction n arbitrary: b i c)
  case (Suc n)
  show ?case
  proof (cases i)
    case 0
    have "take 16 (pack_registered cv) = pack_registered cv" "pack_registered cv \<noteq> []" by (simp_all add: pack_registered_def net32_def)
    then show ?thesis using 0 Suc.prems(2) by (simp add: Let_def read_pack_registered)
  next
    case (Suc i')
    have "cw_register w b = None" using Suc.prems(1) Suc by (metis add.right_neutral zero_less_Suc)
    moreover have "\<forall>j < i'. cw_register w (Suc b + j) = None" using Suc.prems(1) Suc by (metis Suc_less_eq add_Suc add_Suc_right)
    moreover have "cw_register w (Suc b + i') = Some (c_gw (c\<lparr>c_sent := c_sent c @ [pack_register]\<rparr>), pack_registered cv)"
      using Suc.prems(2) Suc by simp
    ultimately show ?thesis
      using Suc.IH [of i' "Suc b" "c\<lparr>c_sent := c_sent c @ [pack_register]\<rparr>"] Suc.prems(3) Suc by (simp add: Let_def)
  qed
qed simp

text \<open>
  C5: Client and gateway agree on the conversation. When the gateway's answer to a REGISTER reaches the client
  within its five attempts, \<open>connect\<close> succeeds and its connection has the number of a session that the gateway
  holds for the client's address and that waits for CONNECT; and every datagram with that number that comes from
  this address finds this session.
\<close>

theorem handshake_agrees:
  assumes gate: "mgr_inv m" "mem_good (heap m)" "length (sessions m) < 4294967296" "register_client src m = Inr (reply, m')"
    and client: "mem_good h" "0 \<le> cw_socket w" "cw_pton w ip = Some a"
    and answer: "i < 5" "\<forall>j < i. cw_register w j = None" "cw_register w i = Some (\<lparr>sin_addr = a, sin_port = htons port\<rparr>, reply)"
  shows "\<exists>c k s. client_connect w ip port (new_client h) = Inr (True, c) \<and> c_kcp c = Some k \<and> conv k = c_conv c \<and>
    map_of (sessions m') (c_conv c) = Some s \<and> pending_from src s \<and>
    (\<forall>d. carries (c_conv c) d \<longrightarrow> lookup src d m' = Inr (Some (c_conv c)))"
proof -
  obtain cv s where s: "reply = pack_registered cv" "map_of (sessions m') cv = Some s" "pending_from src s"
    using register_reply [OF gate] by blast
  let ?gw = "\<lparr>sin_addr = a, sin_port = htons port\<rparr>"
  let ?c = "(new_client h)\<lparr>c_fd := cw_socket w, c_gw := ?gw\<rparr>"
  obtain c1 where c1: "register_attempts w 0 5 ?c = (Some cv, c1)" "c_mem c1 = h"
    using attempts_answered [of i w 0 ?c cv 5] answer s(1) by (auto simp: new_client_def)
  let ?h = "snd (kvstore_malloc (unat ((IKCP_MTU_DEF + IKCP_OVERHEAD) * 3)) (snd (kvstore_malloc 296 h)))"
  let ?k = "snd (ikcp_nodelay (ikcp_setoutput (new_kcp cv ?h)) 1 10 2 1)"
  have "ikcp_create cv h = (Some (new_kcp cv ?h), ?h)" using client(1) by (simp add: ikcp_create_def res_simps case_prod_beta)
  then have "client_connect w ip port (new_client h) = Inr (True, c1\<lparr>c_conv := cv, c_kcp := Some ?k, c_mem := ?h\<rparr>)"
    using client(2,3) c1 by (simp add: client_connect_def register_with_gateway_def new_client_def case_prod_beta)
  moreover have "conv ?k = cv" by (simp add: new_kcp_def ikcp_nodelay_def ikcp_setoutput_def Let_def)
  moreover have "lookup src d m' = Inr (Some cv)" if "carries cv d" for d
    using that s(2,3) by (simp add: lookup_def carries_def pending_from_def)
  ultimately show ?thesis using s(2,3) by auto
qed

theorem handshake_agrees_witness:
  "\<exists>reply m' c s. register_client \<lparr>sin_addr = 1, sin_port = 2\<rparr> (new_manager 3 good_mem) = Inr (reply, m') \<and>
     client_connect (noisy_world\<lparr>cw_register := (\<lambda>i. if i = 1 then Some (\<lparr>sin_addr = 7, sin_port = htons 8000\<rparr>, reply) else None)\<rparr>)
       ''127.0.0.1'' 8000 (new_client good_mem) = Inr (True, c) \<and>
     map_of (sessions m') (c_conv c) = Some s \<and> pending_from \<lparr>sin_addr = 1, sin_port = 2\<rparr> s"
proof -
  let ?src = "\<lparr>sin_addr = 1, sin_port = 2\<rparr> :: sockaddr" and ?m = "new_manager 3 good_mem"
  have m: "mem_good (heap ?m)" "length (sessions ?m) < 4294967296" "find (\<lambda>(_, s). pending_from ?src s) (sessions ?m) = None"
    by (simp_all add: new_manager_def)
  obtain cv m' where r: "register_client ?src ?m = Inr (pack_registered cv, m')" using register_new [OF new_manager_inv m] by metis
  let ?w = "noisy_world\<lparr>cw_register := (\<lambda>i. if i = 1 then Some (\<lparr>sin_addr = 7, sin_port = htons 8000\<rparr>, pack_registered cv) else None)\<rparr>"
  have w: "mem_good good_mem" "0 \<le> cw_socket ?w" "cw_pton ?w ''127.0.0.1'' = Some 7" "(1::nat) < 5" "\<forall>j < 1. cw_register ?w j = None"
      "cw_register ?w 1 = Some (\<lparr>sin_addr = 7, sin_port = htons 8000\<rparr>, pack_registered cv)"
    by (simp_all add: noisy_world_def)
  show ?thesis
    using handshake_agrees [OF new_manager_inv m(1,2) r w] r by blast
qed

text \<open>
  A text of 65533 to 65535 characters runs over the client's buffer. The three bytes of the DATA header and the
  text do not fit into the 65535 bytes of \<open>wbuf_\<close>; nothing checks the length, and \<open>main\<close> accepts lines of up to
  65534 characters.
\<close>

theorem long_text_overruns_buffer:
  assumes "65532 < length text" and "length text < 65536"
  shows "send_data w text (word_of_nat (length text)) c = Inl Out_Of_Bounds"
  using assms by (simp add: send_data_def pack_data_def memcpy_after_def net16_def)

theorem long_text_overruns_buffer_witness:
  "send_data noisy_world (replicate 65533 97) (word_of_nat 65533) (new_client good_mem) = Inl Out_Of_Bounds"
  using long_text_overruns_buffer [of "replicate 65533 97" noisy_world "new_client good_mem"] by simp

section \<open>The echo server\<close>

text \<open>Every datagram that UDP can carry comes back to its sender as it is.\<close>

lemma echo_loop_echoes:
  assumes "list_all (\<lambda>x. case x of None \<Rightarrow> True | Some (_, d) \<Rightarrow> length d \<le> 65507) input"
  shows "echo_loop input = Inr (map the (filter (\<lambda>x. x \<noteq> None) input))"
  using assms by (induction input rule: echo_loop.induct) simp_all

end
