(* ===== verification/RbTree.thy ===== *)
theory RbTree
  imports Prelude KvArray "HOL-Library.Char_ord" "HOL-Library.List_Lexorder"
begin

text \<open>
  The red-black tree engine of \<open>src/kv_store/kvstore_rbtree.c\<close>, at the level of its pointers:
  nodes live in a heap of addresses, a field that \<open>malloc\<close> left unwritten is \<^term>\<open>None\<close>
  and reading it is a fault, and the loops run on fuel that is bounded by the number of nodes ever
  allocated. The engine is selected by \<open>ENABLE_RBTREE_KVENGINE\<close>. This theory holds the operations;
  \<open>RbShape\<close> and \<open>RbProof\<close> say what they do.
\<close>

section \<open>Nodes and trees\<close>

abbreviation RED :: u8 where "RED \<equiv> 1"
abbreviation BLACK :: u8 where "BLACK \<equiv> 2"

type_synonym addr = nat

text \<open>\<open>nkey\<close> is never written after it was allocated but by the exchange in \<open>rbtree_delete\<close>.\<close>

record rbtree_node =
  ncolor :: "u8 option"
  nright :: "addr option"
  nleft :: "addr option"
  nparent :: "addr option"
  nkey :: "string option"
  nvalue :: "vptr option"

text \<open>
  The tree with the heap of its nodes. \<open>rb_fresh\<close> is the next address \<open>malloc\<close> gives to a node;
  \<open>rb_nil\<close> and \<open>rb_root\<close> are the pointers of the C structure.
\<close>

record rbtree =
  rb_root :: addr
  rb_nil :: addr
  rb_count :: int
  rb_heap :: "addr \<Rightarrow> rbtree_node option"
  rb_fresh :: addr

definition fresh_node :: rbtree_node where
  "fresh_node = \<lparr>ncolor = None, nright = None, nleft = None, nparent = None, nkey = None, nvalue = None\<rparr>"

text \<open>\<open>rd\<close> reads a field of a node, \<open>wr\<close> writes to a node.\<close>

definition rd :: "(rbtree_node \<Rightarrow> 'a option) \<Rightarrow> rbtree \<Rightarrow> addr \<Rightarrow> 'a res" where
  "rd f T x =
     (case rb_heap T x of
        None \<Rightarrow> Inl Use_After_Free
      | Some n \<Rightarrow> (case f n of None \<Rightarrow> Inl Uninit_Read | Some v \<Rightarrow> Inr v))"

definition wr :: "(rbtree_node \<Rightarrow> rbtree_node) \<Rightarrow> addr \<Rightarrow> rbtree \<Rightarrow> rbtree res" where
  "wr f x T =
     (case rb_heap T x of
        None \<Rightarrow> Inl Use_After_Free
      | Some n \<Rightarrow> Inr (T\<lparr>rb_heap := (rb_heap T)(x \<mapsto> f n)\<rparr>))"

abbreviation set_color :: "addr \<Rightarrow> u8 \<Rightarrow> rbtree \<Rightarrow> rbtree res" where
  "set_color x c \<equiv> wr (\<lambda>n. n\<lparr>ncolor := Some c\<rparr>) x"
abbreviation set_right :: "addr \<Rightarrow> addr \<Rightarrow> rbtree \<Rightarrow> rbtree res" where
  "set_right x y \<equiv> wr (\<lambda>n. n\<lparr>nright := Some y\<rparr>) x"
abbreviation set_left :: "addr \<Rightarrow> addr \<Rightarrow> rbtree \<Rightarrow> rbtree res" where
  "set_left x y \<equiv> wr (\<lambda>n. n\<lparr>nleft := Some y\<rparr>) x"
abbreviation set_parent :: "addr \<Rightarrow> addr \<Rightarrow> rbtree \<Rightarrow> rbtree res" where
  "set_parent x y \<equiv> wr (\<lambda>n. n\<lparr>nparent := Some y\<rparr>) x"
abbreviation set_key :: "addr \<Rightarrow> string \<Rightarrow> rbtree \<Rightarrow> rbtree res" where
  "set_key x k \<equiv> wr (\<lambda>n. n\<lparr>nkey := Some k\<rparr>) x"
abbreviation set_value :: "addr \<Rightarrow> vptr \<Rightarrow> rbtree \<Rightarrow> rbtree res" where
  "set_value x v \<equiv> wr (\<lambda>n. n\<lparr>nvalue := Some v\<rparr>) x"

text \<open>\<open>strcmp\<close> compares as unsigned characters; a proper prefix is smaller.\<close>

fun strcmp :: "string \<Rightarrow> string \<Rightarrow> int" where
  "strcmp [] [] = 0"
| "strcmp [] (b # bs) = - 1"
| "strcmp (a # as) [] = 1"
| "strcmp (a # as) (b # bs) =
     (if a = b then strcmp as bs else if (of_char a :: nat) < of_char b then - 1 else 1)"

text \<open>No path in a tree is longer than the number of nodes ever allocated.\<close>

definition steps :: "rbtree \<Rightarrow> nat" where
  "steps T = Suc (Suc (rb_fresh T))"

section \<open>Walking the tree\<close>

fun mini_loop :: "nat \<Rightarrow> rbtree \<Rightarrow> addr \<Rightarrow> addr res" where
  "mini_loop 0 T x = Inl Diverges"
| "mini_loop (Suc n) T x =
     rbind (rd nleft T x) (\<lambda>l. if l \<noteq> rb_nil T then mini_loop n T l else Inr x)"

definition rbtree_mini :: "rbtree \<Rightarrow> addr \<Rightarrow> addr res" where
  "rbtree_mini T x = mini_loop (steps T) T x"

fun maxi_loop :: "nat \<Rightarrow> rbtree \<Rightarrow> addr \<Rightarrow> addr res" where
  "maxi_loop 0 T x = Inl Diverges"
| "maxi_loop (Suc n) T x =
     rbind (rd nright T x) (\<lambda>r. if r \<noteq> rb_nil T then maxi_loop n T r else Inr x)"

definition rbtree_maxi :: "rbtree \<Rightarrow> addr \<Rightarrow> addr res" where
  "rbtree_maxi T x = maxi_loop (steps T) T x"

fun climb_loop :: "nat \<Rightarrow> rbtree \<Rightarrow> addr \<Rightarrow> addr \<Rightarrow> addr res" where
  "climb_loop 0 T x y = Inl Diverges"
| "climb_loop (Suc n) T x y =
     (if y = rb_nil T then Inr y
      else rbind (rd nright T y) (\<lambda>r.
        if x = r then rbind (rd nparent T y) (\<lambda>p. climb_loop n T y p) else Inr y))"

definition rbtree_successor :: "rbtree \<Rightarrow> addr \<Rightarrow> addr res" where
  "rbtree_successor T x =
     rbind (rd nparent T x) (\<lambda>y.
     rbind (rd nright T x) (\<lambda>r.
       if r \<noteq> rb_nil T then rbtree_mini T r else climb_loop (steps T) T x y))"

fun search_loop :: "nat \<Rightarrow> rbtree \<Rightarrow> cstr \<Rightarrow> addr \<Rightarrow> addr res" where
  "search_loop 0 T key node = Inl Diverges"
| "search_loop (Suc n) T key node =
     (if node = rb_nil T then Inr (rb_nil T)
      else
        (case key of
           None \<Rightarrow> Inl Null_Deref
         | Some k \<Rightarrow>
             rbind (rd nkey T node) (\<lambda>nk.
               if strcmp k nk < 0 then rbind (rd nleft T node) (search_loop n T key)
               else if strcmp k nk > 0 then rbind (rd nright T node) (search_loop n T key)
               else Inr node)))"

definition rbtree_search :: "rbtree \<Rightarrow> cstr \<Rightarrow> addr res" where
  "rbtree_search T key = search_loop (steps T) T key (rb_root T)"

text \<open>How often a search calls \<open>strcmp\<close>: once per node where it turns left, twice at the others.\<close>

fun search_strcmps :: "nat \<Rightarrow> rbtree \<Rightarrow> string \<Rightarrow> addr \<Rightarrow> nat" where
  "search_strcmps 0 T k node = 0"
| "search_strcmps (Suc n) T k node =
     (if node = rb_nil T then 0
      else
        (case rd nkey T node of
           Inl _ \<Rightarrow> 0
         | Inr nk \<Rightarrow>
             if strcmp k nk < 0 then 1 + (case rd nleft T node of Inl _ \<Rightarrow> 0 | Inr l \<Rightarrow> search_strcmps n T k l)
             else if strcmp k nk > 0 then 2 + (case rd nright T node of Inl _ \<Rightarrow> 0 | Inr r \<Rightarrow> search_strcmps n T k r)
             else 2))"

text \<open>\<open>rbtree_traversal\<close> prints keys and colors in order; the model returns what it prints.\<close>

fun traversal_loop :: "nat \<Rightarrow> rbtree \<Rightarrow> addr \<Rightarrow> (string \<times> u8) list res" where
  "traversal_loop 0 T node = Inl Diverges"
| "traversal_loop (Suc n) T node =
     (if node = rb_nil T then Inr []
      else
        rbind (rd nleft T node) (\<lambda>l.
        rbind (traversal_loop n T l) (\<lambda>ls.
        rbind (rd nkey T node) (\<lambda>k.
        rbind (rd ncolor T node) (\<lambda>c.
        rbind (rd nright T node) (\<lambda>r.
        rbind (traversal_loop n T r) (\<lambda>rs. Inr (ls @ (k, c) # rs))))))))"

definition rbtree_traversal :: "rbtree \<Rightarrow> addr \<Rightarrow> (string \<times> u8) list res" where
  "rbtree_traversal T node = traversal_loop (steps T) T node"

section \<open>Rotations\<close>

text \<open>
  The link from the parent \<open>p\<close> of \<open>x\<close>, or the root, is set to \<open>y\<close>. The left rotation and the
  deletion ask whether \<open>x\<close> is the left child, the right rotation whether it is the right one.
\<close>

definition relink_left :: "addr \<Rightarrow> addr \<Rightarrow> addr \<Rightarrow> rbtree \<Rightarrow> rbtree res" where
  "relink_left x y p T =
     (if p = rb_nil T then Inr (T\<lparr>rb_root := y\<rparr>)
      else rbind (rd nleft T p) (\<lambda>l. if x = l then set_left p y T else set_right p y T))"

definition relink_right :: "addr \<Rightarrow> addr \<Rightarrow> addr \<Rightarrow> rbtree \<Rightarrow> rbtree res" where
  "relink_right x y p T =
     (if p = rb_nil T then Inr (T\<lparr>rb_root := y\<rparr>)
      else rbind (rd nright T p) (\<lambda>r. if x = r then set_right p y T else set_left p y T))"

definition rbtree_left_rotate :: "rbtree \<Rightarrow> addr \<Rightarrow> rbtree res" where
  "rbtree_left_rotate T x =
     rbind (rd nright T x) (\<lambda>y.
     rbind (rd nleft T y) (\<lambda>b.
     rbind (set_right x b T) (\<lambda>T1.
     rbind (if b \<noteq> rb_nil T1 then set_parent b x T1 else Inr T1) (\<lambda>T2.
     rbind (rd nparent T2 x) (\<lambda>p.
     rbind (set_parent y p T2) (\<lambda>T3.
     rbind (relink_left x y p T3) (\<lambda>T4.
     rbind (set_left y x T4) (\<lambda>T5. set_parent x y T5))))))))"

definition rbtree_right_rotate :: "rbtree \<Rightarrow> addr \<Rightarrow> rbtree res" where
  "rbtree_right_rotate T y =
     rbind (rd nleft T y) (\<lambda>x.
     rbind (rd nright T x) (\<lambda>b.
     rbind (set_left y b T) (\<lambda>T1.
     rbind (if b \<noteq> rb_nil T1 then set_parent b y T1 else Inr T1) (\<lambda>T2.
     rbind (rd nparent T2 y) (\<lambda>p.
     rbind (set_parent x p T2) (\<lambda>T3.
     rbind (relink_right y x p T3) (\<lambda>T4.
     rbind (set_right x y T4) (\<lambda>T5. set_parent y x T5))))))))"

section \<open>Insertion\<close>

text \<open>
  One turn of the loop of \<open>rbtree_insert_fixup\<close> for a node \<open>z\<close> whose parent \<open>p\<close> is red: the two
  branches, for a parent that is a left child and for one that is a right child of \<open>g\<close>. The result
  is the node the loop goes on with.
\<close>

definition insert_turn_left :: "rbtree \<Rightarrow> addr \<Rightarrow> addr \<Rightarrow> addr \<Rightarrow> (addr \<times> rbtree) res" where
  "insert_turn_left T z p g =
     rbind (rd nright T g) (\<lambda>y.
     rbind (rd ncolor T y) (\<lambda>yc.
       if yc = RED then
         rbind (set_color p BLACK T) (\<lambda>T1.
         rbind (set_color y BLACK T1) (\<lambda>T2.
         rbind (set_color g RED T2) (\<lambda>T3. Inr (g, T3))))
       else
         rbind (rd nright T p) (\<lambda>pr.
         rbind (if z = pr then rbind (rbtree_left_rotate T p) (\<lambda>T1. Inr (p, T1)) else Inr (z, T))
           (\<lambda>(z1, T1).
         rbind (rd nparent T1 z1) (\<lambda>p1.
         rbind (set_color p1 BLACK T1) (\<lambda>T2.
         rbind (rd nparent T2 p1) (\<lambda>g1.
         rbind (set_color g1 RED T2) (\<lambda>T3.
         rbind (rbtree_right_rotate T3 g1) (\<lambda>T4. Inr (z1, T4))))))))))"

definition insert_turn_right :: "rbtree \<Rightarrow> addr \<Rightarrow> addr \<Rightarrow> addr \<Rightarrow> (addr \<times> rbtree) res" where
  "insert_turn_right T z p g =
     rbind (rd nleft T g) (\<lambda>y.
     rbind (rd ncolor T y) (\<lambda>yc.
       if yc = RED then
         rbind (set_color p BLACK T) (\<lambda>T1.
         rbind (set_color y BLACK T1) (\<lambda>T2.
         rbind (set_color g RED T2) (\<lambda>T3. Inr (g, T3))))
       else
         rbind (rd nleft T p) (\<lambda>pl.
         rbind (if z = pl then rbind (rbtree_right_rotate T p) (\<lambda>T1. Inr (p, T1)) else Inr (z, T))
           (\<lambda>(z1, T1).
         rbind (rd nparent T1 z1) (\<lambda>p1.
         rbind (set_color p1 BLACK T1) (\<lambda>T2.
         rbind (rd nparent T2 p1) (\<lambda>g1.
         rbind (set_color g1 RED T2) (\<lambda>T3.
         rbind (rbtree_left_rotate T3 g1) (\<lambda>T4. Inr (z1, T4))))))))))"

fun insert_fixup_loop :: "nat \<Rightarrow> rbtree \<Rightarrow> addr \<Rightarrow> rbtree res" where
  "insert_fixup_loop 0 T z = Inl Diverges"
| "insert_fixup_loop (Suc n) T z =
     rbind (rd nparent T z) (\<lambda>p.
     rbind (rd ncolor T p) (\<lambda>pc.
       if pc = RED then
         rbind (rd nparent T p) (\<lambda>g.
         rbind (rd nleft T g) (\<lambda>gl.
         rbind (if p = gl then insert_turn_left T z p g else insert_turn_right T z p g)
           (\<lambda>(z1, T1). insert_fixup_loop n T1 z1)))
       else Inr T))"

definition rbtree_insert_fixup :: "rbtree \<Rightarrow> addr \<Rightarrow> rbtree res" where
  "rbtree_insert_fixup T z =
     rbind (insert_fixup_loop (steps T) T z) (\<lambda>T1. set_color (rb_root T1) BLACK T1)"

text \<open>The descent of \<open>rbtree_insert\<close>: the last node on the path, or \<^term>\<open>None\<close> for a stored key.\<close>

fun insert_descend :: "nat \<Rightarrow> rbtree \<Rightarrow> string \<Rightarrow> addr \<Rightarrow> addr \<Rightarrow> addr option res" where
  "insert_descend 0 T k y x = Inl Diverges"
| "insert_descend (Suc n) T k y x =
     (if x = rb_nil T then Inr (Some y)
      else
        rbind (rd nkey T x) (\<lambda>xk.
          if strcmp k xk < 0 then rbind (rd nleft T x) (insert_descend n T k x)
          else if strcmp k xk > 0 then rbind (rd nright T x) (insert_descend n T k x)
          else Inr None))"

definition rbtree_insert :: "rbtree \<Rightarrow> addr \<Rightarrow> rbtree res" where
  "rbtree_insert T z =
     rbind (rd nkey T z) (\<lambda>k.
     rbind (insert_descend (steps T) T k (rb_nil T) (rb_root T)) (\<lambda>found.
       case found of
         None \<Rightarrow> Inr T
       | Some y \<Rightarrow>
           rbind (set_parent z y T) (\<lambda>T1.
           rbind (if y = rb_nil T1 then Inr (T1\<lparr>rb_root := z\<rparr>)
                  else rbind (rd nkey T1 y) (\<lambda>yk.
                    if strcmp k yk < 0 then set_left y z T1 else set_right y z T1)) (\<lambda>T2.
           rbind (set_left z (rb_nil T2) T2) (\<lambda>T3.
           rbind (set_right z (rb_nil T3) T3) (\<lambda>T4.
           rbind (set_color z RED T4) (\<lambda>T5. rbtree_insert_fixup T5 z)))))))"

section \<open>Deletion\<close>

text \<open>
  One turn of the loop of \<open>rbtree_delete_fixup\<close> for a node \<open>x\<close> with parent \<open>p\<close>: first the red
  sibling, then the black one. The result is the node the loop goes on with.
\<close>

definition red_sibling_left :: "rbtree \<Rightarrow> addr \<Rightarrow> (addr \<times> rbtree) res" where
  "red_sibling_left T p =
     rbind (rd nright T p) (\<lambda>w.
     rbind (rd ncolor T w) (\<lambda>wc.
       if wc = RED then
         rbind (set_color w BLACK T) (\<lambda>T1.
         rbind (set_color p RED T1) (\<lambda>T2.
         rbind (rbtree_left_rotate T2 p) (\<lambda>T3.
         rbind (rd nright T3 p) (\<lambda>w1. Inr (w1, T3)))))
       else Inr (w, T)))"

definition red_sibling_right :: "rbtree \<Rightarrow> addr \<Rightarrow> (addr \<times> rbtree) res" where
  "red_sibling_right T p =
     rbind (rd nleft T p) (\<lambda>w.
     rbind (rd ncolor T w) (\<lambda>wc.
       if wc = RED then
         rbind (set_color w BLACK T) (\<lambda>T1.
         rbind (set_color p RED T1) (\<lambda>T2.
         rbind (rbtree_right_rotate T2 p) (\<lambda>T3.
         rbind (rd nleft T3 p) (\<lambda>w1. Inr (w1, T3)))))
       else Inr (w, T)))"

text \<open>The test of both children of the sibling, the second only when the first is black.\<close>

definition black_children :: "rbtree \<Rightarrow> addr \<Rightarrow> bool res" where
  "black_children T w =
     rbind (rd nleft T w) (\<lambda>l.
     rbind (rd ncolor T l) (\<lambda>lc.
       if lc = BLACK
       then rbind (rd nright T w) (\<lambda>r. rbind (rd ncolor T r) (\<lambda>rc. Inr (rc = BLACK)))
       else Inr False))"

definition black_sibling_left :: "rbtree \<Rightarrow> addr \<Rightarrow> addr \<Rightarrow> (addr \<times> rbtree) res" where
  "black_sibling_left T p w =
     rbind (rd nright T w) (\<lambda>wr0.
     rbind (rd ncolor T wr0) (\<lambda>wrc.
     rbind (if wrc = BLACK then
              rbind (rd nleft T w) (\<lambda>wl.
              rbind (set_color wl BLACK T) (\<lambda>T1.
              rbind (set_color w RED T1) (\<lambda>T2.
              rbind (rbtree_right_rotate T2 w) (\<lambda>T3.
              rbind (rd nright T3 p) (\<lambda>w1. Inr (w1, T3))))))
            else Inr (w, T)) (\<lambda>(w1, T1).
     rbind (rd ncolor T1 p) (\<lambda>pc.
     rbind (set_color w1 pc T1) (\<lambda>T2.
     rbind (set_color p BLACK T2) (\<lambda>T3.
     rbind (rd nright T3 w1) (\<lambda>r.
     rbind (set_color r BLACK T3) (\<lambda>T4.
     rbind (rbtree_left_rotate T4 p) (\<lambda>T5. Inr (rb_root T5, T5))))))))))"

definition black_sibling_right :: "rbtree \<Rightarrow> addr \<Rightarrow> addr \<Rightarrow> (addr \<times> rbtree) res" where
  "black_sibling_right T p w =
     rbind (rd nleft T w) (\<lambda>wl0.
     rbind (rd ncolor T wl0) (\<lambda>wlc.
     rbind (if wlc = BLACK then
              rbind (rd nright T w) (\<lambda>wr1.
              rbind (set_color wr1 BLACK T) (\<lambda>T1.
              rbind (set_color w RED T1) (\<lambda>T2.
              rbind (rbtree_left_rotate T2 w) (\<lambda>T3.
              rbind (rd nleft T3 p) (\<lambda>w1. Inr (w1, T3))))))
            else Inr (w, T)) (\<lambda>(w1, T1).
     rbind (rd ncolor T1 p) (\<lambda>pc.
     rbind (set_color w1 pc T1) (\<lambda>T2.
     rbind (set_color p BLACK T2) (\<lambda>T3.
     rbind (rd nleft T3 w1) (\<lambda>l.
     rbind (set_color l BLACK T3) (\<lambda>T4.
     rbind (rbtree_right_rotate T4 p) (\<lambda>T5. Inr (rb_root T5, T5))))))))))"

definition delete_turn_left :: "rbtree \<Rightarrow> addr \<Rightarrow> (addr \<times> rbtree) res" where
  "delete_turn_left T p =
     rbind (red_sibling_left T p) (\<lambda>(w, T1).
     rbind (black_children T1 w) (\<lambda>both.
       if both then rbind (set_color w RED T1) (\<lambda>T2. Inr (p, T2))
       else black_sibling_left T1 p w))"

definition delete_turn_right :: "rbtree \<Rightarrow> addr \<Rightarrow> (addr \<times> rbtree) res" where
  "delete_turn_right T p =
     rbind (red_sibling_right T p) (\<lambda>(w, T1).
     rbind (black_children T1 w) (\<lambda>both.
       if both then rbind (set_color w RED T1) (\<lambda>T2. Inr (p, T2))
       else black_sibling_right T1 p w))"

fun delete_fixup_loop :: "nat \<Rightarrow> rbtree \<Rightarrow> addr \<Rightarrow> (addr \<times> rbtree) res" where
  "delete_fixup_loop 0 T x = Inl Diverges"
| "delete_fixup_loop (Suc n) T x =
     (if x = rb_root T then Inr (x, T)
      else
        rbind (rd ncolor T x) (\<lambda>xc.
          if xc = BLACK then
            rbind (rd nparent T x) (\<lambda>p.
            rbind (rd nleft T p) (\<lambda>l.
            rbind (if x = l then delete_turn_left T p else delete_turn_right T p)
              (\<lambda>(x1, T1). delete_fixup_loop n T1 x1)))
          else Inr (x, T)))"

definition rbtree_delete_fixup :: "rbtree \<Rightarrow> addr \<Rightarrow> rbtree res" where
  "rbtree_delete_fixup T x =
     rbind (delete_fixup_loop (steps T) T x) (\<lambda>(x1, T1). set_color x1 BLACK T1)"

text \<open>The exchange of keys and of values between the node of the key and the node taken out.\<close>

definition swap_contents :: "addr \<Rightarrow> addr \<Rightarrow> rbtree \<Rightarrow> rbtree res" where
  "swap_contents z y T =
     rbind (rd nkey T z) (\<lambda>zk.
     rbind (rd nkey T y) (\<lambda>yk.
     rbind (set_key z yk T) (\<lambda>T1.
     rbind (set_key y zk T1) (\<lambda>T2.
     rbind (rd nvalue T2 z) (\<lambda>zv.
     rbind (rd nvalue T2 y) (\<lambda>yv.
     rbind (set_value z yv T2) (\<lambda>T3. set_value y zv T3)))))))"

definition rbtree_delete :: "rbtree \<Rightarrow> addr \<Rightarrow> (addr \<times> rbtree) res" where
  "rbtree_delete T z =
     rbind (rd nleft T z) (\<lambda>zl.
     rbind (if zl = rb_nil T then Inr z
            else rbind (rd nright T z) (\<lambda>zr.
              if zr = rb_nil T then Inr z else rbtree_successor T z)) (\<lambda>y.
     rbind (rd nleft T y) (\<lambda>yl.
     rbind (if yl \<noteq> rb_nil T then Inr yl
            else rbind (rd nright T y) (\<lambda>yr. if yr \<noteq> rb_nil T then Inr yr else Inr (rb_nil T))) (\<lambda>x.
     rbind (rd nparent T y) (\<lambda>p.
     rbind (set_parent x p T) (\<lambda>T1.
     rbind (relink_left y x p T1) (\<lambda>T2.
     rbind (if y \<noteq> z then swap_contents z y T2 else Inr T2) (\<lambda>T3.
     rbind (rd ncolor T3 y) (\<lambda>c.
     rbind (if c = BLACK then rbtree_delete_fixup T3 x else Inr T3) (\<lambda>T4. Inr (y, T4)))))))))))"

section \<open>The entry points\<close>

text \<open>
  \<open>kvstore_rbtree_create\<close>: neither of its two allocations is checked. The node that stands for the
  empty tree gets a key and a color; its links and its value stay unwritten.
\<close>

definition kvstore_rbtree_create :: "mem \<Rightarrow> (int \<times> rbtree \<times> mem) res" where
  "kvstore_rbtree_create m =
     (let (ok1, m1) = kvstore_malloc 48 m
      in if \<not> ok1 then Inl Null_Deref
         else
           let (ok2, m2) = kvstore_malloc 1 m1
           in if \<not> ok2 then Inl Null_Deref
              else Inr (0, \<lparr>rb_root = 1, rb_nil = 1, rb_count = 0,
                            rb_heap = [1 \<mapsto> fresh_node\<lparr>nkey := Some [], ncolor := Some BLACK\<rparr>],
                            rb_fresh = 2\<rparr>, m2))"

text \<open>
  \<open>kvs_rbtree_set\<close>: a node, its key and its value are allocated, freed again when a later
  allocation fails, and the node is given to \<open>rbtree_insert\<close>; the count grows whatever that does.
\<close>

definition kvs_rbtree_set :: "rbtree \<Rightarrow> cstr \<Rightarrow> cstr \<Rightarrow> mem \<Rightarrow> (int \<times> rbtree \<times> mem) res" where
  "kvs_rbtree_set T key val m =
     (let (ok1, m1) = kvstore_malloc 48 m
      in if \<not> ok1 then Inr (- 1, T, m1)
         else
           case key of
             None \<Rightarrow> Inl Null_Deref
           | Some k \<Rightarrow>
               let (ok2, m2) = kvstore_malloc (length k + 1) m1
               in if \<not> ok2 then Inr (- 1, T, kvstore_free (Some ()) m2)
                  else
                    case val of
                      None \<Rightarrow> Inl Null_Deref
                    | Some v \<Rightarrow>
                        let (ok3, m3) = kvstore_malloc (length v + 1) m2
                        in if \<not> ok3
                           then Inr (- 1, T, kvstore_free (Some ()) (kvstore_free (Some k) m3))
                           else
                             let z = rb_fresh T;
                                 node = fresh_node\<lparr>nkey := Some k, nvalue := Some (VPtr v)\<rparr>
                             in rbind (rbtree_insert (T\<lparr>rb_heap := (rb_heap T)(z \<mapsto> node),
                                                         rb_fresh := Suc z\<rparr>) z)
                                  (\<lambda>T1. if rb_count T1 = INT_MAX then Inl Int_Overflow
                                        else Inr (0, T1\<lparr>rb_count := rb_count T1 + 1\<rparr>, m3)))"

definition kvs_rbtree_get :: "rbtree \<Rightarrow> cstr \<Rightarrow> (cstr \<times> rbtree) res" where
  "kvs_rbtree_get T key =
     rbind (rbtree_search T key) (\<lambda>node.
       if node = rb_nil T then Inr (None, T)
       else rbind (rd nvalue T node) (\<lambda>p. rbind (read_vptr p) (\<lambda>v. Inr (v, T))))"

text \<open>
  \<open>kvs_rbtree_delete\<close>: the node taken out would be freed only if its pointer were NULL, which the
  pointer of a node never is.
\<close>

definition kvs_rbtree_delete :: "rbtree \<Rightarrow> cstr \<Rightarrow> mem \<Rightarrow> (int \<times> rbtree \<times> mem) res" where
  "kvs_rbtree_delete T key m =
     rbind (rbtree_search T key) (\<lambda>node.
       if node = rb_nil T then Inr (- 1, T, m)
       else
         rbind (rbtree_delete T node) (\<lambda>(cur, T1).
           if cur = 0 then Inl Null_Deref
           else if rb_count T1 = - INT_MAX - 1 then Inl Int_Overflow
           else Inr (0, T1\<lparr>rb_count := rb_count T1 - 1\<rparr>, m)))"

definition kvs_rbtree_modify :: "rbtree \<Rightarrow> cstr \<Rightarrow> cstr \<Rightarrow> mem \<Rightarrow> (int \<times> rbtree \<times> mem) res" where
  "kvs_rbtree_modify T key val m =
     rbind (rbtree_search T key) (\<lambda>node.
       if node = rb_nil T then Inr (- 1, T, m)
       else
         rbind (rd nvalue T node) (\<lambda>tmp.
         rbind (free_vptr tmp m) (\<lambda>m1.
           case val of
             None \<Rightarrow> Inl Null_Deref
           | Some v \<Rightarrow>
               let (ok, m2) = kvstore_malloc (length v + 1) m1
               in if \<not> ok then rbind (set_value node VNull T) (\<lambda>T1. Inr (- 1, T1, m2))
                  else rbind (set_value node (VPtr v) T) (\<lambda>T1. Inr (0, T1, m2)))))"

definition kvs_rbtree_count :: "rbtree \<Rightarrow> int" where
  "kvs_rbtree_count T = rb_count T"

text \<open>
  \<open>kvstore_rbtree_destory\<close>: the key of the nil node is freed, then the smallest node is taken out
  until the tree is empty; no node is freed.
\<close>

fun destory_loop :: "nat \<Rightarrow> rbtree \<Rightarrow> addr \<Rightarrow> rbtree res" where
  "destory_loop 0 T node = Inl Diverges"
| "destory_loop (Suc n) T node =
     (if node = rb_nil T then Inr T
      else
        rbind (rbtree_mini T (rb_root T)) (\<lambda>node1.
          if node1 = rb_nil T then Inr T
          else rbind (rbtree_delete T node1) (\<lambda>(node2, T1).
            if node2 = 0 then Inl Null_Deref else destory_loop n T1 node2)))"

definition kvstore_rbtree_destory :: "rbtree \<Rightarrow> mem \<Rightarrow> (rbtree \<times> mem) res" where
  "kvstore_rbtree_destory T m =
     rbind (rd nkey T (rb_nil T)) (\<lambda>k.
     rbind (destory_loop (steps T) T (rb_root T)) (\<lambda>T1. Inr (T1, kvstore_free (Some k) m)))"

end
