(* ===== verification/RbShape.thy ===== *)
theory RbShape
  imports RbTree
begin

text \<open>
  What a heap of nodes stands for: binary search trees with colors and addresses, trees with a
  hole, and the red-black invariant on both. The rotations and the changes of color of
  \<open>RbTree\<close> are shown to do on the heap what their names say of the tree.
\<close>

section \<open>Trees and trees with a hole\<close>

datatype col = R | B

fun enc :: "col \<Rightarrow> u8" where
  "enc R = RED"
| "enc B = BLACK"

lemma enc_iff [simp]: "enc c = 1 \<longleftrightarrow> c = R" "enc c = 2 \<longleftrightarrow> c = B"
  by (cases c; simp)+

datatype rt = Tip | Bin rt addr col string vptr rt

datatype frame = Lf addr col string vptr rt | Rt rt addr col string vptr

fun plug :: "frame list \<Rightarrow> rt \<Rightarrow> rt" where
  "plug [] t = t"
| "plug (Lf a c k v r # ctx) t = plug ctx (Bin t a c k v r)"
| "plug (Rt l a c k v # ctx) t = plug ctx (Bin l a c k v t)"

fun ptr :: "addr \<Rightarrow> rt \<Rightarrow> addr" where
  "ptr nl Tip = nl"
| "ptr nl (Bin l a c k v r) = a"

fun addrs :: "rt \<Rightarrow> addr list" where
  "addrs Tip = []"
| "addrs (Bin l a c k v r) = addrs l @ a # addrs r"

fun caddrs :: "frame list \<Rightarrow> addr list" where
  "caddrs [] = []"
| "caddrs (Lf a c k v r # ctx) = a # addrs r @ caddrs ctx"
| "caddrs (Rt l a c k v # ctx) = a # addrs l @ caddrs ctx"

fun cpar :: "addr \<Rightarrow> frame list \<Rightarrow> addr" where
  "cpar nl [] = nl"
| "cpar nl (Lf a c k v r # ctx) = a"
| "cpar nl (Rt l a c k v # ctx) = a"

fun croot :: "frame list \<Rightarrow> addr \<Rightarrow> addr" where
  "croot [] q = q"
| "croot (Lf a c k v r # ctx) q = croot ctx a"
| "croot (Rt l a c k v # ctx) q = croot ctx a"

text \<open>The contents in order, with the addresses of the nodes.\<close>

fun contents :: "rt \<Rightarrow> (addr \<times> string \<times> vptr) list" where
  "contents Tip = []"
| "contents (Bin l a c k v r) = contents l @ (a, k, v) # contents r"

fun cleft :: "frame list \<Rightarrow> (addr \<times> string \<times> vptr) list" where
  "cleft [] = []"
| "cleft (Lf a c k v r # ctx) = cleft ctx"
| "cleft (Rt l a c k v # ctx) = cleft ctx @ contents l @ [(a, k, v)]"

fun cright :: "frame list \<Rightarrow> (addr \<times> string \<times> vptr) list" where
  "cright [] = []"
| "cright (Lf a c k v r # ctx) = (a, k, v) # contents r @ cright ctx"
| "cright (Rt l a c k v # ctx) = cright ctx"

lemma contents_plug: "contents (plug ctx t) = cleft ctx @ contents t @ cright ctx"
  by (induction ctx t rule: plug.induct) auto

lemma addrs_contents: "addrs t = map fst (contents t)"
  by (induction t) auto

lemma caddrs_contents: "set (caddrs ctx) = fst ` set (cleft ctx @ cright ctx)"
  by (induction ctx rule: caddrs.induct) (auto simp: addrs_contents)

lemma distinct_plug:
  "distinct (addrs (plug ctx t)) \<longleftrightarrow>
     distinct (addrs t) \<and> distinct (caddrs ctx) \<and> set (addrs t) \<inter> set (caddrs ctx) = {}"
  by (induction ctx t rule: plug.induct) auto

lemma set_addrs_plug: "set (addrs (plug ctx t)) = set (addrs t) \<union> set (caddrs ctx)"
  by (induction ctx t rule: plug.induct) auto

lemma ptr_plug: "ptr nl (plug ctx t) = croot ctx (ptr nl t)"
  by (induction ctx t rule: plug.induct) auto

lemma ptr_in_addrs: "t \<noteq> Tip \<Longrightarrow> ptr nl t \<in> set (addrs t)"
  by (cases t) auto

lemma ptr_nil_iff: "nl \<notin> set (addrs t) \<Longrightarrow> ptr nl t = nl \<longleftrightarrow> t = Tip"
  by (cases t) auto

lemma cpar_in_caddrs: "ctx \<noteq> [] \<Longrightarrow> cpar nl ctx \<in> set (caddrs ctx)"
  by (cases ctx rule: caddrs.cases) auto

section \<open>The heap of a tree\<close>

definition mk :: "col \<Rightarrow> addr \<Rightarrow> addr \<Rightarrow> addr \<Rightarrow> string \<Rightarrow> vptr \<Rightarrow> rbtree_node" where
  "mk c l r p k v = \<lparr>ncolor = Some (enc c), nright = Some r, nleft = Some l, nparent = Some p,
                     nkey = Some k, nvalue = Some v\<rparr>"

fun tree_at :: "addr \<Rightarrow> (addr \<Rightarrow> rbtree_node option) \<Rightarrow> addr \<Rightarrow> rt \<Rightarrow> bool" where
  "tree_at nl H p Tip \<longleftrightarrow> True"
| "tree_at nl H p (Bin l a c k v r) \<longleftrightarrow>
     H a = Some (mk c (ptr nl l) (ptr nl r) p k v) \<and> tree_at nl H a l \<and> tree_at nl H a r"

fun ctx_at :: "addr \<Rightarrow> (addr \<Rightarrow> rbtree_node option) \<Rightarrow> frame list \<Rightarrow> addr \<Rightarrow> bool" where
  "ctx_at nl H [] q \<longleftrightarrow> True"
| "ctx_at nl H (Lf a c k v r # ctx) q \<longleftrightarrow>
     H a = Some (mk c q (ptr nl r) (cpar nl ctx) k v) \<and> tree_at nl H a r \<and> ctx_at nl H ctx a"
| "ctx_at nl H (Rt l a c k v # ctx) q \<longleftrightarrow>
     H a = Some (mk c (ptr nl l) q (cpar nl ctx) k v) \<and> tree_at nl H a l \<and> ctx_at nl H ctx a"

lemma tree_at_plug:
  "tree_at nl H nl (plug ctx t) \<longleftrightarrow> tree_at nl H (cpar nl ctx) t \<and> ctx_at nl H ctx (ptr nl t)"
  by (induction ctx t rule: plug.induct) auto

lemma tree_at_cong:
  "(\<And>q. q \<in> set (addrs t) \<Longrightarrow> H' q = H q) \<Longrightarrow> tree_at nl H' p t = tree_at nl H p t"
  by (induction t arbitrary: p) auto

lemma ctx_at_cong:
  "(\<And>q. q \<in> set (caddrs ctx) \<Longrightarrow> H' q = H q) \<Longrightarrow> ctx_at nl H' ctx q = ctx_at nl H ctx q"
  by (induction ctx arbitrary: q rule: caddrs.induct) (auto simp: tree_at_cong [of _ H' H])

lemma tree_at_upd [simp]: "a \<notin> set (addrs t) \<Longrightarrow> tree_at nl (H(a := x)) p t = tree_at nl H p t"
  by (rule tree_at_cong) auto

lemma ctx_at_upd [simp]: "a \<notin> set (caddrs ctx) \<Longrightarrow> ctx_at nl (H(a := x)) ctx q = ctx_at nl H ctx q"
  by (rule ctx_at_cong) auto

text \<open>\<open>rep T t\<close>: the tree \<open>T\<close> of the program is \<open>t\<close>; the links of its nil node are unwritten.\<close>

definition nil_ok :: "rbtree \<Rightarrow> bool" where
  "nil_ok T \<longleftrightarrow>
     (\<exists>n. rb_heap T (rb_nil T) = Some n \<and> ncolor n = Some BLACK \<and> nleft n = None \<and> nright n = None \<and>
          nkey n = Some [])"

definition rep :: "rbtree \<Rightarrow> rt \<Rightarrow> bool" where
  "rep T t \<longleftrightarrow>
     rb_root T = ptr (rb_nil T) t \<and> tree_at (rb_nil T) (rb_heap T) (rb_nil T) t \<and>
     distinct (addrs t) \<and> rb_nil T \<notin> set (addrs t) \<and> nil_ok T \<and>
     set (addrs t) \<subseteq> {1..<rb_fresh T} \<and> rb_nil T < rb_fresh T"

text \<open>What an operation on the nodes leaves alone.\<close>

definition same_nil :: "rbtree \<Rightarrow> rbtree \<Rightarrow> bool" where
  "same_nil T T' \<longleftrightarrow>
     rb_nil T' = rb_nil T \<and> rb_fresh T' = rb_fresh T \<and> rb_count T' = rb_count T \<and>
     rb_heap T' (rb_nil T) = rb_heap T (rb_nil T)"

lemma same_nil_refl [simp]: "same_nil T T"
  by (simp add: same_nil_def)

lemma same_nil_trans: "same_nil T T' \<Longrightarrow> same_nil T' T'' \<Longrightarrow> same_nil T T''"
  by (simp add: same_nil_def)

lemma same_nil_ok: "same_nil T T' \<Longrightarrow> nil_ok T' = nil_ok T"
  by (simp add: same_nil_def nil_ok_def)

lemma rep_plug:
  "rep T (plug ctx t) \<longleftrightarrow>
     rb_root T = croot ctx (ptr (rb_nil T) t) \<and>
     tree_at (rb_nil T) (rb_heap T) (cpar (rb_nil T) ctx) t \<and>
     ctx_at (rb_nil T) (rb_heap T) ctx (ptr (rb_nil T) t) \<and>
     distinct (addrs t) \<and> distinct (caddrs ctx) \<and> set (addrs t) \<inter> set (caddrs ctx) = {} \<and>
     rb_nil T \<notin> set (addrs t) \<and> rb_nil T \<notin> set (caddrs ctx) \<and> nil_ok T \<and>
     set (addrs t) \<subseteq> {1..<rb_fresh T} \<and> set (caddrs ctx) \<subseteq> {1..<rb_fresh T} \<and>
     rb_nil T < rb_fresh T"
  by (auto simp: rep_def tree_at_plug distinct_plug set_addrs_plug ptr_plug)

text \<open>Reading a node.\<close>

lemma rd_node:
  assumes "rep T (plug ctx (Bin l a c k v r))"
  shows "rd ncolor T a = Inr (enc c)" "rd nleft T a = Inr (ptr (rb_nil T) l)"
    "rd nright T a = Inr (ptr (rb_nil T) r)" "rd nparent T a = Inr (cpar (rb_nil T) ctx)"
    "rd nkey T a = Inr k" "rd nvalue T a = Inr v"
  using assms by (simp_all add: rep_plug rd_def mk_def)

fun color :: "rt \<Rightarrow> col" where
  "color Tip = B"
| "color (Bin l a c k v r) = c"

lemma rd_color: "rep T (plug ctx t) \<Longrightarrow> rd ncolor T (ptr (rb_nil T) t) = Inr (enc (color t))"
  by (cases t) (auto simp: rep_plug rd_def mk_def nil_ok_def)

lemma rep_distinct_ptr:
  assumes "rep T (plug ctx (Bin l a c k v r))"
  shows "a \<noteq> rb_nil T" "ptr (rb_nil T) l \<noteq> a" "ptr (rb_nil T) r \<noteq> a"
    "ptr (rb_nil T) l = ptr (rb_nil T) r \<longleftrightarrow> l = Tip \<and> r = Tip"
    "ptr (rb_nil T) l = rb_nil T \<longleftrightarrow> l = Tip" "ptr (rb_nil T) r = rb_nil T \<longleftrightarrow> r = Tip"
  using assms by (cases l; cases r; auto simp: rep_plug)+

text \<open>Changing the color, or the contents, of a node.\<close>

lemma wr_node:
  assumes rep: "rep T (plug ctx (Bin l a c k v r))"
    and f: "f (mk c (ptr (rb_nil T) l) (ptr (rb_nil T) r) (cpar (rb_nil T) ctx) k v) =
            mk c' (ptr (rb_nil T) l) (ptr (rb_nil T) r) (cpar (rb_nil T) ctx) k' v'"
  shows "\<exists>T'. wr f a T = Inr T' \<and> rep T' (plug ctx (Bin l a c' k' v' r)) \<and> same_nil T T'"
proof -
  let ?T = "T\<lparr>rb_heap := (rb_heap T)(a \<mapsto> mk c' (ptr (rb_nil T) l) (ptr (rb_nil T) r)
      (cpar (rb_nil T) ctx) k' v')\<rparr>"
  have "same_nil T ?T"
    using rep by (auto simp: rep_plug same_nil_def)
  moreover have "wr f a T = Inr ?T"
    using rep f by (simp add: rep_plug wr_def)
  moreover have "rep ?T (plug ctx (Bin l a c' k' v' r))"
    using rep same_nil_ok [OF \<open>same_nil T ?T\<close>] by (simp add: rep_plug)
  ultimately show ?thesis by blast
qed

lemma set_color_node:
  assumes rep: "rep T (plug ctx (Bin l a c k v r))"
  shows "\<exists>T'. set_color a (enc c') T = Inr T' \<and> rep T' (plug ctx (Bin l a c' k v r)) \<and> same_nil T T'"
  by (rule wr_node [OF rep]) (simp add: mk_def)

section \<open>Rotations on the tree\<close>

text \<open>The parent's link to a subtree, or the root, is set to another one.\<close>

lemma relink_left_ctx:
  assumes ctx: "rb_root T = croot ctx x" "ctx_at (rb_nil T) (rb_heap T) ctx x"
    and dist: "distinct (caddrs ctx)" "x \<notin> set (caddrs ctx)" "x \<noteq> rb_nil T" "rb_nil T \<notin> set (caddrs ctx)"
  shows "\<exists>T'. relink_left x y (cpar (rb_nil T) ctx) T = Inr T' \<and> rb_root T' = croot ctx y \<and>
    ctx_at (rb_nil T) (rb_heap T') ctx y \<and> rb_nil T' = rb_nil T \<and> rb_fresh T' = rb_fresh T \<and>
    rb_count T' = rb_count T \<and> (\<forall>q. q \<notin> set (caddrs ctx) \<longrightarrow> rb_heap T' q = rb_heap T q)"
proof (cases ctx rule: caddrs.cases)
  case 1
  then show ?thesis by (simp add: relink_left_def)
next
  case (2 a c k v r ctx')
  with assms show ?thesis by (auto simp: relink_left_def rd_def wr_def mk_def)
next
  case (3 l a c k v ctx')
  then have "ptr (rb_nil T) l \<noteq> x"
    using dist by (cases l) auto
  with 3 assms show ?thesis by (auto simp: relink_left_def rd_def wr_def mk_def)
qed

text \<open>The parent link of the root of a subtree.\<close>

lemma reparent_tree:
  assumes t: "tree_at (rb_nil T) (rb_heap T) p t"
    and dist: "distinct (addrs t)" "rb_nil T \<notin> set (addrs t)"
  shows "\<exists>H. (if ptr (rb_nil T) t \<noteq> rb_nil T then set_parent (ptr (rb_nil T) t) q T else Inr T) =
      Inr (T\<lparr>rb_heap := H\<rparr>) \<and> tree_at (rb_nil T) H q t \<and> (\<forall>a. a \<notin> set (addrs t) \<longrightarrow> H a = rb_heap T a)"
proof (cases t)
  case Tip
  then show ?thesis by (intro exI [of _ "rb_heap T"]) simp
next
  case (Bin l a c k v r)
  with assms show ?thesis
    by (intro exI [of _ "(rb_heap T)(a \<mapsto> mk c (ptr (rb_nil T) l) (ptr (rb_nil T) r) q k v)"])
      (auto simp: wr_def mk_def)
qed

lemma left_rotate_rep:
  assumes rep: "rep T (plug ctx (Bin a x xc xk xv (Bin b y yc yk yv c)))"
  shows "\<exists>T'. rbtree_left_rotate T x = Inr T' \<and>
    rep T' (plug ctx (Bin (Bin a x xc xk xv b) y yc yk yv c)) \<and> same_nil T T'"
proof -
  let ?nl = "rb_nil T" and ?p = "cpar (rb_nil T) ctx"
  let ?B = "ptr ?nl b"
  note r = rep [unfolded rep_plug, simplified]
  have d: "q \<notin> set (addrs b)" "q \<noteq> x" "q \<noteq> y" if "q \<in> set (caddrs ctx) \<union> set (addrs a) \<union> set (addrs c)" for q
    using that r by blast+
  have e: "q \<notin> set (caddrs ctx)" "q \<noteq> x" "q \<noteq> y" if "q \<in> set (addrs b)" for q
    using that r by blast+
  have f: "q \<notin> set (caddrs ctx)" if "q \<in> set (addrs a) \<union> set (addrs c)" for q
    using that r by blast
  define T1 where "T1 = T\<lparr>rb_heap := (rb_heap T)(x \<mapsto> mk xc (ptr ?nl a) ?B ?p xk xv)\<rparr>"
  have T1: "rb_nil T1 = ?nl" "tree_at ?nl (rb_heap T1) y b"
    using r by (simp_all add: T1_def)
  obtain H2 where H2: "(if ?B \<noteq> ?nl then set_parent ?B x T1 else Inr T1) = Inr (T1\<lparr>rb_heap := H2\<rparr>)"
    "tree_at ?nl H2 x b" "\<forall>q. q \<notin> set (addrs b) \<longrightarrow> H2 q = rb_heap T1 q"
    using reparent_tree [of T1 y b x, unfolded T1(1)] T1(2) r by blast
  define T3 where "T3 = T\<lparr>rb_heap := H2(y \<mapsto> mk yc ?B (ptr ?nl c) ?p yk yv)\<rparr>"
  have "rb_heap T3 q = rb_heap T q" if "q \<in> set (caddrs ctx)" for q
    using d [of q] that H2(3) by (simp add: T3_def T1_def)
  then have ctx3: "ctx_at ?nl (rb_heap T3) ctx x"
    using r ctx_at_cong [of ctx "rb_heap T3" "rb_heap T"] by simp
  obtain T4 where T4: "relink_left x y ?p T3 = Inr T4" "rb_root T4 = croot ctx y"
    "ctx_at ?nl (rb_heap T4) ctx y" "rb_nil T4 = ?nl" "rb_fresh T4 = rb_fresh T" "rb_count T4 = rb_count T"
    "\<forall>q. q \<notin> set (caddrs ctx) \<longrightarrow> rb_heap T4 q = rb_heap T3 q"
    using relink_left_ctx [of T3 ctx x y] ctx3 r by (auto simp: T3_def)
  define T' where "T' = T4\<lparr>rb_heap := (rb_heap T4)(y \<mapsto> mk yc x (ptr ?nl c) ?p yk yv,
      x \<mapsto> mk xc (ptr ?nl a) ?B y xk xv)\<rparr>"
  have hx: "H2 x = Some (mk xc (ptr ?nl a) ?B ?p xk xv)" "H2 y = Some (mk yc ?B (ptr ?nl c) x yk yv)"
    using H2(3) r by (auto simp: T1_def)
  have h4: "rb_heap T4 x = H2 x" "rb_heap T4 y = Some (mk yc ?B (ptr ?nl c) ?p yk yv)"
    using T4(7) r by (auto simp: T3_def)
  have "rd nright T x = Inr y" "rd nleft T y = Inr ?B" "set_right x ?B T = Inr T1"
    using r by (simp_all add: rd_def wr_def mk_def T1_def)
  moreover have "rd nparent (T1\<lparr>rb_heap := H2\<rparr>) x = Inr ?p" "set_parent y ?p (T1\<lparr>rb_heap := H2\<rparr>) = Inr T3"
    using hx by (simp_all add: rd_def wr_def mk_def T3_def T1_def)
  moreover have "rbind (set_left y x T4) (set_parent x y) = Inr T'"
    using hx h4 r by (simp add: wr_def mk_def T'_def)
  ultimately have run: "rbtree_left_rotate T x = Inr T'"
    by (simp only: rbtree_left_rotate_def rbind.simps T1 H2(1) T4(1))
  have off: "rb_heap T' q = rb_heap T q" if "q \<notin> set (caddrs ctx)" "q \<notin> set (addrs b)" "q \<noteq> x" "q \<noteq> y" for q
    using that T4(7) H2(3) by (auto simp: T'_def T3_def T1_def)
  have on: "rb_heap T' q = H2 q" if "q \<in> set (addrs b)" for q
    using e [OF that] T4(7) by (simp add: T'_def T3_def)
  have same: "same_nil T T'"
    using off [of ?nl] r T4 by (auto simp: same_nil_def T'_def)
  have sub: "tree_at ?nl (rb_heap T') x a" "tree_at ?nl (rb_heap T') x b" "tree_at ?nl (rb_heap T') y c"
    using r H2(2) tree_at_cong [of a "rb_heap T'" "rb_heap T", OF off] tree_at_cong [of b "rb_heap T'" H2, OF on]
      tree_at_cong [of c "rb_heap T'" "rb_heap T", OF off] d f
    by simp_all
  have "rep T' (plug ctx (Bin (Bin a x xc xk xv b) y yc yk yv c))"
    unfolding rep_plug
    using r sub T4 same_nil_ok [OF same] by (auto simp: T'_def)
  with run same show ?thesis by blast
qed

section \<open>Left and right\<close>

text \<open>
  The code for the right side is the code for the left side with left and right exchanged. \<open>flip\<close>
  exchanges the links of every node, so that what holds on the left side holds on the right.
\<close>

definition flip_node :: "rbtree_node \<Rightarrow> rbtree_node" where
  "flip_node n = n\<lparr>nleft := nright n, nright := nleft n\<rparr>"

definition flip :: "rbtree \<Rightarrow> rbtree" where
  "flip T = T\<lparr>rb_heap := (\<lambda>q. map_option flip_node (rb_heap T q))\<rparr>"

fun flipt :: "rt \<Rightarrow> rt" where
  "flipt Tip = Tip"
| "flipt (Bin l a c k v r) = Bin (flipt r) a c k v (flipt l)"

fun flipf :: "frame \<Rightarrow> frame" where
  "flipf (Lf a c k v r) = Rt (flipt r) a c k v"
| "flipf (Rt l a c k v) = Lf a c k v (flipt l)"

lemma flip_node_flip [simp]: "flip_node (flip_node n) = n"
  by (simp add: flip_node_def)

lemma flip_node_iff: "flip_node n = n' \<longleftrightarrow> n = flip_node n'"
  by auto

lemma map_flip_node_iff: "map_option flip_node x = map_option flip_node y \<longleftrightarrow> x = y"
  by (cases x; cases y) (auto simp: flip_node_iff)

lemma flip_flip [simp]: "flip (flip T) = T"
  by (simp add: flip_def option.map_comp comp_def option.map_ident)

lemma flipt_flipt [simp]: "flipt (flipt t) = t"
  by (induction t) auto

lemma flipf_flipf [simp]: "flipf (flipf f) = f"
  by (cases f) auto

lemma flip_fields [simp]:
  "rb_nil (flip T) = rb_nil T" "rb_root (flip T) = rb_root T" "rb_fresh (flip T) = rb_fresh T"
  "rb_count (flip T) = rb_count T"
  by (simp_all add: flip_def)

lemma flip_rd [simp]:
  "rd nleft (flip T) x = rd nright T x" "rd nright (flip T) x = rd nleft T x"
  "rd ncolor (flip T) x = rd ncolor T x" "rd nparent (flip T) x = rd nparent T x"
  by (cases "rb_heap T x"; simp add: rd_def flip_def flip_node_def)+

lemma flip_wr_any:
  assumes "\<And>n. flip_node (f n) = g (flip_node n)"
  shows "wr g x (flip T) = map_sum id flip (wr f x T)"
  using assms by (cases "rb_heap T x") (auto simp: wr_def flip_def fun_eq_iff)

lemma flip_wr [simp]:
  "set_color x c (flip T) = map_sum id flip (set_color x c T)"
  "set_parent x p (flip T) = map_sum id flip (set_parent x p T)"
  "set_left x p (flip T) = map_sum id flip (set_right x p T)"
  "set_right x p (flip T) = map_sum id flip (set_left x p T)"
  by (rule flip_wr_any, simp add: flip_node_def)+

lemma flip_root [simp]: "(flip T)\<lparr>rb_root := y\<rparr> = flip (T\<lparr>rb_root := y\<rparr>)"
  by (simp add: flip_def)

lemma rbind_map_sum [simp]: "rbind (map_sum id g r) k = rbind r (\<lambda>x. k (g x))"
  by (cases r) auto

lemma map_sum_rbind [simp]: "map_sum id g (rbind r k) = rbind r (\<lambda>x. map_sum id g (k x))"
  by (cases r) auto

lemma map_sum_if: "map_sum id g (if P then r else s) = (if P then map_sum id g r else map_sum id g s)"
  by simp

lemma if_map_sum: "(if P then map_sum id flip r else Inr (flip s)) = map_sum id flip (if P then r else Inr s)"
  by simp

lemma map_sum_flip_flip [simp]: "map_sum id flip (map_sum id flip r) = r"
  by (cases r) auto

lemma relink_flip: "relink_left x y p (flip T) = map_sum id flip (relink_right x y p T)"
  by (simp add: relink_left_def relink_right_def map_sum_if cong: if_cong)

lemma right_rotate_flip: "rbtree_right_rotate T x = map_sum id flip (rbtree_left_rotate (flip T) x)"
  by (simp add: rbtree_left_rotate_def rbtree_right_rotate_def if_map_sum relink_flip cong: if_cong)

lemma flip_rotate:
  "rbtree_left_rotate (flip T) x = map_sum id flip (rbtree_right_rotate T x)"
  "rbtree_right_rotate (flip T) x = map_sum id flip (rbtree_left_rotate T x)"
  by (simp_all add: right_rotate_flip)

lemma flip_plug: "flipt (plug ctx t) = plug (map flipf ctx) (flipt t)"
  by (induction ctx t rule: plug.induct) auto

lemma addrs_flipt [simp]: "addrs (flipt t) = rev (addrs t)"
  by (induction t) auto

lemma contents_flipt [simp]: "contents (flipt t) = rev (contents t)"
  by (induction t) auto

lemma ptr_flipt [simp]: "ptr nl (flipt t) = ptr nl t"
  by (cases t) auto

lemma cpar_flipf [simp]: "cpar nl (map flipf ctx) = cpar nl ctx"
  by (cases ctx rule: caddrs.cases) auto

lemma tree_at_flip: "tree_at nl (\<lambda>q. map_option flip_node (H q)) p (flipt t) = tree_at nl H p t"
proof (induction t arbitrary: p)
  case (Bin l a c k v r)
  have "map_option flip_node x = Some (mk c rr ll q k v) \<longleftrightarrow> x = Some (mk c ll rr q k v)" for x ll rr q
    by (cases x) (auto simp: flip_node_iff, simp_all add: flip_node_def mk_def)
  with Bin show ?case by auto
qed simp

lemma nil_ok_flip: "nil_ok (flip T) = nil_ok T"
  by (auto simp: nil_ok_def flip_def flip_node_def)

lemma rep_flip: "rep (flip T) (flipt t) = rep T t"
  using tree_at_flip [of "rb_nil T" "rb_heap T"] by (simp add: rep_def nil_ok_flip) (simp add: flip_def)

lemma same_nil_flip: "same_nil (flip T) (flip T') = same_nil T T'"
  by (simp add: same_nil_def) (simp add: flip_def map_flip_node_iff)

lemma right_rotate_rep:
  assumes rep: "rep T (plug ctx (Bin (Bin a x xc xk xv b) y yc yk yv c))"
  shows "\<exists>T'. rbtree_right_rotate T y = Inr T' \<and>
    rep T' (plug ctx (Bin a x xc xk xv (Bin b y yc yk yv c))) \<and> same_nil T T'"
proof -
  have "rep (flip T) (plug (map flipf ctx) (Bin (flipt c) y yc yk yv (Bin (flipt b) x xc xk xv (flipt a))))"
    using rep [folded rep_flip [of T]] by (simp add: flip_plug)
  from left_rotate_rep [OF this] obtain T' where
    T': "rbtree_left_rotate (flip T) y = Inr T'" "same_nil (flip T) T'"
    "rep T' (flipt (plug ctx (Bin a x xc xk xv (Bin b y yc yk yv c))))"
    by (auto simp: flip_plug)
  moreover have "rep (flip T') (plug ctx (Bin a x xc xk xv (Bin b y yc yk yv c)))" "same_nil T (flip T')"
    using T' rep_flip [of "flip T'"] same_nil_flip [of T "flip T'"] by simp_all
  ultimately show ?thesis by (simp add: right_rotate_flip)
qed

end
