(* ===== verification/RbInsert.thy ===== *)
theory RbInsert
  imports RbShape
begin

text \<open>
  Insertion keeps the tree red-black. The loop of \<open>rbtree_insert_fixup\<close> is followed on the tree
  with a hole: the node it works on is the red root of the subtree in the hole, everything
  around it satisfies the invariant, and only the parent may be red as well.
\<close>

section \<open>The red-black invariant\<close>

fun bh :: "rt \<Rightarrow> nat" where
  "bh Tip = 0"
| "bh (Bin l a c k v r) = bh l + (if c = B then 1 else 0)"

fun invc :: "rt \<Rightarrow> bool" where
  "invc Tip = True"
| "invc (Bin l a c k v r) \<longleftrightarrow> (c = R \<longrightarrow> color l = B \<and> color r = B) \<and> invc l \<and> invc r"

fun invh :: "rt \<Rightarrow> bool" where
  "invh Tip = True"
| "invh (Bin l a c k v r) \<longleftrightarrow> bh l = bh r \<and> invh l \<and> invh r"

definition red_black :: "rt \<Rightarrow> bool" where
  "red_black t \<longleftrightarrow> invc t \<and> invh t \<and> color t = B"

fun pcol :: "frame list \<Rightarrow> col" where
  "pcol [] = B"
| "pcol (Lf a c k v r # ctx) = c"
| "pcol (Rt l a c k v # ctx) = c"

text \<open>What surrounds a hole for a subtree of black height \<open>h\<close>.\<close>

fun ctx_inv :: "frame list \<Rightarrow> nat \<Rightarrow> bool" where
  "ctx_inv [] h \<longleftrightarrow> True"
| "ctx_inv (Lf a c k v r # ctx) h \<longleftrightarrow> invc r \<and> invh r \<and> bh r = h \<and>
     (c = R \<longrightarrow> color r = B \<and> pcol ctx = B \<and> ctx \<noteq> []) \<and> ctx_inv ctx (h + (if c = B then 1 else 0))"
| "ctx_inv (Rt l a c k v # ctx) h \<longleftrightarrow> invc l \<and> invh l \<and> bh l = h \<and>
     (c = R \<longrightarrow> color l = B \<and> pcol ctx = B \<and> ctx \<noteq> []) \<and> ctx_inv ctx (h + (if c = B then 1 else 0))"

lemma col_cases [simp]: "c \<noteq> R \<longleftrightarrow> c = B" "c \<noteq> B \<longleftrightarrow> c = R"
  by (cases c; simp)+

lemma color_plug: "ctx \<noteq> [] \<Longrightarrow> ctx_inv ctx h \<Longrightarrow> color (plug ctx t) = B"
proof (induction ctx t arbitrary: h rule: plug.induct)
  case (2 a c k v r ctx t)
  then show ?case by (cases "ctx = []") auto
next
  case (3 l a c k v ctx t)
  then show ?case by (cases "ctx = []") auto
qed simp

lemma plug_inv:
  "ctx_inv ctx (bh t) \<Longrightarrow> invc t \<Longrightarrow> invh t \<Longrightarrow> (color t = R \<longrightarrow> pcol ctx = B) \<Longrightarrow>
   invc (plug ctx t) \<and> invh (plug ctx t)"
proof (induction ctx t rule: plug.induct)
  case (2 a c k v r ctx t)
  have "ctx_inv ctx (bh (Bin t a c k v r))" "invc (Bin t a c k v r)" "invh (Bin t a c k v r)"
    "color (Bin t a c k v r) = R \<longrightarrow> pcol ctx = B"
    using "2.prems" by auto
  from "2.IH" [OF this] show ?case by simp
next
  case (3 l a c k v ctx t)
  have "ctx_inv ctx (bh (Bin l a c k v t))" "invc (Bin l a c k v t)" "invh (Bin l a c k v t)"
    "color (Bin l a c k v t) = R \<longrightarrow> pcol ctx = B"
    using "3.prems" by auto
  from "3.IH" [OF this] show ?case by simp
qed simp

lemma plug_invD:
  "invc (plug ctx t) \<Longrightarrow> invh (plug ctx t) \<Longrightarrow> color (plug ctx t) = B \<Longrightarrow>
   ctx_inv ctx (bh t) \<and> invc t \<and> invh t \<and> (color t = R \<longrightarrow> pcol ctx = B \<and> ctx \<noteq> [])"
  by (induction ctx t rule: plug.induct) auto

lemma flip_inv [simp]:
  "color (flipt t) = color t" "invc (flipt t) = invc t" "invh t \<Longrightarrow> bh (flipt t) = bh t"
  "invh (flipt t) = invh t"
proof -
  show color: "color (flipt t) = color t" for t
    by (cases t) auto
  show "invc (flipt t) = invc t"
    by (induction t) (auto simp: color)
  have *: "(invh t \<longrightarrow> bh (flipt t) = bh t) \<and> (invh (flipt t) \<longrightarrow> bh (flipt t) = bh t) \<and> invh (flipt t) = invh t"
    by (induction t) auto
  then show "invh t \<Longrightarrow> bh (flipt t) = bh t" "invh (flipt t) = invh t" by auto
qed

lemma pcol_flipf [simp]: "pcol (map flipf ctx) = pcol ctx"
  by (cases ctx rule: caddrs.cases) auto

lemma ctx_inv_flipf [simp]: "ctx_inv (map flipf ctx) h = ctx_inv ctx h"
  by (induction ctx h rule: ctx_inv.induct) auto

lemma bh_pos: "color t = B \<Longrightarrow> t \<noteq> Tip \<Longrightarrow> 0 < bh t"
  by (cases t) auto

section \<open>The loop of the fixup\<close>

definition ins_state :: "rbtree \<Rightarrow> (addr \<times> string \<times> vptr) list \<Rightarrow> addr \<Rightarrow> nat \<Rightarrow> bool" where
  "ins_state T xs z m \<longleftrightarrow>
     (\<exists>ctx l k v r. rep T (plug ctx (Bin l z R k v r)) \<and> contents (plug ctx (Bin l z R k v r)) = xs \<and>
        ctx_inv ctx (bh l) \<and> invc (Bin l z R k v r) \<and> invh (Bin l z R k v r) \<and>
        m = (if pcol ctx = R then length ctx else 0))"

lemma ins_stateI:
  "rep T (plug ctx (Bin l z R k v r)) \<Longrightarrow> contents (plug ctx (Bin l z R k v r)) = xs \<Longrightarrow>
   ctx_inv ctx (bh l) \<Longrightarrow> invc (Bin l z R k v r) \<Longrightarrow> invh (Bin l z R k v r) \<Longrightarrow>
   m = (if pcol ctx = R then length ctx else 0) \<Longrightarrow> ins_state T xs z m"
  unfolding ins_state_def by blast

lemma ins_state_flip: "ins_state T xs z m \<Longrightarrow> ins_state (flip T) (rev xs) z m"
proof -
  assume "ins_state T xs z m"
  then obtain ctx l k v r where s: "rep T (plug ctx (Bin l z R k v r))"
    "contents (plug ctx (Bin l z R k v r)) = xs" "ctx_inv ctx (bh l)" "invc (Bin l z R k v r)"
    "invh (Bin l z R k v r)" "m = (if pcol ctx = R then length ctx else 0)"
    unfolding ins_state_def by blast
  have f: "plug (map flipf ctx) (Bin (flipt r) z R k v (flipt l)) = flipt (plug ctx (Bin l z R k v r))"
    by (simp add: flip_plug)
  show ?thesis
  proof (rule ins_stateI [of _ "map flipf ctx" "flipt r" z k v "flipt l"], unfold f)
    show "rep (flip T) (flipt (plug ctx (Bin l z R k v r)))"
      using s(1) by (simp only: rep_flip)
    show "contents (flipt (plug ctx (Bin l z R k v r))) = rev xs"
      using s(2) by (simp only: contents_flipt)
  qed (use s in auto)
qed
text \<open>A red uncle: parent and uncle become black, the grandparent red.\<close>

lemma recolor_family:
  assumes rep: "rep T (plug ctx (Bin (Bin a p R pk pv b) g B gk gv (Bin c y R yk yv d)))"
  shows "\<exists>T'. rbind (set_color p BLACK T) (\<lambda>T1. rbind (set_color y BLACK T1) (\<lambda>T2.
      rbind (set_color g RED T2) (\<lambda>T3. Inr (g, T3)))) = Inr (g, T') \<and>
    rep T' (plug ctx (Bin (Bin a p B pk pv b) g R gk gv (Bin c y B yk yv d))) \<and> same_nil T T'"
proof -
  obtain T1 where T1: "set_color p BLACK T = Inr T1"
    "rep T1 (plug ctx (Bin (Bin a p B pk pv b) g B gk gv (Bin c y R yk yv d)))" "same_nil T T1"
    using set_color_node [of T "Lf g B gk gv (Bin c y R yk yv d) # ctx" a p R pk pv b B] rep by auto
  obtain T2 where T2: "set_color y BLACK T1 = Inr T2"
    "rep T2 (plug ctx (Bin (Bin a p B pk pv b) g B gk gv (Bin c y B yk yv d)))" "same_nil T1 T2"
    using set_color_node [of T1 "Rt (Bin a p B pk pv b) g B gk gv # ctx" c y R yk yv d B] T1(2) by auto
  obtain T3 where "set_color g RED T2 = Inr T3" "same_nil T2 T3"
    "rep T3 (plug ctx (Bin (Bin a p B pk pv b) g R gk gv (Bin c y B yk yv d)))"
    using set_color_node [OF T2(2), of R] by auto
  with T1 T2 show ?thesis
    by (auto intro: same_nil_trans)
qed

text \<open>A black uncle: the parent becomes black and takes the grandparent's place.\<close>

lemma raise_parent:
  assumes rep: "rep T (plug ctx (Bin (Bin (Bin a z R zk zv b) p R pk pv c) g B gk gv u))"
  shows "\<exists>T'. rbind (rd nparent T z) (\<lambda>p1. rbind (set_color p1 BLACK T) (\<lambda>T2.
      rbind (rd nparent T2 p1) (\<lambda>g1. rbind (set_color g1 RED T2) (\<lambda>T3.
      rbind (rbtree_right_rotate T3 g1) (\<lambda>T4. Inr (z, T4)))))) = Inr (z, T') \<and>
    rep T' (plug ctx (Bin (Bin a z R zk zv b) p B pk pv (Bin c g R gk gv u))) \<and> same_nil T T'"
proof -
  let ?z = "Bin a z R zk zv b"
  have 1: "rd nparent T z = Inr p"
    using rd_node(4) [of T "Lf p R pk pv c # Lf g B gk gv u # ctx" a z] rep by simp
  obtain T2 where T2: "set_color p BLACK T = Inr T2"
    "rep T2 (plug ctx (Bin (Bin ?z p B pk pv c) g B gk gv u))" "same_nil T T2"
    using set_color_node [of T "Lf g B gk gv u # ctx" ?z p R pk pv c B] rep by auto
  have 2: "rd nparent T2 p = Inr g"
    using rd_node(4) [of T2 "Lf g B gk gv u # ctx" ?z p] T2(2) by simp
  obtain T3 where T3: "set_color g RED T2 = Inr T3"
    "rep T3 (plug ctx (Bin (Bin ?z p B pk pv c) g R gk gv u))" "same_nil T2 T3"
    using set_color_node [OF T2(2), of R] by auto
  obtain T4 where "rbtree_right_rotate T3 g = Inr T4" "same_nil T3 T4"
    "rep T4 (plug ctx (Bin ?z p B pk pv (Bin c g R gk gv u)))"
    using right_rotate_rep [OF T3(2)] by auto
  with 1 2 T2 T3 show ?thesis
    by (auto intro: same_nil_trans)
qed

lemma insert_turn_left_ok:
  assumes rep: "rep T (plug ctx (Bin (Bin l p R pk pv r) g B gk gv u))"
    and cont: "contents (plug ctx (Bin (Bin l p R pk pv r) g B gk gv u)) = xs"
    and z: "l = Bin a z R zk zv b \<and> color r = B \<or> r = Bin a z R zk zv b \<and> color l = B"
    and inv: "ctx_inv ctx (Suc (bh u))" "invc u" "invh u" "invc l" "invc r" "invh l" "invh r"
      "bh l = bh u" "bh r = bh u"
    and m: "length ctx < m"
  shows "\<exists>z' T' m'. insert_turn_left T z p g = Inr (z', T') \<and> same_nil T T' \<and> ins_state T' xs z' m' \<and> m' < m"
proof -
  have g: "rd nright T g = Inr (ptr (rb_nil T) u)" "rd ncolor T (ptr (rb_nil T) u) = Inr (enc (color u))"
    using rd_node(3) [OF rep] rd_color [of T "Rt (Bin l p R pk pv r) g B gk gv # ctx" u] rep by simp_all
  show ?thesis
  proof (cases "color u")
    case R
    then obtain c y yk yv d where u: "u = Bin c y R yk yv d"
      by (cases u) auto
    obtain T' where T': "insert_turn_left T z p g = Inr (g, T')" "same_nil T T'"
      "rep T' (plug ctx (Bin (Bin l p B pk pv r) g R gk gv (Bin c y B yk yv d)))"
      using recolor_family [OF rep [unfolded u]] g R u by (auto simp: insert_turn_left_def)
    have "ins_state T' xs g (if pcol ctx = R then length ctx else 0)"
      by (rule ins_stateI [OF T'(3)]) (use inv cont u in \<open>auto simp: contents_plug\<close>)
    with T' m show ?thesis by (intro exI [of _ g] exI [of _ T'] exI) auto
  next
    case B
    have p: "rd nright T p = Inr (ptr (rb_nil T) r)"
      using rd_node(3) [of T "Lf g B gk gv u # ctx" l p] rep by simp
    show ?thesis
    proof (cases "l = Bin a z R zk zv b \<and> color r = B")
      case True
      then have "z \<noteq> ptr (rb_nil T) r"
        using rep_distinct_ptr(4) [of T "Lf g B gk gv u # ctx" l p R pk pv r] rep by auto
      moreover obtain T' where T': "same_nil T T'"
        "rep T' (plug ctx (Bin l p B pk pv (Bin r g R gk gv u)))"
        "rbind (rd nparent T z) (\<lambda>p1. rbind (set_color p1 BLACK T) (\<lambda>T2.
          rbind (rd nparent T2 p1) (\<lambda>g1. rbind (set_color g1 RED T2) (\<lambda>T3.
          rbind (rbtree_right_rotate T3 g1) (\<lambda>T4. Inr (z, T4)))))) = Inr (z, T')"
        using raise_parent [of T ctx a z zk zv b p pk pv r g gk gv u] rep True by auto
      ultimately have "insert_turn_left T z p g = Inr (z, T')"
        using g p B by (simp add: insert_turn_left_def)
      moreover have "ins_state T' xs z 0"
        by (rule ins_stateI [of T' "Lf p B pk pv (Bin r g R gk gv u) # ctx" a z zk zv b])
          (use T' True inv cont B in \<open>auto simp: contents_plug\<close>)
      ultimately show ?thesis using T'(1) m by (intro exI [of _ z] exI [of _ T'] exI [of _ 0]) auto
    next
      case False
      with z have r: "r = Bin a z R zk zv b" and l: "color l = B" by auto
      obtain T1 where T1: "rbtree_left_rotate T p = Inr T1" "same_nil T T1"
        "rep T1 (plug ctx (Bin (Bin (Bin l p R pk pv a) z R zk zv b) g B gk gv u))"
        using left_rotate_rep [of T "Lf g B gk gv u # ctx" l p R pk pv a z R zk zv b] rep r by auto
      obtain T' where T': "same_nil T1 T'"
        "rep T' (plug ctx (Bin (Bin l p R pk pv a) z B zk zv (Bin b g R gk gv u)))"
        "rbind (rd nparent T1 p) (\<lambda>p1. rbind (set_color p1 BLACK T1) (\<lambda>T2.
          rbind (rd nparent T2 p1) (\<lambda>g1. rbind (set_color g1 RED T2) (\<lambda>T3.
          rbind (rbtree_right_rotate T3 g1) (\<lambda>T4. Inr (p, T4)))))) = Inr (p, T')"
        using raise_parent [OF T1(3)] by auto
      have "insert_turn_left T z p g = Inr (p, T')"
        using g p B r T1(1) T'(3) by (simp add: insert_turn_left_def)
      moreover have "ins_state T' xs p 0"
        by (rule ins_stateI [of T' "Lf z B zk zv (Bin b g R gk gv u) # ctx" l p pk pv a])
          (use T' r l inv cont B in \<open>auto simp: contents_plug\<close>)
      ultimately show ?thesis
        using same_nil_trans [OF T1(2) T'(1)] m by (intro exI [of _ p] exI [of _ T'] exI [of _ 0]) auto
    qed
  qed
qed

lemma insert_turn_right_flip:
  "insert_turn_right T z p g = map_sum id (apsnd flip) (insert_turn_left (flip T) z p g)"
  by (simp add: insert_turn_left_def insert_turn_right_def flip_rotate rbind_if rbind_assoc
      if_distrib [of "map_sum id (apsnd flip)"] cong: if_cong)

lemma insert_turn_right_ok:
  assumes rep: "rep T (plug ctx (Bin u g B gk gv (Bin l p R pk pv r)))"
    and cont: "contents (plug ctx (Bin u g B gk gv (Bin l p R pk pv r))) = xs"
    and z: "l = Bin a z R zk zv b \<and> color r = B \<or> r = Bin a z R zk zv b \<and> color l = B"
    and inv: "ctx_inv ctx (Suc (bh u))" "invc u" "invh u" "invc l" "invc r" "invh l" "invh r"
      "bh l = bh u" "bh r = bh u"
    and m: "length ctx < m"
  shows "\<exists>z' T' m'. insert_turn_right T z p g = Inr (z', T') \<and> same_nil T T' \<and> ins_state T' xs z' m' \<and> m' < m"
proof -
  let ?t = "Bin u g B gk gv (Bin l p R pk pv r)"
  have f: "plug (map flipf ctx) (Bin (Bin (flipt r) p R pk pv (flipt l)) g B gk gv (flipt u)) =
      flipt (plug ctx ?t)"
    by (simp add: flip_plug)
  have "\<exists>z' T' m'. insert_turn_left (flip T) z p g = Inr (z', T') \<and> same_nil (flip T) T' \<and>
      ins_state T' (rev xs) z' m' \<and> m' < m"
  proof (rule insert_turn_left_ok [of "flip T" "map flipf ctx" "flipt r" p pk pv "flipt l" g gk gv "flipt u"
        "rev xs" "flipt b" z zk zv "flipt a"], unfold f)
    show "rep (flip T) (flipt (plug ctx ?t))"
      using rep by (simp only: rep_flip)
    show "contents (flipt (plug ctx ?t)) = rev xs"
      using cont by (simp only: contents_flipt)
  qed (use z inv m in auto)
  then obtain z' T' m' where *: "insert_turn_left (flip T) z p g = Inr (z', T')" "same_nil (flip T) T'"
    "ins_state T' (rev xs) z' m'" "m' < m"
    by blast
  have "ins_state (flip T') xs z' m'" "same_nil T (flip T')"
    using ins_state_flip [OF *(3)] *(2) same_nil_flip [of T "flip T'"] by simp_all
  with * show ?thesis by (auto simp: insert_turn_right_flip)
qed

lemma insert_turn_ok:
  assumes s: "ins_state T xs z m" and m: "0 < m"
  shows "\<exists>p g gl z' T' m'. rd nparent T z = Inr p \<and> rd ncolor T p = Inr RED \<and> rd nparent T p = Inr g \<and>
    rd nleft T g = Inr gl \<and>
    (if p = gl then insert_turn_left T z p g else insert_turn_right T z p g) = Inr (z', T') \<and>
    same_nil T T' \<and> ins_state T' xs z' m' \<and> m' < m"
proof -
  obtain ctx l k v r where s: "rep T (plug ctx (Bin l z R k v r))"
    "contents (plug ctx (Bin l z R k v r)) = xs" "ctx_inv ctx (bh l)" "invc (Bin l z R k v r)"
    "invh (Bin l z R k v r)" "pcol ctx = R" "m = length ctx"
    using s m unfolding ins_state_def by (auto split: if_splits)
  let ?z = "Bin l z R k v r"
  obtain pl p pk pv pr ctx1 where ctx1: "plug ctx ?z = plug ctx1 (Bin pl p R pk pv pr)"
      "pl = ?z \<and> color pr = B \<or> pr = ?z \<and> color pl = B" "invc pl" "invc pr" "invh pl" "invh pr"
      "bh pl = bh l" "bh pr = bh l" "ctx_inv ctx1 (bh l)" "pcol ctx1 = B" "ctx1 \<noteq> []"
      "length ctx = Suc (length ctx1)" "cpar (rb_nil T) ctx = p"
    using s(3-6) by (cases ctx rule: caddrs.cases) auto
  have p: "rd nparent T z = Inr p" "rd ncolor T p = Inr RED" "rd nparent T p = Inr (cpar (rb_nil T) ctx1)"
    using rd_node(4) [OF s(1)] rd_node(1,4) [OF s(1) [unfolded ctx1(1)]] ctx1 by simp_all
  show ?thesis
  proof (cases ctx1 rule: caddrs.cases)
    case 1
    then show ?thesis using ctx1 by simp
  next
    case (2 g gc gk gv u ctx2)
    then have g: "gc = B" "rep T (plug ctx2 (Bin (Bin pl p R pk pv pr) g B gk gv u))"
      using ctx1 s by auto
    have "rd nleft T g = Inr p"
      using rd_node(2) [OF g(2)] by simp
    moreover have q: "contents (plug ctx2 (Bin (Bin pl p R pk pv pr) g B gk gv u)) = xs" "ctx_inv ctx2 (Suc (bh u))"
      "invc u" "invh u" "bh pl = bh u" "bh pr = bh u" "length ctx2 < m"
      using ctx1(1,7-12) 2 g(1) s(2,7) by auto
    note insert_turn_left_ok [OF g(2) q(1) ctx1(2) q(2-4) ctx1(3-6) q(5-7)]
    ultimately show ?thesis using p 2 by fastforce
  next
    case (3 u g gc gk gv ctx2)
    then have g: "gc = B" "rep T (plug ctx2 (Bin u g B gk gv (Bin pl p R pk pv pr)))"
      using ctx1 s by auto
    have "rd nleft T g = Inr (ptr (rb_nil T) u)" "ptr (rb_nil T) u \<noteq> p"
      using rd_node(2) [OF g(2)] rep_distinct_ptr(4) [OF g(2)] by auto
    moreover have q: "contents (plug ctx2 (Bin u g B gk gv (Bin pl p R pk pv pr))) = xs" "ctx_inv ctx2 (Suc (bh u))"
      "invc u" "invh u" "bh pl = bh u" "bh pr = bh u" "length ctx2 < m"
      using ctx1(1,7-12) 3 g(1) s(2,7) by auto
    note insert_turn_right_ok [OF g(2) q(1) ctx1(2) q(2-4) ctx1(3-6) q(5-7)]
    ultimately show ?thesis using p 3 by fastforce
  qed
qed

lemma ins_state_done:
  assumes "ins_state T xs z 0"
  shows "\<exists>ctx l k v r. rep T (plug ctx (Bin l z R k v r)) \<and> contents (plug ctx (Bin l z R k v r)) = xs \<and>
    ctx_inv ctx (bh l) \<and> invc (Bin l z R k v r) \<and> invh (Bin l z R k v r) \<and> pcol ctx = B"
proof -
  obtain ctx l k v r where s: "rep T (plug ctx (Bin l z R k v r))" "contents (plug ctx (Bin l z R k v r)) = xs"
    "ctx_inv ctx (bh l)" "invc (Bin l z R k v r)" "invh (Bin l z R k v r)"
    "0 = (if pcol ctx = R then length ctx else 0)"
    using assms unfolding ins_state_def by blast
  moreover have "pcol ctx = B"
    using s(6) by (cases ctx rule: caddrs.cases) (auto split: if_splits)
  ultimately show ?thesis by blast
qed

lemma insert_fixup_loop_ok:
  assumes "ins_state T xs z m" "m < n"
  shows "\<exists>T' z'. insert_fixup_loop n T z = Inr T' \<and> same_nil T T' \<and> ins_state T' xs z' 0"
  using assms
proof (induction n arbitrary: T z m)
  case (Suc n)
  show ?case
  proof (cases "m = 0")
    case True
    then obtain ctx l k v r where s: "rep T (plug ctx (Bin l z R k v r))" "pcol ctx = B"
      using ins_state_done Suc.prems(1) by blast
    then have "rd ncolor T (cpar (rb_nil T) ctx) = Inr BLACK"
    proof (cases ctx rule: caddrs.cases)
      case 1
      with s(1) show ?thesis by (auto simp: rep_def nil_ok_def rd_def)
    next
      case (2 a c k' v' r' ctx')
      with s rd_node(1) [of T ctx' "Bin l z R k v r" a c k' v' r'] show ?thesis by auto
    next
      case (3 l' a c k' v' ctx')
      with s rd_node(1) [of T ctx' l' a c k' v' "Bin l z R k v r"] show ?thesis by auto
    qed
    then show ?thesis
      using rd_node(4) [OF s(1)] Suc.prems True by (intro exI [of _ T] exI [of _ z]) auto
  next
    case False
    then obtain p g gl z' T' m' where *: "rd nparent T z = Inr p" "rd ncolor T p = Inr RED"
      "rd nparent T p = Inr g" "rd nleft T g = Inr gl"
      "(if p = gl then insert_turn_left T z p g else insert_turn_right T z p g) = Inr (z', T')"
      "same_nil T T'" "ins_state T' xs z' m'" "m' < m"
      using insert_turn_ok [OF Suc.prems(1)] by blast
    then obtain T'' z'' where "insert_fixup_loop n T' z' = Inr T''" "same_nil T' T''" "ins_state T'' xs z'' 0"
      using Suc.IH [of T' z' m'] Suc.prems(2) by auto
    with * show ?thesis
      using same_nil_trans [OF *(6)] by auto
  qed
qed simp

lemma rep_size:
  assumes "rep T t"
  shows "length (addrs t) < rb_fresh T" "length (addrs t) < steps T"
proof -
  have "card (set (addrs t)) \<le> card {1..<rb_fresh T}"
    using assms by (intro card_mono) (auto simp: rep_def)
  then show "length (addrs t) < rb_fresh T"
    using assms distinct_card [of "addrs t"] by (auto simp: rep_def)
  then show "length (addrs t) < steps T"
    by (simp add: steps_def)
qed

lemma length_ctx: "length ctx + length (addrs t) \<le> length (addrs (plug ctx t))"
  by (induction ctx t rule: plug.induct) auto

lemma rbtree_insert_fixup_ok:
  assumes "rep T (plug ctx (Bin l z R k v r))" "ctx_inv ctx (bh l)" "invc (Bin l z R k v r)"
    "invh (Bin l z R k v r)"
  shows "\<exists>T' t'. rbtree_insert_fixup T z = Inr T' \<and> rep T' t' \<and> red_black t' \<and> same_nil T T' \<and>
    contents t' = contents (plug ctx (Bin l z R k v r))"
proof -
  let ?xs = "contents (plug ctx (Bin l z R k v r))"
  have "ins_state T ?xs z (if pcol ctx = R then length ctx else 0)"
    using assms by (intro ins_stateI) auto
  moreover have "(if pcol ctx = R then length ctx else 0) < steps T"
    using rep_size(2) [OF assms(1)] length_ctx [of ctx "Bin l z R k v r"] by auto
  ultimately obtain T1 z1 where T1: "insert_fixup_loop (steps T) T z = Inr T1" "same_nil T T1"
    "ins_state T1 ?xs z1 0"
    using insert_fixup_loop_ok by blast
  then obtain ctx1 l1 k1 v1 r1 where s: "rep T1 (plug ctx1 (Bin l1 z1 R k1 v1 r1))"
    "contents (plug ctx1 (Bin l1 z1 R k1 v1 r1)) = ?xs" "ctx_inv ctx1 (bh l1)"
    "invc (Bin l1 z1 R k1 v1 r1)" "invh (Bin l1 z1 R k1 v1 r1)" "pcol ctx1 = B"
    using ins_state_done by blast
  have inv: "invc (plug ctx1 (Bin l1 z1 R k1 v1 r1))" "invh (plug ctx1 (Bin l1 z1 R k1 v1 r1))"
    using plug_inv [of ctx1 "Bin l1 z1 R k1 v1 r1"] s by auto
  obtain tl a c ak av tr where t: "plug ctx1 (Bin l1 z1 R k1 v1 r1) = Bin tl a c ak av tr"
    using s(2) by (cases "plug ctx1 (Bin l1 z1 R k1 v1 r1)") (auto simp: contents_plug)
  have root: "rb_root T1 = a"
    using s(1) by (simp add: rep_def t)
  obtain T' where "set_color a BLACK T1 = Inr T'" "rep T' (Bin tl a B ak av tr)" "same_nil T1 T'"
    using set_color_node [of T1 "[]" tl a c ak av tr B] s(1) by (auto simp: t)
  moreover have "red_black (Bin tl a B ak av tr)"
    using inv by (simp add: t red_black_def)
  ultimately show ?thesis
    using T1(1,2) s(2) root same_nil_trans [of T T1 T'] by (auto simp: rbtree_insert_fixup_def t)
qed

end
