(* ===== verification/RbSearch.thy ===== *)
theory RbSearch
  imports RbInsert
begin

text \<open>
  The tree as a search tree: \<open>strcmp\<close> is the lexicographic order of strings, the search finds the
  node of a key, and inserting a node with a new key adds the key to the contents in order.
\<close>

section \<open>The order of keys\<close>

lemma strcmp_order [simp]:
  "strcmp a b < 0 \<longleftrightarrow> a < b" "0 < strcmp a b \<longleftrightarrow> b < a"
  by (induction a b rule: strcmp.induct) (auto simp: linorder_neq_iff simp flip: less_char_def)

fun key_of :: "addr \<times> string \<times> vptr \<Rightarrow> string" where
  "key_of (a, k, v) = k"

definition bst :: "rt \<Rightarrow> bool" where
  "bst t \<longleftrightarrow> sorted_wrt (<) (map key_of (contents t))"

definition keys :: "rt \<Rightarrow> string set" where
  "keys t = key_of ` set (contents t)"

lemma keys_simps [simp]:
  "keys Tip = {}" "keys (Bin l a c k v r) = insert k (keys l \<union> keys r)"
  by (auto simp: keys_def)

lemma bst_simps [simp]:
  "bst Tip"
  "bst (Bin l a c k v r) \<longleftrightarrow> bst l \<and> bst r \<and> (\<forall>x \<in> keys l. x < k) \<and> (\<forall>x \<in> keys r. k < x)"
  by (auto simp: bst_def keys_def sorted_wrt_append dest: order.strict_trans)

lemma bst_plug:
  "bst (plug ctx t) \<Longrightarrow> bst t"
  by (induction ctx t rule: plug.induct) auto

section \<open>Searching\<close>

fun height :: "rt \<Rightarrow> nat" where
  "height Tip = 0"
| "height (Bin l a c k v r) = Suc (max (height l) (height r))"

lemma height_le: "height t \<le> length (addrs t)"
  by (induction t) auto

text \<open>A red-black tree of \<open>n\<close> nodes is at most \<open>2 log (n + 1)\<close> high.\<close>

lemma height_bh:
  "invc t \<Longrightarrow> invh t \<Longrightarrow> height t \<le> 2 * bh t + (if color t = R then 1 else 0)"
  by (induction t) (auto split: if_splits)

lemma bh_size: "invh t \<Longrightarrow> 2 ^ bh t \<le> Suc (length (contents t))"
proof (induction t)
  case (Bin l a c k v r)
  then have "2 ^ bh l \<le> Suc (length (contents l))" "2 ^ bh l \<le> Suc (length (contents r))"
    by simp_all
  then show ?case by simp
qed simp

lemma red_black_height:
  assumes "red_black t" "Suc (length (contents t)) < 2 ^ Suc d"
  shows "height t \<le> 2 * d"
proof -
  have "(2 :: nat) ^ bh t < 2 ^ Suc d"
    using bh_size [of t] assms by (simp add: red_black_def)
  then have "bh t \<le> d"
    by (metis less_Suc_eq_le one_less_numeral_iff power_less_imp_less_exp semiring_norm(76))
  then show ?thesis
    using height_bh [of t] assms(1) by (simp add: red_black_def)
qed

lemma search_loop_ok:
  assumes "rep T (plug ctx t)" "bst t" "height t < n"
  shows "(k \<notin> keys t \<longrightarrow> search_loop n T (Some k) (ptr (rb_nil T) t) = Inr (rb_nil T)) \<and>
    (k \<in> keys t \<longrightarrow> (\<exists>ctx' l a c v r. plug ctx t = plug ctx' (Bin l a c k v r) \<and>
       search_loop n T (Some k) (ptr (rb_nil T) t) = Inr a))"
  using assms
proof (induction t arbitrary: ctx n)
  case Tip
  then show ?case by (cases n) auto
next
  case (Bin l a c k' v r)
  then obtain n' where n: "n = Suc n'" by (cases n) auto
  note rd = rd_node [OF Bin.prems(1)] and ne = rep_distinct_ptr(1) [OF Bin.prems(1)]
  have L: "rep T (plug (Lf a c k' v r # ctx) l)" "bst l" "height l < n'"
    and R: "rep T (plug (Rt l a c k' v # ctx) r)" "bst r" "height r < n'"
    using Bin.prems n by auto
  consider "k < k'" | "k' < k" | "k = k'" by fastforce
  then show ?case
  proof cases
    case 1
    then have "k \<in> keys (Bin l a c k' v r) \<longleftrightarrow> k \<in> keys l"
      using Bin.prems(2) by auto
    moreover have "search_loop n T (Some k) a = search_loop n' T (Some k) (ptr (rb_nil T) l)"
      using 1 rd ne by (simp add: n)
    ultimately show ?thesis using Bin.IH(1) [OF L] by simp
  next
    case 2
    then have "k \<in> keys (Bin l a c k' v r) \<longleftrightarrow> k \<in> keys r"
      using Bin.prems(2) by auto
    moreover have "search_loop n T (Some k) a = search_loop n' T (Some k) (ptr (rb_nil T) r)"
      using 2 less_not_sym [OF 2] rd ne by (simp add: n)
    ultimately show ?thesis using Bin.IH(2) [OF R] by simp
  next
    case 3
    then have "search_loop n T (Some k) a = Inr a"
      using rd ne by (simp add: n)
    moreover have "plug ctx (Bin l a c k' v r) = plug ctx (Bin l a c k v r)"
      using 3 by simp
    ultimately show ?thesis using 3 by (simp only: ptr.simps) (auto intro!: exI [of _ ctx])
  qed
qed

lemma search_strcmps_le:
  assumes "rep T (plug ctx t)"
  shows "search_strcmps n T k (ptr (rb_nil T) t) \<le> 2 * height t"
  using assms
proof (induction t arbitrary: ctx n)
  case Tip
  then show ?case by (cases n) auto
next
  case (Bin l a c k' v r)
  note rd = rd_node [OF Bin.prems] and ne = rep_distinct_ptr(1) [OF Bin.prems]
  show ?case
  proof (cases n)
    case (Suc n')
    have "search_strcmps n' T k (ptr (rb_nil T) l) \<le> 2 * height l" "search_strcmps n' T k (ptr (rb_nil T) r) \<le> 2 * height r"
      using Bin.IH(1) [of "Lf a c k' v r # ctx"] Bin.IH(2) [of "Rt l a c k' v # ctx"] Bin.prems by simp_all
    then show ?thesis using rd ne by (auto simp: Suc)
  qed simp
qed

lemma rbtree_search_ok:
  assumes "rep T t" "bst t"
  shows "k \<notin> keys t \<Longrightarrow> rbtree_search T (Some k) = Inr (rb_nil T)"
    "k \<in> keys t \<Longrightarrow> \<exists>ctx l a c v r. t = plug ctx (Bin l a c k v r) \<and> rbtree_search T (Some k) = Inr a"
proof -
  have root: "rb_root T = ptr (rb_nil T) t"
    using assms(1) by (simp add: rep_def)
  note * = search_loop_ok [of T "[]" t "steps T" k, simplified, OF assms le_less_trans [OF height_le rep_size(2) [OF assms(1)]]]
  show "k \<notin> keys t \<Longrightarrow> rbtree_search T (Some k) = Inr (rb_nil T)"
    using * root by (simp add: rbtree_search_def)
  show "k \<in> keys t \<Longrightarrow> \<exists>ctx l a c v r. t = plug ctx (Bin l a c k v r) \<and> rbtree_search T (Some k) = Inr a"
    using * root by (simp add: rbtree_search_def)
qed

section \<open>Inserting\<close>

definition around :: "frame list \<Rightarrow> string \<Rightarrow> bool" where
  "around ctx k \<longleftrightarrow> (\<forall>x \<in> set (cleft ctx). key_of x < k) \<and> (\<forall>x \<in> set (cright ctx). k < key_of x)"

lemma insert_descend_ok:
  assumes "rep T (plug ctx t)" "bst t" "length (addrs t) < n" "around ctx k"
  shows "(k \<in> keys t \<longrightarrow> insert_descend n T k (cpar (rb_nil T) ctx) (ptr (rb_nil T) t) = Inr None) \<and>
    (k \<notin> keys t \<longrightarrow> (\<exists>ctx'. plug ctx t = plug ctx' Tip \<and> around ctx' k \<and>
       insert_descend n T k (cpar (rb_nil T) ctx) (ptr (rb_nil T) t) = Inr (Some (cpar (rb_nil T) ctx'))))"
  using assms
proof (induction t arbitrary: ctx n)
  case Tip
  then show ?case by (cases n) auto
next
  case (Bin l a c k' v r)
  then obtain n' where n: "n = Suc n'" by (cases n) auto
  note rd = rd_node [OF Bin.prems(1)] and ne = rep_distinct_ptr(1) [OF Bin.prems(1)]
  let ?L = "Lf a c k' v r # ctx" and ?R = "Rt l a c k' v # ctx"
  consider "k < k'" | "k' < k" | "k = k'" by fastforce
  then show ?case
  proof cases
    case 1
    have "rep T (plug ?L l)" "bst l" "length (addrs l) < n'"
      using Bin.prems n by auto
    moreover have "around ?L k"
      using Bin.prems(2,4) 1 by (fastforce simp: around_def keys_def)
    moreover have "k \<in> keys (Bin l a c k' v r) \<longleftrightarrow> k \<in> keys l"
      using Bin.prems(2) 1 by auto
    moreover have "insert_descend n T k (cpar (rb_nil T) ctx) a = insert_descend n' T k a (ptr (rb_nil T) l)"
      using 1 rd ne by (simp add: n)
    ultimately show ?thesis using Bin.IH(1) [of ?L n'] by simp
  next
    case 2
    have "rep T (plug ?R r)" "bst r" "length (addrs r) < n'"
      using Bin.prems n by auto
    moreover have "around ?R k"
      using Bin.prems(2,4) 2 by (fastforce simp: around_def keys_def)
    moreover have "k \<in> keys (Bin l a c k' v r) \<longleftrightarrow> k \<in> keys r"
      using Bin.prems(2) 2 by auto
    moreover have "insert_descend n T k (cpar (rb_nil T) ctx) a = insert_descend n' T k a (ptr (rb_nil T) r)"
      using 2 less_not_sym [OF 2] rd ne by (simp add: n)
    ultimately show ?thesis using Bin.IH(2) [of ?R n'] by simp
  next
    case 3
    then show ?thesis using rd ne by (simp add: n)
  qed
qed
text \<open>The new node is put into the hole the descent ended at, red and without children.\<close>

lemma attach_ok:
  assumes rep: "rep T (plug ctx Tip)"
    and node: "rb_heap T z = Some n" "nkey n = Some k" "nvalue n = Some v"
    and z: "z \<notin> set (caddrs ctx)" "z \<noteq> rb_nil T" "z \<in> {1..<rb_fresh T}"
    and k: "around ctx k"
  shows "\<exists>T'. rbind (set_parent z (cpar (rb_nil T) ctx) T) (\<lambda>T1.
      rbind (if cpar (rb_nil T) ctx = rb_nil T1 then Inr (T1\<lparr>rb_root := z\<rparr>)
             else rbind (rd nkey T1 (cpar (rb_nil T) ctx)) (\<lambda>yk.
               if strcmp k yk < 0 then set_left (cpar (rb_nil T) ctx) z T1
               else set_right (cpar (rb_nil T) ctx) z T1)) (\<lambda>T2.
      rbind (set_left z (rb_nil T2) T2) (\<lambda>T3.
      rbind (set_right z (rb_nil T3) T3) (\<lambda>T4. set_color z RED T4)))) = Inr T' \<and>
    rep T' (plug ctx (Bin Tip z R k v Tip)) \<and> same_nil T T'"
proof (cases ctx rule: caddrs.cases)
  case 1
  with rep node z show ?thesis
    by (auto simp: rep_def wr_def same_nil_def nil_ok_def mk_def)
next
  case (2 a c ak av r ctx')
  with k have "k < ak"
    by (simp add: around_def)
  with 2 rep node z show ?thesis
    by (auto simp: rep_plug wr_def rd_def same_nil_def nil_ok_def mk_def)
next
  case (3 l a c ak av ctx')
  with k have "\<not> k < ak"
    by (auto simp: around_def)
  with 3 rep node z show ?thesis
    by (auto simp: rep_plug wr_def rd_def same_nil_def nil_ok_def mk_def)
qed

lemma around_bst:
  assumes "bst (plug ctx Tip)" "around ctx k"
  shows "bst (plug ctx (Bin Tip z c k v Tip))"
  using assms by (auto simp: bst_def around_def contents_plug sorted_wrt_append)

lemma rbtree_insert_new:
  assumes rep: "rep T t" and inv: "red_black t" "bst t" and k: "k \<notin> keys t"
    and node: "rb_heap T z = Some n" "nkey n = Some k" "nvalue n = Some v"
    and z: "z \<notin> set (addrs t)" "z \<noteq> rb_nil T" "z \<in> {1..<rb_fresh T}"
  shows "\<exists>T' t' xs ys. rbtree_insert T z = Inr T' \<and> rep T' t' \<and> red_black t' \<and> bst t' \<and> same_nil T T' \<and>
    contents t = xs @ ys \<and> contents t' = xs @ (z, k, v) # ys"
proof -
  let ?nl = "rb_nil T"
  have rdk: "rd nkey T z = Inr k"
    using node by (simp add: rd_def)
  have root: "rb_root T = ptr ?nl t"
    using rep by (simp add: rep_def)
  obtain ctx where ctx: "t = plug ctx Tip" "around ctx k"
    "insert_descend (steps T) T k ?nl (rb_root T) = Inr (Some (cpar ?nl ctx))"
    using insert_descend_ok [of T "[]" t "steps T" k] rep inv(2) k rep_size(2) [OF rep] root
    by (auto simp: around_def)
  have cz: "z \<notin> set (caddrs ctx)"
    using z(1) ctx(1) by (simp add: set_addrs_plug)
  obtain T1 where T1: "rep T1 (plug ctx (Bin Tip z R k v Tip))" "same_nil T T1"
    "rbtree_insert T z = rbtree_insert_fixup T1 z"
  proof -
    from attach_ok [OF rep [unfolded ctx(1)] node cz z(2,3) ctx(2)] obtain T1 where
      *: "rep T1 (plug ctx (Bin Tip z R k v Tip))" "same_nil T T1"
      "rbind (set_parent z (cpar ?nl ctx) T) (\<lambda>T1.
        rbind (if cpar ?nl ctx = rb_nil T1 then Inr (T1\<lparr>rb_root := z\<rparr>)
               else rbind (rd nkey T1 (cpar ?nl ctx)) (\<lambda>yk.
                 if strcmp k yk < 0 then set_left (cpar ?nl ctx) z T1
                 else set_right (cpar ?nl ctx) z T1)) (\<lambda>T2.
        rbind (set_left z (rb_nil T2) T2) (\<lambda>T3.
        rbind (set_right z (rb_nil T3) T3) (\<lambda>T4. set_color z RED T4)))) = Inr T1"
      by blast
    have "rbtree_insert T z = rbind (Inr T1) (\<lambda>T5. rbtree_insert_fixup T5 z)"
      unfolding *(3) [symmetric] by (simp add: rbtree_insert_def rdk ctx(3) rbind_assoc)
    with * show ?thesis using that by simp
  qed
  have "ctx_inv ctx 0"
    using plug_invD [of ctx Tip] inv(1) ctx(1) by (simp add: red_black_def)
  then obtain T' t' where "rbtree_insert_fixup T1 z = Inr T'" "rep T' t'" "red_black t'" "same_nil T1 T'"
    "contents t' = contents (plug ctx (Bin Tip z R k v Tip))"
    using rbtree_insert_fixup_ok [OF T1(1)] by auto
  moreover have "bst t'"
    using around_bst [of ctx k z R v] inv(2) ctx calculation(5) by (simp add: bst_def)
  ultimately show ?thesis
    using T1(2,3) same_nil_trans [of T T1 T'] ctx(1)
    by (intro exI [of _ T'] exI [of _ t'] exI [of _ "cleft ctx"] exI [of _ "cright ctx"])
      (simp add: contents_plug)
qed

lemma rbtree_insert_stored:
  assumes "rep T t" "bst t" "k \<in> keys t" "rb_heap T z = Some n" "nkey n = Some k"
  shows "rbtree_insert T z = Inr T"
proof -
  have "rb_root T = ptr (rb_nil T) t"
    using assms(1) by (simp add: rep_def)
  then have "insert_descend (steps T) T k (rb_nil T) (rb_root T) = Inr None"
    using insert_descend_ok [of T "[]" t "steps T" k] assms rep_size(2) [OF assms(1)] by (simp add: around_def)
  then show ?thesis
    using assms(4,5) by (simp add: rbtree_insert_def rd_def)
qed

end
