(* ===== verification/RbDelete.thy ===== *)
theory RbDelete
  imports RbSearch
begin

text \<open>
  Deletion keeps the tree red-black. The loop of \<open>rbtree_delete_fixup\<close> is followed on the tree
  with a hole: the subtree in the hole lacks one black node, everything around it
  satisfies the invariant. The subtree may be empty; then the parent link of the nil node
  leads the loop upwards.
\<close>

section \<open>One turn of the loop\<close>

fun blacken :: "rt \<Rightarrow> rt" where
  "blacken Tip = Tip"
| "blacken (Bin l a c k v r) = Bin l a B k v r"

lemma blacken_id: "color t = B \<Longrightarrow> blacken t = t"
  by (cases t) auto

lemma blacken_flipt: "blacken (flipt t) = flipt (blacken t)"
  by (cases t) auto

lemma invc_blacken: "invc t \<Longrightarrow> invc (blacken t)"
  by (cases t) auto

definition del_state :: "rbtree \<Rightarrow> (addr \<times> string \<times> vptr) list \<Rightarrow> addr \<Rightarrow> nat \<Rightarrow> bool" where
  "del_state T xs x m \<longleftrightarrow>
     (\<exists>ctx t. rep T (plug ctx t) \<and> contents (plug ctx t) = xs \<and> x = ptr (rb_nil T) t \<and>
        (t = Tip \<longrightarrow> rd nparent T (rb_nil T) = Inr (cpar (rb_nil T) ctx)) \<and>
        invc (blacken t) \<and> invh t \<and> ctx_inv ctx (Suc (bh t)) \<and> m = (if color t = R then 0 else length ctx))"

lemma del_stateI:
  "rep T (plug ctx t) \<Longrightarrow> contents (plug ctx t) = xs \<Longrightarrow> x = ptr (rb_nil T) t \<Longrightarrow> t \<noteq> Tip \<Longrightarrow>
   invc (blacken t) \<Longrightarrow> invh t \<Longrightarrow> ctx_inv ctx (Suc (bh t)) \<Longrightarrow> m = (if color t = R then 0 else length ctx) \<Longrightarrow>
   del_state T xs x m"
  unfolding del_state_def by blast

lemma rd_parent_flip: "rd nparent (flip T) x = rd nparent T x"
  by simp

lemma del_state_flip: "del_state T xs x m \<Longrightarrow> del_state (flip T) (rev xs) x m"
proof -
  assume "del_state T xs x m"
  then obtain ctx t where s: "rep T (plug ctx t)" "contents (plug ctx t) = xs" "x = ptr (rb_nil T) t"
    "t = Tip \<longrightarrow> rd nparent T (rb_nil T) = Inr (cpar (rb_nil T) ctx)"
    "invc (blacken t)" "invh t" "ctx_inv ctx (Suc (bh t))" "m = (if color t = R then 0 else length ctx)"
    unfolding del_state_def by blast
  have f: "plug (map flipf ctx) (flipt t) = flipt (plug ctx t)"
    by (simp add: flip_plug)
  show ?thesis
    unfolding del_state_def
  proof (intro exI [of _ "map flipf ctx"] exI [of _ "flipt t"] conjI, unfold f)
    show "rep (flip T) (flipt (plug ctx t))"
      using s(1) by (simp only: rep_flip)
    show "contents (flipt (plug ctx t)) = rev xs"
      using s(2) by (simp only: contents_flipt)
    show "flipt t = Tip \<longrightarrow> rd nparent (flip T) (rb_nil (flip T)) = Inr (cpar (rb_nil (flip T)) (map flipf ctx))"
      using s(4) by (cases t) auto
  qed (use s in \<open>auto simp: blacken_flipt\<close>)
qed

lemma black_children_ok:
  assumes "rep T (plug ctx (Bin a w c k v b))"
  shows "black_children T w = Inr (color a = B \<and> color b = B)"
  using rd_node [OF assms] rd_color [of T "Lf w c k v b # ctx" a] rd_color [of T "Rt a w c k v # ctx" b] assms
  by (simp add: black_children_def)

lemma black_children_flip:
  assumes "rep T (plug ctx (Bin a w c k v b))"
  shows "black_children (flip T) w = black_children T w"
proof -
  have "rep (flip T) (plug (map flipf ctx) (Bin (flipt b) w c k v (flipt a)))"
    using assms [folded rep_flip [of T]] by (simp add: flip_plug)
  from black_children_ok [OF this] black_children_ok [OF assms] show ?thesis by auto
qed

text \<open>A red sibling is rotated above the parent; its child becomes the sibling.\<close>

lemma red_sibling_red:
  assumes rep: "rep T (plug ctx (Bin t p B pk pv (Bin a w R wk wv b)))"
  shows "\<exists>T'. red_sibling_left T p = Inr (ptr (rb_nil T) a, T') \<and> same_nil T T' \<and>
    rep T' (plug (Lf w B wk wv b # ctx) (Bin t p R pk pv a))"
proof -
  have 1: "rd nright T p = Inr w" "rd ncolor T w = Inr RED"
    using rd_node(3) [OF rep] rd_node(1) [of T "Rt t p B pk pv # ctx" a w R] rep by simp_all
  obtain T1 where T1: "set_color w BLACK T = Inr T1" "same_nil T T1"
    "rep T1 (plug ctx (Bin t p B pk pv (Bin a w B wk wv b)))"
    using set_color_node [of T "Rt t p B pk pv # ctx" a w R wk wv b B] rep by auto
  obtain T2 where T2: "set_color p RED T1 = Inr T2" "same_nil T1 T2"
    "rep T2 (plug ctx (Bin t p R pk pv (Bin a w B wk wv b)))"
    using set_color_node [OF T1(3), of R] by auto
  obtain T3 where T3: "rbtree_left_rotate T2 p = Inr T3" "same_nil T2 T3"
    "rep T3 (plug ctx (Bin (Bin t p R pk pv a) w B wk wv b))"
    using left_rotate_rep [OF T2(3)] by auto
  have same: "same_nil T T3"
    using T1(2) T2(2) T3(2) same_nil_trans by blast
  have "rd nright T3 p = Inr (ptr (rb_nil T) a)"
    using rd_node(3) [of T3 "Lf w B wk wv b # ctx" t p R pk pv a] T3(3) same by (simp add: same_nil_def)
  with 1 T1 T2 T3 same show ?thesis by (simp add: red_sibling_left_def)
qed

lemma red_sibling_black:
  assumes rep: "rep T (plug ctx (Bin t p pc pk pv (Bin a w B wk wv b)))"
  shows "red_sibling_left T p = Inr (w, T)"
  using rd_node(3) [OF rep] rd_node(1) [of T "Rt t p pc pk pv # ctx" a w B] rep
  by (simp add: red_sibling_left_def)

text \<open>A black sibling with a red child on the far side takes the parent's place.\<close>

lemma raise_sibling:
  assumes rep: "rep T (plug ctx (Bin t p pc pk pv (Bin a w B wk wv (Bin b y R yk yv c))))"
  shows "\<exists>T'. rbind (rd ncolor T p) (\<lambda>pc. rbind (set_color w pc T) (\<lambda>T2.
      rbind (set_color p BLACK T2) (\<lambda>T3. rbind (rd nright T3 w) (\<lambda>r.
      rbind (set_color r BLACK T3) (\<lambda>T4. rbind (rbtree_left_rotate T4 p) (\<lambda>T5. Inr (rb_root T5, T5))))))) =
      Inr (rb_root T', T') \<and> same_nil T T' \<and>
    rep T' (plug ctx (Bin (Bin t p B pk pv a) w pc wk wv (Bin b y B yk yv c)))"
proof -
  let ?y = "Bin b y R yk yv c"
  have 1: "rd ncolor T p = Inr (enc pc)"
    using rd_node(1) [OF rep] .
  obtain T2 where T2: "set_color w (enc pc) T = Inr T2" "same_nil T T2"
    "rep T2 (plug ctx (Bin t p pc pk pv (Bin a w pc wk wv ?y)))"
    using set_color_node [of T "Rt t p pc pk pv # ctx" a w B wk wv ?y pc] rep by auto
  obtain T3 where T3: "set_color p BLACK T2 = Inr T3" "same_nil T2 T3"
    "rep T3 (plug ctx (Bin t p B pk pv (Bin a w pc wk wv ?y)))"
    using set_color_node [OF T2(3), of B] by auto
  have 2: "rd nright T3 w = Inr y"
    using rd_node(3) [of T3 "Rt t p B pk pv # ctx" a w pc wk wv ?y] T3(3) by simp
  obtain T4 where T4: "set_color y BLACK T3 = Inr T4" "same_nil T3 T4"
    "rep T4 (plug ctx (Bin t p B pk pv (Bin a w pc wk wv (Bin b y B yk yv c))))"
    using set_color_node [of T3 "Rt a w pc wk wv # Rt t p B pk pv # ctx" b y R yk yv c B] T3(3) by auto
  obtain T5 where T5: "rbtree_left_rotate T4 p = Inr T5" "same_nil T4 T5"
    "rep T5 (plug ctx (Bin (Bin t p B pk pv a) w pc wk wv (Bin b y B yk yv c)))"
    using left_rotate_rep [OF T4(3)] by auto
  have "same_nil T T5"
    using T2(2) T3(2) T4(2) T5(2) same_nil_trans by blast
  with 1 2 T2 T3 T4 T5 show ?thesis by auto
qed

lemma black_sibling_left_far:
  assumes rep: "rep T (plug ctx (Bin t p pc pk pv (Bin a w B wk wv (Bin b y R yk yv c))))"
  shows "\<exists>T'. black_sibling_left T p w = Inr (rb_root T', T') \<and> same_nil T T' \<and>
    rep T' (plug ctx (Bin (Bin t p B pk pv a) w pc wk wv (Bin b y B yk yv c)))"
proof -
  have "rd nright T w = Inr y" "rd ncolor T y = Inr RED"
    using rd_node(3) [of T "Rt t p pc pk pv # ctx" a w B wk wv "Bin b y R yk yv c"]
      rd_node(1) [of T "Rt a w B wk wv # Rt t p pc pk pv # ctx" b y R yk yv c] rep by simp_all
  with raise_sibling [OF rep] show ?thesis
    by (auto simp: black_sibling_left_def)
qed

lemma black_sibling_left_near:
  assumes rep: "rep T (plug ctx (Bin t p pc pk pv (Bin (Bin a y R yk yv b) w B wk wv c)))"
    and c: "color c = B"
  shows "\<exists>T'. black_sibling_left T p w = Inr (rb_root T', T') \<and> same_nil T T' \<and>
    rep T' (plug ctx (Bin (Bin t p B pk pv a) y pc yk yv (Bin b w B wk wv c)))"
proof -
  let ?ctx = "Rt t p pc pk pv # ctx"
  have 1: "rd nright T w = Inr (ptr (rb_nil T) c)" "rd ncolor T (ptr (rb_nil T) c) = Inr BLACK" "rd nleft T w = Inr y"
    using rd_node(2,3) [of T ?ctx "Bin a y R yk yv b" w B wk wv c]
      rd_color [of T "Rt (Bin a y R yk yv b) w B wk wv # ?ctx" c] rep c by simp_all
  obtain T1 where T1: "set_color y BLACK T = Inr T1" "same_nil T T1"
    "rep T1 (plug ?ctx (Bin (Bin a y B yk yv b) w B wk wv c))"
    using set_color_node [of T "Lf w B wk wv c # ?ctx" a y R yk yv b B] rep by auto
  obtain T2 where T2: "set_color w RED T1 = Inr T2" "same_nil T1 T2"
    "rep T2 (plug ?ctx (Bin (Bin a y B yk yv b) w R wk wv c))"
    using set_color_node [OF T1(3), of R] by auto
  obtain T3 where T3: "rbtree_right_rotate T2 w = Inr T3" "same_nil T2 T3"
    "rep T3 (plug ctx (Bin t p pc pk pv (Bin a y B yk yv (Bin b w R wk wv c))))"
    using right_rotate_rep [OF T2(3)] by auto
  have "rd nright T3 p = Inr y"
    using rd_node(3) [OF T3(3)] by simp
  moreover have "same_nil T T3"
    using T1(2) T2(2) T3(2) same_nil_trans by blast
  ultimately show ?thesis
    using raise_sibling [OF T3(3)] 1 T1 T2 T3 same_nil_trans [of T T3] by (auto simp: black_sibling_left_def)
qed
text \<open>The turn for a black sibling; a case that rebuilds the subtree ends at the root.\<close>

lemma whole_del_state:
  assumes rep: "rep T (plug ctx s)" and cont: "contents (plug ctx s) = xs" and s: "s \<noteq> Tip"
    and inv: "invc s" "invh s" "ctx_inv ctx (bh s)" "color s = R \<longrightarrow> pcol ctx = B"
  shows "del_state T xs (rb_root T) 0"
proof (rule del_stateI [of T "[]" "plug ctx s"])
  show "plug ctx s \<noteq> Tip"
    using s by (cases s) (auto dest: arg_cong [of _ _ contents] simp: contents_plug)
  show "invc (blacken (plug ctx s))" "invh (plug ctx s)"
    using plug_inv [of ctx s] inv invc_blacken by auto
qed (use rep cont in \<open>auto simp: rep_def\<close>)

lemma black_turn_left_ok:
  assumes rep: "rep T (plug ctx (Bin t p pc pk pv (Bin a w B wk wv b)))"
    and cont: "contents (plug ctx (Bin t p pc pk pv (Bin a w B wk wv b))) = xs"
    and t: "invc t" "invh t" "color t = B"
    and w: "invc a" "invc b" "invh a" "invh b" "bh a = bh t" "bh b = bh t"
    and ctx: "pc = R \<longrightarrow> pcol ctx = B" "ctx_inv ctx (Suc (bh t) + (if pc = B then 1 else 0))"
  shows "\<exists>x' T' m'. rbind (black_children T w) (\<lambda>both.
      if both then rbind (set_color w RED T) (\<lambda>T2. Inr (p, T2)) else black_sibling_left T p w) = Inr (x', T') \<and>
    same_nil T T' \<and> del_state T' xs x' m' \<and> m' \<le> (if pc = R then 0 else length ctx)"
proof -
  have bc: "black_children T w = Inr (color a = B \<and> color b = B)"
    using black_children_ok [of T "Rt t p pc pk pv # ctx"] rep by simp
  consider "color a = B" "color b = B" | "color b = R" | "color a = R" "color b = B"
    using col.exhaust by metis
  then show ?thesis
  proof cases
    case 1
    obtain T' where T': "set_color w RED T = Inr T'" "same_nil T T'"
      "rep T' (plug ctx (Bin t p pc pk pv (Bin a w R wk wv b)))"
      using set_color_node [of T "Rt t p pc pk pv # ctx" a w B wk wv b R] rep by auto
    have "del_state T' xs p (if pc = R then 0 else length ctx)"
      by (rule del_stateI [OF T'(3)]) (use 1 cont t w ctx in \<open>auto simp: contents_plug\<close>)
    with bc 1 T' show ?thesis by auto
  next
    case 2
    then obtain c y yk yv d where b: "b = Bin c y R yk yv d"
      by (cases b) auto
    obtain T' where T': "black_sibling_left T p w = Inr (rb_root T', T')" "same_nil T T'"
      "rep T' (plug ctx (Bin (Bin t p B pk pv a) w pc wk wv (Bin c y B yk yv d)))"
      using black_sibling_left_far [of T ctx t p pc pk pv a w wk wv c y yk yv d] rep b by auto
    have "del_state T' xs (rb_root T') 0"
      by (rule whole_del_state [OF T'(3)]) (use cont t w ctx b in \<open>auto simp: contents_plug\<close>)
    with bc 2 T' show ?thesis by auto
  next
    case 3
    then obtain c y yk yv d where a: "a = Bin c y R yk yv d"
      by (cases a) auto
    obtain T' where T': "black_sibling_left T p w = Inr (rb_root T', T')" "same_nil T T'"
      "rep T' (plug ctx (Bin (Bin t p B pk pv c) y pc yk yv (Bin d w B wk wv b)))"
      using black_sibling_left_near [of T ctx t p pc pk pv c y yk yv d w wk wv b] rep a 3(2) by auto
    have "del_state T' xs (rb_root T') 0"
      by (rule whole_del_state [OF T'(3)]) (use cont t w ctx a in \<open>auto simp: contents_plug\<close>)
    with bc 3 T' show ?thesis by auto
  qed
qed

lemma delete_turn_left_ok:
  assumes rep: "rep T (plug ctx (Bin t p pc pk pv s))"
    and cont: "contents (plug ctx (Bin t p pc pk pv s)) = xs"
    and t: "invc t" "invh t" "color t = B"
    and s: "invc s" "invh s" "bh s = Suc (bh t)"
    and ctx: "pc = R \<longrightarrow> color s = B \<and> pcol ctx = B" "ctx_inv ctx (Suc (bh t) + (if pc = B then 1 else 0))"
  shows "\<exists>x' T' m' w T1 ctx1 a k v b. delete_turn_left T p = Inr (x', T') \<and> same_nil T T' \<and>
    del_state T' xs x' m' \<and> m' < Suc (length ctx) \<and>
    red_sibling_left T p = Inr (w, T1) \<and> rep T1 (plug ctx1 (Bin a w B k v b))"
proof -
  obtain a w wc wk wv b where w: "s = Bin a w wc wk wv b"
    using s(3) by (cases s) auto
  show ?thesis
  proof (cases wc)
    case B
    with rep w have rep': "rep T (plug ctx (Bin t p pc pk pv (Bin a w B wk wv b)))" by simp
    obtain x' T' m' where "rbind (black_children T w) (\<lambda>both.
        if both then rbind (set_color w RED T) (\<lambda>T2. Inr (p, T2)) else black_sibling_left T p w) = Inr (x', T')"
      "same_nil T T'" "del_state T' xs x' m'" "m' \<le> (if pc = R then 0 else length ctx)"
      using black_turn_left_ok [OF rep', of xs] cont t s ctx w B by auto
    moreover have "m' < Suc (length ctx)"
      using calculation(4) by (auto split: if_splits)
    moreover have "rep T (plug (Rt t p pc pk pv # ctx) (Bin a w B wk wv b))"
      using rep' by simp
    moreover note red_sibling_black [OF rep']
    ultimately show ?thesis unfolding delete_turn_left_def by fastforce
  next
    case R
    with ctx(1) w have pc: "pc = B" by (cases pc) auto
    have ab: "color a = B" "color b = B" "invc a" "invc b" "invh a" "invh b" "bh a = Suc (bh t)" "bh b = Suc (bh t)"
      using s w R by auto
    obtain T1 where T1: "red_sibling_left T p = Inr (ptr (rb_nil T) a, T1)" "same_nil T T1"
      "rep T1 (plug (Lf w B wk wv b # ctx) (Bin t p R pk pv a))"
      using red_sibling_red [of T ctx t p pk pv a w wk wv b] rep w R pc by auto
    obtain c y yk yv d where a: "a = Bin c y B yk yv d"
      using ab(1,7) by (cases a) auto
    obtain x' T' m' where *: "rbind (black_children T1 y) (\<lambda>both.
        if both then rbind (set_color y RED T1) (\<lambda>T2. Inr (p, T2)) else black_sibling_left T1 p y) = Inr (x', T')"
      "same_nil T1 T'" "del_state T' xs x' m'" "m' = 0"
      using black_turn_left_ok [OF T1(3) [unfolded a], of xs] cont t ctx(2) ab w pc a R
      by (auto simp: contents_plug)
    have "delete_turn_left T p = Inr (x', T')"
      using T1(1) *(1) by (simp add: delete_turn_left_def a)
    moreover have "rep T1 (plug (Rt t p R pk pv # Lf w B wk wv b # ctx) (Bin c y B yk yv d))"
      using T1(3) by (simp add: a)
    moreover have "red_sibling_left T p = Inr (y, T1)"
      using T1(1) by (simp add: a)
    ultimately show ?thesis
      using * same_nil_trans [OF T1(2) *(2)] by blast
  qed
qed

section \<open>The other side and the loop\<close>

lemma red_sibling_right_flip:
  "red_sibling_right T p = map_sum id (apsnd flip) (red_sibling_left (flip T) p)"
  by (simp add: red_sibling_left_def red_sibling_right_def flip_rotate
      if_distrib [of "map_sum id (apsnd flip)"] cong: if_cong)

lemma black_sibling_right_flip:
  "black_sibling_right T p w = map_sum id (apsnd flip) (black_sibling_left (flip T) p w)"
  by (simp add: black_sibling_left_def black_sibling_right_def flip_rotate rbind_if rbind_assoc
      if_distrib [of "map_sum id (apsnd flip)"] cong: if_cong)

lemma delete_turn_right_ok:
  assumes rep: "rep T (plug ctx (Bin s p pc pk pv t))"
    and cont: "contents (plug ctx (Bin s p pc pk pv t)) = xs"
    and t: "invc t" "invh t" "color t = B"
    and s: "invc s" "invh s" "bh s = Suc (bh t)"
    and ctx: "pc = R \<longrightarrow> color s = B \<and> pcol ctx = B" "ctx_inv ctx (Suc (bh t) + (if pc = B then 1 else 0))"
  shows "\<exists>x' T' m'. delete_turn_right T p = Inr (x', T') \<and> same_nil T T' \<and>
    del_state T' xs x' m' \<and> m' < Suc (length ctx)"
proof -
  let ?t = "Bin s p pc pk pv t"
  have f: "plug (map flipf ctx) (Bin (flipt t) p pc pk pv (flipt s)) = flipt (plug ctx ?t)"
    by (simp add: flip_plug)
  have "\<exists>x' T' m' w T1 ctx1 a k v b. delete_turn_left (flip T) p = Inr (x', T') \<and> same_nil (flip T) T' \<and>
    del_state T' (rev xs) x' m' \<and> m' < Suc (length (map flipf ctx)) \<and>
    red_sibling_left (flip T) p = Inr (w, T1) \<and> rep T1 (plug ctx1 (Bin a w B k v b))"
  proof (rule delete_turn_left_ok [of "flip T" "map flipf ctx" "flipt t" p pc pk pv "flipt s"], unfold f)
    show "rep (flip T) (flipt (plug ctx ?t))"
      using rep by (simp only: rep_flip)
    show "contents (flipt (plug ctx ?t)) = rev xs"
      using cont by (simp only: contents_flipt)
  qed (use t s ctx in auto)
  then obtain x' T' m' w T1 ctx1 a k v b where *: "delete_turn_left (flip T) p = Inr (x', T')"
    "same_nil (flip T) T'" "del_state T' (rev xs) x' m'" "m' < Suc (length ctx)"
    "red_sibling_left (flip T) p = Inr (w, T1)" "rep T1 (plug ctx1 (Bin a w B k v b))"
    by auto
  have "delete_turn_right T p = map_sum id (apsnd flip) (delete_turn_left (flip T) p)"
    using *(5) black_children_flip [OF *(6)]
    by (simp add: delete_turn_left_def delete_turn_right_def red_sibling_right_flip black_sibling_right_flip
        if_distrib [of "map_sum id (apsnd flip)"] cong: if_cong)
  moreover have "del_state (flip T') xs x' m'" "same_nil T (flip T')"
    using del_state_flip [OF *(3)] *(2) same_nil_flip [of T "flip T'"] by simp_all
  ultimately show ?thesis using * by auto
qed

lemma croot_in: "ctx \<noteq> [] \<Longrightarrow> croot ctx q \<in> set (caddrs ctx)"
proof (induction ctx q rule: croot.induct)
  case (2 a c k v r ctx q)
  then show ?case by (cases "ctx = []") auto
next
  case (3 l a c k v ctx q)
  then show ?case by (cases "ctx = []") auto
qed simp

lemma delete_turn_ok:
  assumes s: "del_state T xs x m" and m: "0 < m"
  shows "x \<noteq> rb_root T \<and> rd ncolor T x = Inr BLACK \<and>
    (\<exists>p l x' T' m'. rd nparent T x = Inr p \<and> rd nleft T p = Inr l \<and>
      (if x = l then delete_turn_left T p else delete_turn_right T p) = Inr (x', T') \<and>
      same_nil T T' \<and> del_state T' xs x' m' \<and> m' < m)"
proof -
  obtain ctx t where s: "rep T (plug ctx t)" "contents (plug ctx t) = xs" "x = ptr (rb_nil T) t"
    "t = Tip \<longrightarrow> rd nparent T (rb_nil T) = Inr (cpar (rb_nil T) ctx)"
    "invc (blacken t)" "invh t" "ctx_inv ctx (Suc (bh t))" "m = (if color t = R then 0 else length ctx)"
    using s unfolding del_state_def by blast
  have t: "color t = B" "invc t" "m = length ctx" "ctx \<noteq> []"
    using s(5,8) m blacken_id [of t] by (auto split: if_splits)
  have "x \<notin> set (caddrs ctx)"
    using s(1,3) ptr_in_addrs [of t "rb_nil T"] by (cases t) (auto simp: rep_plug)
  then have root: "x \<noteq> rb_root T"
    using s(1) croot_in [OF t(4)] by (auto simp: rep_plug)
  have col: "rd ncolor T x = Inr BLACK"
    using rd_color [OF s(1)] s(3) t(1) by simp
  have par: "rd nparent T x = Inr (cpar (rb_nil T) ctx)"
    using s(1,3,4) rd_node(4) by (cases t) auto
  show ?thesis
  proof (cases ctx rule: caddrs.cases)
    case (2 p pc pk pv w ctx')
    with s t have q: "rep T (plug ctx' (Bin t p pc pk pv w))" "contents (plug ctx' (Bin t p pc pk pv w)) = xs"
      "invc w" "invh w" "bh w = Suc (bh t)" "pc = R \<longrightarrow> color w = B \<and> pcol ctx' = B"
      "ctx_inv ctx' (Suc (bh t) + (if pc = B then 1 else 0))" by auto
    have "rd nleft T p = Inr x"
      using rd_node(2) [OF q(1)] s(3) by simp
    then show ?thesis
      using delete_turn_left_ok [OF q(1,2) t(2) s(6) t(1) q(3-7)] root col par t(3) 2 by fastforce
  next
    case (3 w p pc pk pv ctx')
    with s t have q: "rep T (plug ctx' (Bin w p pc pk pv t))" "contents (plug ctx' (Bin w p pc pk pv t)) = xs"
      "invc w" "invh w" "bh w = Suc (bh t)" "pc = R \<longrightarrow> color w = B \<and> pcol ctx' = B"
      "ctx_inv ctx' (Suc (bh t) + (if pc = B then 1 else 0))" by auto
    have "rd nleft T p = Inr (ptr (rb_nil T) w)" "x \<noteq> ptr (rb_nil T) w"
      using rd_node(2) [OF q(1)] rep_distinct_ptr(4) [OF q(1)] q(5) s(3) by auto
    then show ?thesis
      using delete_turn_right_ok [OF q(1,2) t(2) s(6) t(1) q(3-7)] root col par t(3) 3 by fastforce
  qed (use t in simp)
qed

lemma delete_fixup_loop_ok:
  assumes "del_state T xs x m" "m < n"
  shows "\<exists>x' T'. delete_fixup_loop n T x = Inr (x', T') \<and> same_nil T T' \<and> del_state T' xs x' 0"
  using assms
proof (induction n arbitrary: T x m)
  case (Suc n)
  show ?case
  proof (cases "m = 0")
    case True
    then obtain ctx t where s: "rep T (plug ctx t)" "x = ptr (rb_nil T) t" "0 = (if color t = R then 0 else length ctx)"
      using Suc.prems(1) unfolding del_state_def by blast
    have "x = rb_root T \<or> rd ncolor T x = Inr RED"
      using s rd_color [OF s(1)] by (cases "color t") (auto simp: rep_plug)
    then show ?thesis using Suc.prems(1) True by auto
  next
    case False
    with delete_turn_ok [OF Suc.prems(1)] obtain p l x' T' m' where *: "x \<noteq> rb_root T"
      "rd ncolor T x = Inr BLACK" "rd nparent T x = Inr p" "rd nleft T p = Inr l"
      "(if x = l then delete_turn_left T p else delete_turn_right T p) = Inr (x', T')"
      "same_nil T T'" "del_state T' xs x' m'" "m' < m"
      by blast
    then obtain x'' T'' where "delete_fixup_loop n T' x' = Inr (x'', T'')" "same_nil T' T''" "del_state T'' xs x'' 0"
      using Suc.IH [of T' x' m'] Suc.prems(2) by auto
    with * show ?thesis
      using same_nil_trans [OF *(6)] by auto
  qed
qed simp

lemma rbtree_delete_fixup_ok:
  assumes rep: "rep T (plug ctx t)" and x: "x = ptr (rb_nil T) t"
    and par: "t = Tip \<longrightarrow> rd nparent T (rb_nil T) = Inr (cpar (rb_nil T) ctx)"
    and inv: "invc t" "invh t" "ctx_inv ctx (Suc (bh t))"
  shows "\<exists>T' t'. rbtree_delete_fixup T x = Inr T' \<and> rep T' t' \<and> red_black t' \<and> same_nil T T' \<and>
    contents t' = contents (plug ctx t)"
proof -
  let ?xs = "contents (plug ctx t)" and ?m = "if color t = R then 0 else length ctx"
  have "del_state T ?xs x ?m"
    unfolding del_state_def using assms invc_blacken by blast
  moreover have "?m < steps T"
    using rep_size(2) [OF rep] length_ctx [of ctx t] by auto
  ultimately obtain x1 T1 where T1: "delete_fixup_loop (steps T) T x = Inr (x1, T1)" "same_nil T T1"
    "del_state T1 ?xs x1 0"
    using delete_fixup_loop_ok by blast
  then obtain ctx1 t1 where s: "rep T1 (plug ctx1 t1)" "contents (plug ctx1 t1) = ?xs" "x1 = ptr (rb_nil T1) t1"
    "invc (blacken t1)" "invh t1" "ctx_inv ctx1 (Suc (bh t1))" "0 = (if color t1 = R then 0 else length ctx1)"
    unfolding del_state_def by blast
  have "\<exists>T'. set_color x1 BLACK T1 = Inr T' \<and> rep T' (plug ctx1 (blacken t1)) \<and> same_nil T1 T'"
  proof (cases t1)
    case Tip
    then obtain n where n: "rb_heap T1 (rb_nil T1) = Some n" "ncolor n = Some BLACK"
      using s(1) by (auto simp: rep_plug nil_ok_def)
    then have "n\<lparr>ncolor := Some BLACK\<rparr> = n" by simp
    with n s(3) Tip have "set_color x1 BLACK T1 = Inr T1"
      by (simp add: wr_def fun_upd_idem)
    with s(1) Tip show ?thesis by simp
  next
    case (Bin l a c k v r)
    with set_color_node [of T1 ctx1 l a c k v r B] s(1,3) show ?thesis by simp
  qed
  moreover have "red_black (plug ctx1 (blacken t1))"
  proof (cases "color t1")
    case R
    then have "bh (blacken t1) = Suc (bh t1)" "invh (blacken t1)" "color (blacken t1) = B"
      using s(5) by (cases t1; auto)+
    with s plug_inv [of ctx1 "blacken t1"] color_plug [of ctx1] show ?thesis
      by (cases "ctx1 = []") (auto simp: red_black_def)
  next
    case B
    with s blacken_id [of t1] show ?thesis by (auto simp: red_black_def)
  qed
  moreover have "contents (plug ctx1 (blacken t1)) = ?xs"
    unfolding s(2) [symmetric] by (cases t1) (simp_all add: contents_plug)
  ultimately show ?thesis
    using T1(1,2) same_nil_trans [of T T1] by (auto simp: rbtree_delete_fixup_def)
qed

section \<open>Taking a node out\<close>

lemma plug_append [simp]: "plug (c1 @ c2) t = plug c2 (plug c1 t)"
  by (induction c1 t rule: plug.induct) auto

lemma length_addrs_plug: "length (addrs (plug ctx t)) = length (caddrs ctx) + length (addrs t)"
  by (induction ctx t rule: plug.induct) auto

lemma caddrs_append: "caddrs (c1 @ c2) = caddrs c1 @ caddrs c2"
  by (induction c1 rule: caddrs.induct) auto

lemma cright_append: "cright (c1 @ c2) = cright c1 @ cright c2"
  by (induction c1 rule: cright.induct) auto

lemma cleft_append [simp]: "cleft (c1 @ c2) = cleft c2 @ cleft c1"
  by (induction c1 rule: cleft.induct) auto

lemma mini_loop_ok:
  assumes "rep T (plug ctx t)" "t \<noteq> Tip" "length (addrs t) < n"
  shows "\<exists>rctx y c k v r. t = plug rctx (Bin Tip y c k v r) \<and> cleft rctx = [] \<and>
    mini_loop n T (ptr (rb_nil T) t) = Inr y"
  using assms
proof (induction t arbitrary: ctx n)
  case (Bin l a c k v r)
  then obtain n' where n: "n = Suc n'" by (cases n) auto
  note rd = rd_node(2) [OF Bin.prems(1)]
  show ?case
  proof (cases "l = Tip")
    case True
    with rd n show ?thesis by (intro exI [of _ "[]"]) auto
  next
    case False
    have "rep T (plug (Lf a c k v r # ctx) l)" "length (addrs l) < n'"
      using Bin.prems n by auto
    with Bin.IH(1) [OF _ False] obtain rctx y yc yk yv yr where *:
      "l = plug rctx (Bin Tip y yc yk yv yr)" "cleft rctx = []" "mini_loop n' T (ptr (rb_nil T) l) = Inr y"
      by blast
    have "mini_loop n T a = Inr y"
      using rd n *(3) False rep_distinct_ptr(5) [OF Bin.prems(1)] by simp
    with * show ?thesis
      by (intro exI [of _ "rctx @ [Lf a c k v r]"]) auto
  qed
qed simp

text \<open>A node with at most one child is replaced by the child.\<close>

lemma splice_ok:
  assumes rep: "rep T (plug ctx (Bin l y c k v r))" and one: "l = Tip \<or> r = Tip"
  defines "s \<equiv> if l \<noteq> Tip then l else r"
  shows "\<exists>T1 T2. set_parent (ptr (rb_nil T) s) (cpar (rb_nil T) ctx) T = Inr T1 \<and>
    relink_left y (ptr (rb_nil T) s) (cpar (rb_nil T) ctx) T1 = Inr T2 \<and> rep T2 (plug ctx s) \<and>
    (s = Tip \<longrightarrow> rd nparent T2 (rb_nil T) = Inr (cpar (rb_nil T) ctx)) \<and>
    rb_heap T2 y = rb_heap T y \<and> rb_nil T2 = rb_nil T \<and> rb_fresh T2 = rb_fresh T \<and> rb_count T2 = rb_count T"
proof -
  let ?nl = "rb_nil T" and ?p = "cpar (rb_nil T) ctx"
  note r = rep [unfolded rep_plug, simplified]
  have s: "set (addrs s) \<subseteq> set (addrs l) \<union> set (addrs r)" "distinct (addrs s)" "tree_at ?nl (rb_heap T) y s"
    using r by (auto simp: s_def)
  have d: "q \<noteq> y" "q \<notin> set (caddrs ctx)" "q \<noteq> ?nl" if "q \<in> set (addrs s)" for q
    using that s(1) r by (blast, blast, metis UnE subsetD)
  obtain n where n: "rb_heap T ?nl = Some n" "ncolor n = Some BLACK" "nleft n = None" "nright n = None" "nkey n = Some []"
    using r by (auto simp: nil_ok_def)
  obtain H where H: "set_parent (ptr ?nl s) ?p T = Inr (T\<lparr>rb_heap := H\<rparr>)" "tree_at ?nl H ?p s"
    "\<forall>q. q \<notin> set (addrs s) \<and> q \<noteq> ?nl \<longrightarrow> H q = rb_heap T q"
    "\<exists>n'. H ?nl = Some n' \<and> ncolor n' = Some BLACK \<and> nleft n' = None \<and> nright n' = None \<and> nkey n' = Some [] \<and>
       (s = Tip \<longrightarrow> nparent n' = Some ?p)"
  proof (cases s)
    case Tip
    show ?thesis
      by (rule that [of "(rb_heap T)(?nl \<mapsto> n\<lparr>nparent := Some ?p\<rparr>)"]) (use Tip n in \<open>auto simp: wr_def\<close>)
  next
    case (Bin sl a sc sk sv sr)
    with s(2,3) d(3) n show ?thesis
      by (intro that [of "(rb_heap T)(a \<mapsto> mk sc (ptr ?nl sl) (ptr ?nl sr) ?p sk sv)"])
        (auto simp: wr_def mk_def)
  qed
  have c: "q \<noteq> y" "q \<notin> set (addrs s)" "q \<noteq> ?nl" if "q \<in> set (caddrs ctx)" for q
    using that d(2) r by blast+
  let ?T1 = "T\<lparr>rb_heap := H\<rparr>"
  have ctx1: "ctx_at ?nl H ctx y"
    using r ctx_at_cong [of ctx H "rb_heap T"] H(3) c by simp
  then obtain T2 where T2: "relink_left y (ptr ?nl s) ?p ?T1 = Inr T2" "rb_root T2 = croot ctx (ptr ?nl s)"
    "ctx_at ?nl (rb_heap T2) ctx (ptr ?nl s)" "rb_nil T2 = ?nl" "rb_fresh T2 = rb_fresh T" "rb_count T2 = rb_count T"
    "\<forall>q. q \<notin> set (caddrs ctx) \<longrightarrow> rb_heap T2 q = H q"
    using relink_left_ctx [of ?T1 ctx y "ptr ?nl s"] r by auto
  have "tree_at ?nl (rb_heap T2) ?p s"
    using H(2) tree_at_cong [of s "rb_heap T2" H] T2(7) d(2) by simp
  moreover have nil: "rb_heap T2 ?nl = H ?nl"
    using T2(7) r by simp
  moreover have "nil_ok T2"
    using H(4) nil T2(4) by (auto simp: nil_ok_def)
  ultimately have "rep T2 (plug ctx s)"
    using r T2 s d by (auto simp: rep_plug)
  moreover have "y \<notin> set (addrs s)"
    using d(1) by blast
  then have "rb_heap T2 y = rb_heap T y"
    using T2(7) H(3) r by simp
  moreover have "s = Tip \<longrightarrow> rd nparent T2 ?nl = Inr ?p"
    using H(4) nil by (auto simp: rd_def)
  ultimately show ?thesis using H(1) T2 by blast
qed

lemma swap_contents_ok:
  assumes rep: "rep T (plug ctx (Bin l z c k v r))"
    and y: "rb_heap T y = Some n" "nkey n = Some yk" "nvalue n = Some yv"
      "y \<notin> set (addrs (plug ctx (Bin l z c k v r)))" "y \<noteq> rb_nil T"
  shows "\<exists>T'. swap_contents z y T = Inr T' \<and> rep T' (plug ctx (Bin l z c yk yv r)) \<and> same_nil T T' \<and>
    rd ncolor T' y = rd ncolor T y"
proof -
  let ?nl = "rb_nil T"
  have yz: "y \<noteq> z" "y \<notin> set (addrs l)" "y \<notin> set (addrs r)" "y \<notin> set (caddrs ctx)"
    using y(4) by (auto simp: set_addrs_plug)
  define T' where "T' = T\<lparr>rb_heap := (rb_heap T)(z \<mapsto> mk c (ptr ?nl l) (ptr ?nl r) (cpar ?nl ctx) yk yv,
      y \<mapsto> n\<lparr>nkey := Some k, nvalue := Some v\<rparr>)\<rparr>"
  have same: "same_nil T T'"
    using rep y(5) by (auto simp: same_nil_def T'_def rep_plug)
  have "swap_contents z y T = Inr T'"
    using rep y yz by (simp add: swap_contents_def rd_def wr_def rep_plug mk_def T'_def fun_upd_twist)
  moreover have "rep T' (plug ctx (Bin l z c yk yv r))"
    using rep yz same_nil_ok [OF same] by (simp add: rep_plug T'_def)
  moreover have "rd ncolor T' y = rd ncolor T y"
    using y(1) by (simp add: rd_def T'_def)
  ultimately show ?thesis using same by blast
qed

lemma bh_0: "color t = B \<Longrightarrow> bh t = 0 \<Longrightarrow> t = Tip"
  by (cases t) auto

text \<open>What is left to do once a node of color \<open>c\<close> was replaced by its only child \<open>s\<close>.\<close>

lemma unlink_finish:
  assumes rep: "rep T (plug ctx s)"
    and par: "s = Tip \<longrightarrow> rd nparent T (rb_nil T) = Inr (cpar (rb_nil T) ctx)"
    and one: "l = Tip \<and> s = r \<or> r = Tip \<and> s = l"
    and inv: "ctx_inv ctx (bh (Bin l y c k v r))" "invc (Bin l y c k v r)" "invh (Bin l y c k v r)"
      "c = R \<longrightarrow> ctx \<noteq> []"
  shows "\<exists>T' t'. (if enc c = BLACK then rbtree_delete_fixup T (ptr (rb_nil T) s) else Inr T) = Inr T' \<and>
    rep T' t' \<and> red_black t' \<and> same_nil T T' \<and> contents t' = contents (plug ctx s)"
proof (cases c)
  case B
  then show ?thesis
    using rbtree_delete_fixup_ok [OF rep refl par] one inv by auto
next
  case R
  have "l = Tip" "r = Tip"
    using one inv(2,3) R bh_0 [of l] bh_0 [of r] by auto
  then have "s = Tip" using one by auto
  then have "red_black (plug ctx s)"
    using plug_inv [of ctx s] color_plug [of ctx "bh s" s] inv R one \<open>l = Tip\<close> by (auto simp: red_black_def)
  with rep R show ?thesis by (intro exI [of _ T]) auto
qed

lemma red_black_contents:
  assumes "red_black (plug ctx (Bin l z c k v r))"
  shows "red_black (plug ctx (Bin l z c k' v' r))"
proof -
  have "ctx_inv ctx (bh (Bin l z c k' v' r))" "invc (Bin l z c k' v' r)" "invh (Bin l z c k' v' r)"
    "c = R \<longrightarrow> pcol ctx = B \<and> ctx \<noteq> []"
    using plug_invD [of ctx "Bin l z c k v r"] assms by (auto simp: red_black_def)
  then show ?thesis
    using plug_inv [of ctx "Bin l z c k' v' r"] color_plug [of ctx]
    by (cases "ctx = []") (auto simp: red_black_def)
qed

definition same_tree :: "rbtree \<Rightarrow> rbtree \<Rightarrow> bool" where
  "same_tree T T' \<longleftrightarrow> rb_nil T' = rb_nil T \<and> rb_fresh T' = rb_fresh T \<and> rb_count T' = rb_count T"

lemma delete_one_child:
  assumes rep: "rep T (plug ctx (Bin l z c k v r))" and rb: "red_black (plug ctx (Bin l z c k v r))"
    and one: "l = Tip \<or> r = Tip"
  shows "\<exists>T' t'. rbtree_delete T z = Inr (z, T') \<and> rep T' t' \<and> red_black t' \<and> same_tree T T' \<and>
    contents t' = cleft ctx @ contents l @ contents r @ cright ctx"
proof -
  let ?nl = "rb_nil T"
  define s where "s = (if l \<noteq> Tip then l else r)"
  obtain T1 T2 where T2: "set_parent (ptr ?nl s) (cpar ?nl ctx) T = Inr T1"
    "relink_left z (ptr ?nl s) (cpar ?nl ctx) T1 = Inr T2" "rep T2 (plug ctx s)"
    "s = Tip \<longrightarrow> rd nparent T2 ?nl = Inr (cpar ?nl ctx)"
    "rb_heap T2 z = rb_heap T z" "rb_nil T2 = ?nl" "rb_fresh T2 = rb_fresh T" "rb_count T2 = rb_count T"
    using splice_ok [OF rep one] unfolding s_def by blast
  have s: "l = Tip \<and> s = r \<or> r = Tip \<and> s = l"
    using one by (auto simp: s_def)
  have inv: "ctx_inv ctx (bh (Bin l z c k v r))" "invc (Bin l z c k v r)" "invh (Bin l z c k v r)"
    "c = R \<longrightarrow> ctx \<noteq> []"
    using plug_invD [of ctx "Bin l z c k v r"] rb by (auto simp: red_black_def)
  obtain T' t' where T': "(if enc c = BLACK then rbtree_delete_fixup T2 (ptr ?nl s) else Inr T2) = Inr T'"
    "rep T' t'" "red_black t'" "same_nil T2 T'" "contents t' = contents (plug ctx s)"
    using unlink_finish [OF T2(3) _ s inv, unfolded T2(6)] T2(4) by blast
  note rd = rd_node [OF rep] and ne = rep_distinct_ptr(5,6) [OF rep]
  have "rd ncolor T2 z = Inr (enc c)"
    using rd(1) T2(5) by (simp add: rd_def)
  then have "rbtree_delete T z = Inr (z, T')"
    using rd ne T2(1,2) T'(1) one by (auto simp: rbtree_delete_def s_def)
  moreover have "same_tree T T'"
    using T2 T'(4) by (simp add: same_tree_def same_nil_def)
  moreover have "contents t' = cleft ctx @ contents l @ contents r @ cright ctx"
    using T'(5) s by (auto simp: contents_plug)
  ultimately show ?thesis using T' by blast
qed

text \<open>
  A node with two children keeps its place and gets the key and the value of its successor, which
  has no left child and is taken out instead.
\<close>

lemma delete_two_children:
  assumes rep: "rep T (plug ctx (Bin l z c k v r))" and rb: "red_black (plug ctx (Bin l z c k v r))"
    and two: "l \<noteq> Tip" "r \<noteq> Tip"
  shows "\<exists>y T' t'. rbtree_delete T z = Inr (y, T') \<and> y \<in> set (addrs r) \<and> rep T' t' \<and> red_black t' \<and>
    same_tree T T' \<and> map snd (contents t') = map snd (cleft ctx @ contents l @ contents r @ cright ctx)"
proof -
  let ?nl = "rb_nil T"
  note rd = rd_node [OF rep] and ne = rep_distinct_ptr(5,6) [OF rep]
  have "rep T (plug (Rt l z c k v # ctx) r)" "length (addrs r) < steps T"
    using rep rep_size(2) [OF rep] by (auto simp: length_addrs_plug)
  then obtain rctx y yc yk yv yr where r: "r = plug rctx (Bin Tip y yc yk yv yr)" "cleft rctx = []"
    "rbtree_mini T (ptr ?nl r) = Inr y"
    using mini_loop_ok [OF _ two(2)] unfolding rbtree_mini_def by blast
  define ctx1 ctx2 where "ctx1 = rctx @ Rt l z c k v # ctx" and "ctx2 = rctx @ Rt l z c yk yv # ctx"
  have rep1: "rep T (plug ctx1 (Bin Tip y yc yk yv yr))"
    using rep r(1) by (simp add: ctx1_def)
  have succ: "rbtree_successor T z = Inr y"
    using rd r(3) ne two by (simp add: rbtree_successor_def)
  obtain T1 T2 where T2: "set_parent (ptr ?nl yr) (cpar ?nl ctx1) T = Inr T1"
    "relink_left y (ptr ?nl yr) (cpar ?nl ctx1) T1 = Inr T2" "rep T2 (plug ctx1 yr)"
    "yr = Tip \<longrightarrow> rd nparent T2 ?nl = Inr (cpar ?nl ctx1)"
    "rb_heap T2 y = rb_heap T y" "rb_nil T2 = ?nl" "rb_fresh T2 = rb_fresh T" "rb_count T2 = rb_count T"
    using splice_ok [OF rep1] by auto
  note r1 = rep1 [unfolded rep_plug, simplified]
  have "z \<in> set (caddrs ctx1)"
    by (simp add: ctx1_def caddrs_append)
  then have y: "rb_heap T2 y = Some (mk yc ?nl (ptr ?nl yr) (cpar ?nl ctx1) yk yv)" "y \<noteq> ?nl" "y \<noteq> z"
    "y \<notin> set (addrs (plug ctx1 yr))" "y \<in> set (addrs r)"
    using r1 T2(5) by (auto simp: set_addrs_plug r(1))
  obtain T3 where T3: "swap_contents z y T2 = Inr T3" "rep T3 (plug ctx2 yr)" "same_nil T2 T3"
    "rd ncolor T3 y = Inr (enc yc)"
    using swap_contents_ok [of T2 ctx l z c k v "plug rctx yr" y _ yk yv] T2(3,6) y
    by (auto simp: ctx1_def ctx2_def mk_def rd_def)
  have nl3: "rb_nil T3 = ?nl"
    using T3(3) T2(6) by (simp add: same_nil_def)
  have "cpar ?nl ctx1 = cpar ?nl ctx2"
    unfolding ctx1_def ctx2_def by (cases rctx rule: caddrs.cases) auto
  then have par: "yr = Tip \<longrightarrow> rd nparent T3 ?nl = Inr (cpar ?nl ctx2)"
    using T2(4,6) T3(3) by (simp add: rd_def same_nil_def)
  have "red_black (plug ctx2 (Bin Tip y yc yk yv yr))"
    using red_black_contents [OF rb, of yk yv] r(1) by (simp add: ctx2_def)
  then have inv: "ctx_inv ctx2 (bh (Bin Tip y yc yk yv yr))" "invc (Bin Tip y yc yk yv yr)"
    "invh (Bin Tip y yc yk yv yr)" "yc = R \<longrightarrow> ctx2 \<noteq> []"
    using plug_invD [of ctx2 "Bin Tip y yc yk yv yr"] by (auto simp: red_black_def)
  obtain T' t' where T': "(if enc yc = BLACK then rbtree_delete_fixup T3 (ptr ?nl yr) else Inr T3) = Inr T'"
    "rep T' t'" "red_black t'" "same_nil T3 T'" "contents t' = contents (plug ctx2 yr)"
    using unlink_finish [OF T3(2) _ _ inv, unfolded nl3] par by blast
  have "rd nleft T y = Inr ?nl" "rd nright T y = Inr (ptr ?nl yr)" "rd nparent T y = Inr (cpar ?nl ctx1)"
    using rd_node(2-4) [OF rep1] by simp_all
  then have "rbtree_delete T z = Inr (y, T')"
    using rd ne two succ T2(1,2) T3(1,4) T'(1) y(3) by (auto simp: rbtree_delete_def)
  moreover have "same_tree T T'"
    using T2 T3(3) T'(4) by (simp add: same_tree_def same_nil_def)
  moreover have "map snd (contents t') = map snd (cleft ctx @ contents l @ contents r @ cright ctx)"
    using T'(5) r(2) by (simp add: r(1) ctx2_def contents_plug cright_append)
  ultimately show ?thesis using T' y(5) by blast
qed

lemma rbtree_delete_ok:
  assumes rep: "rep T (plug ctx (Bin l z c k v r))" and rb: "red_black (plug ctx (Bin l z c k v r))"
  shows "\<exists>y T' t'. rbtree_delete T z = Inr (y, T') \<and> y \<noteq> 0 \<and> y \<noteq> rb_nil T \<and> rep T' t' \<and> red_black t' \<and>
    same_tree T T' \<and> map snd (contents t') = map snd (cleft ctx @ contents l @ contents r @ cright ctx)"
proof (cases "l = Tip \<or> r = Tip")
  case True
  have "z \<noteq> 0" "z \<noteq> rb_nil T"
    using rep by (auto simp: rep_plug)
  moreover obtain T' t' where "rbtree_delete T z = Inr (z, T')" "rep T' t'" "red_black t'" "same_tree T T'"
    "contents t' = cleft ctx @ contents l @ contents r @ cright ctx"
    using delete_one_child [OF rep rb True] by blast
  ultimately show ?thesis by (intro exI [of _ z] exI [of _ T'] exI [of _ t']) simp
next
  case False
  have "y \<noteq> 0" "y \<noteq> rb_nil T" if "y \<in> set (addrs r)" for y
    using rep that by (auto simp: rep_plug)
  with delete_two_children [OF rep rb] False show ?thesis by blast
qed

end
