(* ===== verification/KvRbtree.thy ===== *)
theory KvRbtree
  imports RbDelete KvServer
begin

text \<open>
  The red-black tree engine as a store: what map a tree stands for, what each entry point of
  \<open>kvstore_rbtree.c\<close> does to it, and that the engine meets the contract that the request layer relies on,
  so that a server over this engine answers as a map does.
\<close>

section \<open>The tree and the map of a heap\<close>

fun shape :: "nat \<Rightarrow> rbtree \<Rightarrow> addr \<Rightarrow> rt" where
  "shape 0 T x = Tip"
| "shape (Suc i) T x =
     (if x = rb_nil T then Tip
      else
        (case rb_heap T x of
           None \<Rightarrow> Tip
         | Some n \<Rightarrow>
             (case (nleft n, nright n, ncolor n, nkey n, nvalue n) of
                (Some l, Some r, Some c, Some k, Some v) \<Rightarrow>
                  Bin (shape i T l) x (if c = RED then R else B) k v (shape i T r)
              | _ \<Rightarrow> Tip)))"

definition rb_tree :: "rbtree \<Rightarrow> rt" where
  "rb_tree T = shape (steps T) T (rb_root T)"

lemma shape_tree_at:
  "tree_at (rb_nil T) (rb_heap T) p t \<Longrightarrow> rb_nil T \<notin> set (addrs t) \<Longrightarrow> length (addrs t) < i \<Longrightarrow>
   shape i T (ptr (rb_nil T) t) = t"
proof (induction t arbitrary: p i)
  case Tip
  then show ?case by (cases i) auto
next
  case (Bin l a c k v r)
  then obtain j where j: "i = Suc j" by (cases i) auto
  have "shape j T (ptr (rb_nil T) l) = l" "shape j T (ptr (rb_nil T) r) = r"
    using Bin.IH(1) [of a j] Bin.IH(2) [of a j] Bin.prems j by simp_all
  moreover have "(if enc c = RED then R else B) = c"
    by (cases c) auto
  ultimately show ?case using Bin.prems by (auto simp: j mk_def)
qed

lemma rb_tree_rep: "rep T t \<Longrightarrow> rb_tree T = t"
  using shape_tree_at [of T "rb_nil T" t "steps T"] rep_size(2) [of T t] by (simp add: rb_tree_def rep_def)

definition rb_wf :: "rbtree \<Rightarrow> bool" where
  "rb_wf T \<longleftrightarrow> rep T (rb_tree T) \<and> red_black (rb_tree T) \<and> bst (rb_tree T) \<and>
     (\<forall>x \<in> set (contents (rb_tree T)). \<exists>s. snd (snd x) = VPtr s)"

fun string_of :: "vptr \<Rightarrow> cstr" where
  "string_of (VPtr s) = Some s"
| "string_of _ = None"

definition rb_abs :: "rbtree \<Rightarrow> string \<Rightarrow> string option" where
  "rb_abs T k = Option.bind (map_of (map snd (contents (rb_tree T))) k) string_of"

definition rb_used :: "rbtree \<Rightarrow> nat" where
  "rb_used T = length (contents (rb_tree T))"

definition rb_inv :: "rbtree \<Rightarrow> bool" where
  "rb_inv T \<longleftrightarrow> rb_wf T \<and> rb_count T = int (rb_used T)"

lemma rb_wfI:
  "rep T t \<Longrightarrow> red_black t \<Longrightarrow> bst t \<Longrightarrow> (\<And>a k v. (a, k, v) \<in> set (contents t) \<Longrightarrow> \<exists>s. v = VPtr s) \<Longrightarrow> rb_wf T"
  using rb_tree_rep [of T t] by (auto simp: rb_wf_def)

lemma rb_wfD:
  assumes "rb_wf T"
  shows "rep T (rb_tree T)" "red_black (rb_tree T)" "bst (rb_tree T)"
    "(a, k, v) \<in> set (contents (rb_tree T)) \<Longrightarrow> \<exists>s. v = VPtr s"
  using assms by (force simp: rb_wf_def)+

lemma bst_distinct: "bst t \<Longrightarrow> distinct (map fst (map snd (contents t)))"
proof -
  have "map fst (map snd (contents t)) = map key_of (contents t)"
    by auto
  then show "bst t \<Longrightarrow> ?thesis"
    by (metis bst_def strict_sorted_iff)
qed

lemma keys_dom: "keys t = dom (map_of (map snd (contents t)))"
  by (force simp: keys_def dom_map_of_conv_image_fst)

lemma rb_abs_None:
  assumes "rb_wf T"
  shows "rb_abs T k = None \<longleftrightarrow> k \<notin> keys (rb_tree T)"
proof -
  have "string_of v \<noteq> None" if v: "map_of (map snd (contents (rb_tree T))) k = Some v" for v
  proof -
    obtain a where "(a, k, v) \<in> set (contents (rb_tree T))"
      using map_of_SomeD [OF v] by force
    from rb_wfD(4) [OF assms this] show ?thesis by auto
  qed
  then show ?thesis
    by (auto simp: rb_abs_def keys_dom bind_eq_None_conv)
qed

lemma rb_abs_node:
  assumes "rb_wf T" "rb_tree T = plug ctx (Bin l a c k v r)"
  shows "rb_abs T k = string_of v" "\<exists>s. v = VPtr s"
proof -
  have "(k, v) \<in> set (map snd (contents (rb_tree T)))"
    by (simp add: assms(2) contents_plug)
  then show "rb_abs T k = string_of v"
    using bst_distinct [OF rb_wfD(3) [OF assms(1)]] by (simp add: rb_abs_def)
  show "\<exists>s. v = VPtr s"
    by (rule rb_wfD(4) [OF assms(1), of a k v]) (simp add: assms(2) contents_plug)
qed

lemma map_of_insert_mid: "k \<notin> fst ` set xs \<Longrightarrow> map_of (xs @ (k, v) # ys) = (map_of (xs @ ys))(k \<mapsto> v)"
  by (induction xs) (auto simp: fun_upd_twist)

lemma map_of_remove_mid:
  assumes "k \<notin> fst ` set (xs @ ys)"
  shows "map_of (xs @ ys) = (map_of (xs @ (k, v) # ys))(k := None)"
proof -
  have "map_of (xs @ (k, v) # ys) = (map_of (xs @ ys))(k \<mapsto> v)"
    using assms by (intro map_of_insert_mid) auto
  moreover have "map_of (xs @ ys) k = None"
    using assms by (simp only: map_of_eq_None_iff) simp
  ultimately show ?thesis by (simp add: fun_upd_idem)
qed

lemma distinct_mid: "distinct (map fst (xs @ (k, v) # ys)) \<Longrightarrow> k \<notin> fst ` set (xs @ ys)"
  by auto

section \<open>What the entry points do\<close>

lemma rep_count [simp]: "rep (T\<lparr>rb_count := i\<rparr>) t = rep T t"
  by (simp add: rep_def nil_ok_def)

lemma rb_tree_count [simp]: "rb_tree (T\<lparr>rb_count := i\<rparr>) = rb_tree T"
proof -
  have "shape n (T\<lparr>rb_count := i\<rparr>) x = shape n T x" for n x
    by (induction n arbitrary: x) (auto split: option.splits)
  then show ?thesis by (simp add: rb_tree_def steps_def)
qed

lemma rb_count_simps [simp]:
  "rb_wf (T\<lparr>rb_count := i\<rparr>) = rb_wf T" "rb_abs (T\<lparr>rb_count := i\<rparr>) = rb_abs T"
  "rb_used (T\<lparr>rb_count := i\<rparr>) = rb_used T"
  by (auto simp: rb_wf_def rb_abs_def rb_used_def fun_eq_iff)

text \<open>A new node does not touch the tree.\<close>

definition alloc_node :: "rbtree_node \<Rightarrow> rbtree \<Rightarrow> rbtree" where
  "alloc_node n T = T\<lparr>rb_heap := (rb_heap T)(rb_fresh T \<mapsto> n), rb_fresh := Suc (rb_fresh T)\<rparr>"

lemma rep_alloc:
  assumes "rep T t"
  shows "rep (alloc_node n T) t"
proof -
  have "rb_fresh T \<notin> set (addrs t)" "rb_fresh T \<noteq> rb_nil T"
    using assms by (auto simp: rep_def)
  then show ?thesis
    using assms by (auto simp: rep_def alloc_node_def nil_ok_def)
qed

definition set_node :: "string \<Rightarrow> string \<Rightarrow> rbtree_node" where
  "set_node k v = fresh_node\<lparr>nkey := Some k, nvalue := Some (VPtr v)\<rparr>"

lemma set_unfold:
  assumes "mem_good m" "rbtree_insert (alloc_node (set_node k v) T) (rb_fresh T) = Inr T1"
    and "rb_count T1 < INT_MAX"
  shows "\<exists>m'. kvs_rbtree_set T (Some k) (Some v) m = Inr (0, T1\<lparr>rb_count := rb_count T1 + 1\<rparr>, m') \<and>
    mem_good m' \<and> mem_live m' = mem_live m + 3"
  using assms
  by (simp add: kvs_rbtree_set_def kvstore_malloc_good Let_def alloc_node_def set_node_def)

lemma rbtree_set_new:
  assumes wf: "rb_wf T" and m: "mem_good m" and k: "rb_abs T k = None" and c: "rb_count T < INT_MAX"
  shows "\<exists>T' m'. kvs_rbtree_set T (Some k) (Some v) m = Inr (0, T', m') \<and> rb_wf T' \<and> mem_good m' \<and>
    mem_live m' = mem_live m + 3 \<and> rb_abs T' = (rb_abs T)(k \<mapsto> v) \<and> rb_used T' = Suc (rb_used T) \<and>
    rb_count T' = rb_count T + 1"
proof -
  let ?t = "rb_tree T" and ?T = "alloc_node (set_node k v) T" and ?z = "rb_fresh T"
  note D = rb_wfD [OF wf]
  have nk: "k \<notin> keys ?t"
    using rb_abs_None [OF wf] k by simp
  have z: "?z \<notin> set (addrs ?t)" "?z \<noteq> rb_nil ?T" "?z \<in> {1..<rb_fresh ?T}"
    "rb_heap ?T ?z = Some (set_node k v)" "nkey (set_node k v) = Some k" "nvalue (set_node k v) = Some (VPtr v)"
    using D(1) by (auto simp: rep_def alloc_node_def set_node_def)
  obtain T1 t1 xs ys where T1: "rbtree_insert ?T ?z = Inr T1" "rep T1 t1" "red_black t1" "bst t1"
    "same_nil ?T T1" "contents ?t = xs @ ys" "contents t1 = xs @ (?z, k, VPtr v) # ys"
    using rbtree_insert_new [OF rep_alloc [OF D(1)] D(2,3) nk z(4-6) z(1-3)] by blast
  have t1: "rb_tree T1 = t1" using rb_tree_rep [OF T1(2)] .
  have "rb_wf T1"
    by (rule rb_wfI [OF T1(2-4)]) (use T1(6,7) D(4) in auto)
  moreover have "rb_abs T1 = (rb_abs T)(k \<mapsto> v)"
  proof -
    have "k \<notin> fst ` set (map snd xs)"
      using nk T1(6) by (force simp: keys_def)
    from map_of_insert_mid [OF this, of "VPtr v" "map snd ys"] show ?thesis
      by (simp add: rb_abs_def fun_eq_iff t1 T1(6,7))
  qed
  moreover have "rb_used T1 = Suc (rb_used T)"
    by (simp add: rb_used_def t1 T1(6,7))
  moreover have "rb_count T1 = rb_count T"
    using T1(5) by (simp add: same_nil_def alloc_node_def)
  ultimately show ?thesis
    using set_unfold [OF m T1(1)] c by (auto simp: fun_eq_iff)
qed

lemma rbtree_set_stored:
  assumes wf: "rb_wf T" and m: "mem_good m" and k: "rb_abs T k \<noteq> None" and c: "rb_count T < INT_MAX"
  shows "\<exists>T' m'. kvs_rbtree_set T (Some k) (Some v) m = Inr (0, T', m') \<and> rb_wf T' \<and> mem_good m' \<and>
    mem_live m' = mem_live m + 3 \<and> rb_abs T' = rb_abs T \<and> rb_used T' = rb_used T \<and>
    rb_count T' = rb_count T + 1"
proof -
  let ?t = "rb_tree T" and ?T = "alloc_node (set_node k v) T" and ?z = "rb_fresh T"
  note D = rb_wfD [OF wf] and rep = rep_alloc [OF rb_wfD(1) [OF wf], of "set_node k v"]
  have "rbtree_insert ?T ?z = Inr ?T"
    by (rule rbtree_insert_stored [OF rep D(3)])
      (use rb_abs_None [OF wf, of k] k in \<open>auto simp: alloc_node_def set_node_def\<close>)
  moreover have t: "rb_tree ?T = ?t"
    using rb_tree_rep [OF rep] .
  moreover have "rb_wf ?T"
    by (rule rb_wfI [OF rep D(2,3)]) (use D(4) in blast)
  moreover have "rb_abs ?T = rb_abs T" "rb_used ?T = rb_used T"
    by (simp_all add: rb_abs_def rb_used_def t fun_eq_iff)
  moreover have "rb_count ?T = rb_count T"
    by (simp add: alloc_node_def)
  ultimately show ?thesis
    using set_unfold [OF m, of k v T ?T] c by auto
qed

lemma rbtree_get:
  assumes wf: "rb_wf T"
  shows "kvs_rbtree_get T (Some k) = Inr (rb_abs T k, T)"
proof (cases "k \<in> keys (rb_tree T)")
  case True
  obtain ctx l a c v r where a: "rb_tree T = plug ctx (Bin l a c k v r)" "rbtree_search T (Some k) = Inr a"
    using rbtree_search_ok(2) [OF rb_wfD(1,3) [OF wf] True] by blast
  note rep = rb_wfD(1) [OF wf, unfolded a(1)]
  from rb_abs_node [OF wf a(1)] show ?thesis
    using a(2) rd_node(6) [OF rep] rep_distinct_ptr(1) [OF rep]
    by (auto simp: kvs_rbtree_get_def read_vptr_def)
next
  case False
  then have "rb_abs T k = None"
    using rb_abs_None [OF wf] by simp
  then show ?thesis
    using rbtree_search_ok(1) [OF rb_wfD(1,3) [OF wf] False] by (simp add: kvs_rbtree_get_def)
qed

lemma rbtree_absent:
  assumes wf: "rb_wf T" and k: "rb_abs T k = None"
  shows "kvs_rbtree_delete T (Some k) m = Inr (- 1, T, m)"
    "kvs_rbtree_modify T (Some k) v m = Inr (- 1, T, m)"
  using rbtree_search_ok(1) [OF rb_wfD(1,3) [OF wf]] rb_abs_None [OF wf] k
  by (simp_all add: kvs_rbtree_delete_def kvs_rbtree_modify_def)

lemma rbtree_found:
  assumes wf: "rb_wf T" and k: "rb_abs T k \<noteq> None"
  obtains ctx l a c s r where "rb_tree T = plug ctx (Bin l a c k (VPtr s) r)" "rbtree_search T (Some k) = Inr a"
    "a \<noteq> rb_nil T" "rd nvalue T a = Inr (VPtr s)"
proof -
  have "k \<in> keys (rb_tree T)"
    using rb_abs_None [OF wf] k by simp
  then obtain ctx l a c v r where a: "rb_tree T = plug ctx (Bin l a c k v r)" "rbtree_search T (Some k) = Inr a"
    using rbtree_search_ok(2) [OF rb_wfD(1,3) [OF wf]] by blast
  note rep = rb_wfD(1) [OF wf, unfolded a(1)]
  obtain s where "v = VPtr s" using rb_abs_node(2) [OF wf a(1)] by blast
  with a that rd_node(6) [OF rep] rep_distinct_ptr(1) [OF rep] show thesis by simp
qed

lemma rbtree_delete_stored:
  assumes wf: "rb_wf T" and k: "rb_abs T k \<noteq> None" and c: "- INT_MAX \<le> rb_count T"
  shows "\<exists>T'. kvs_rbtree_delete T (Some k) m = Inr (0, T', m) \<and> rb_wf T' \<and> rb_abs T' = (rb_abs T)(k := None) \<and>
    Suc (rb_used T') = rb_used T \<and> rb_count T' = rb_count T - 1"
proof -
  obtain ctx l a co s r where a: "rb_tree T = plug ctx (Bin l a co k (VPtr s) r)" "rbtree_search T (Some k) = Inr a"
    "a \<noteq> rb_nil T"
    by (rule rbtree_found [OF wf k])
  note D = rb_wfD [OF wf]
  let ?xs = "map snd (cleft ctx @ contents l)" and ?ys = "map snd (contents r @ cright ctx)"
  obtain y T1 t1 where T1: "rbtree_delete T a = Inr (y, T1)" "y \<noteq> 0" "rep T1 t1" "red_black t1" "same_tree T T1"
    "map snd (contents t1) = ?xs @ ?ys"
    using rbtree_delete_ok [OF D(1,2) [unfolded a(1)]] by auto
  have t1: "rb_tree T1 = t1" using rb_tree_rep [OF T1(3)] .
  have old: "map snd (contents (rb_tree T)) = ?xs @ (k, VPtr s) # ?ys"
    by (simp add: a(1) contents_plug)
  have key: "map key_of zs = map fst (map snd zs)" for zs
    by auto
  have bst1: "bst t1"
    using D(3) unfolding bst_def key old T1(6) by (auto simp: sorted_wrt_append)
  have vals: "\<exists>s. v = VPtr s" if "(b, j, v) \<in> set (contents t1)" for b j v
  proof -
    have "(j, v) \<in> set (map snd (contents t1))" using that by force
    then have "(j, v) \<in> set (map snd (contents (rb_tree T)))" unfolding old T1(6) by auto
    then show ?thesis using D(4) by auto
  qed
  have "k \<notin> fst ` set (?xs @ ?ys)"
    by (rule distinct_mid [OF bst_distinct [OF D(3), unfolded old]])
  from map_of_remove_mid [OF this, of "VPtr s"] have "rb_abs T1 = (rb_abs T)(k := None)"
    unfolding rb_abs_def t1 old T1(6) by (simp add: fun_eq_iff)
  moreover have "rb_wf T1"
    by (rule rb_wfI [OF T1(3,4) bst1 vals])
  moreover have "Suc (rb_used T1) = rb_used T"
    using arg_cong [OF T1(6), of length] arg_cong [OF old, of length] by (simp add: rb_used_def t1)
  ultimately show ?thesis
    using a(2,3) T1(1,2,5) c by (auto simp: kvs_rbtree_delete_def same_tree_def)
qed

lemma rbtree_modify_stored:
  assumes wf: "rb_wf T" and k: "rb_abs T k \<noteq> None" and m: "mem_good m"
  shows "\<exists>T' m'. kvs_rbtree_modify T (Some k) (Some v) m = Inr (0, T', m') \<and> rb_wf T' \<and> mem_good m' \<and>
    mem_live m' = mem_live m \<and> rb_abs T' = (rb_abs T)(k \<mapsto> v) \<and> rb_used T' = rb_used T \<and>
    rb_count T' = rb_count T"
proof -
  obtain ctx l a co s r where a: "rb_tree T = plug ctx (Bin l a co k (VPtr s) r)" "rbtree_search T (Some k) = Inr a"
    "a \<noteq> rb_nil T" "rd nvalue T a = Inr (VPtr s)"
    by (rule rbtree_found [OF wf k])
  note D = rb_wfD [OF wf]
  let ?t = "plug ctx (Bin l a co k (VPtr v) r)"
  obtain T1 where T1: "set_value a (VPtr v) T = Inr T1" "rep T1 ?t" "same_nil T T1"
    using wr_node [OF D(1) [unfolded a(1)], of "\<lambda>n. n\<lparr>nvalue := Some (VPtr v)\<rparr>" co k "VPtr v"]
    by (auto simp: mk_def)
  have t1: "rb_tree T1 = ?t" using rb_tree_rep [OF T1(2)] .
  let ?xs = "map snd (cleft ctx @ contents l)" and ?ys = "map snd (contents r @ cright ctx)"
  have old: "map snd (contents (rb_tree T)) = ?xs @ (k, VPtr s) # ?ys"
    and new: "map snd (contents ?t) = ?xs @ (k, VPtr v) # ?ys"
    by (simp_all add: a(1) contents_plug)
  have "k \<notin> fst ` set (?xs @ ?ys)"
    by (rule distinct_mid [OF bst_distinct [OF D(3), unfolded old]])
  then have mid: "map_of (?xs @ (k, w) # ?ys) = (map_of (?xs @ ?ys))(k \<mapsto> w)" for w
    by (intro map_of_insert_mid) auto
  have "rb_abs T1 = (rb_abs T)(k \<mapsto> v)"
    unfolding rb_abs_def t1 old new mid by (simp add: fun_eq_iff)
  moreover have "rb_wf T1"
  proof (rule rb_wfI [OF T1(2)])
    show "red_black ?t"
      using red_black_contents D(2) a(1) by metis
    have "map key_of (contents ?t) = map key_of (contents (rb_tree T))"
      by (simp add: a(1) contents_plug)
    with D(3) show "bst ?t" by (simp add: bst_def)
    show "\<exists>s. w = VPtr s" if "(b, j, w) \<in> set (contents ?t)" for b j w
      using D(4) [of b j w] that by (auto simp: a(1) contents_plug)
  qed
  moreover have "rb_used T1 = rb_used T"
    by (simp add: rb_used_def t1 a(1) contents_plug)
  moreover have "rb_count T1 = rb_count T"
    using T1(3) by (simp add: same_nil_def)
  ultimately show ?thesis
    using a(2-4) T1(1) m
    by (auto simp: kvs_rbtree_modify_def free_vptr_def kvstore_free_def kvstore_malloc_good Let_def)
qed

section \<open>The tree engine meets the engine contract\<close>

definition rbtree_engine :: "rbtree engine" where
  "rbtree_engine = \<lparr>eng_set = kvs_rbtree_set, eng_get = kvs_rbtree_get,
                    eng_del = kvs_rbtree_delete, eng_mod = kvs_rbtree_modify\<rparr>"

interpretation rbt: kv_engine rbtree_engine rb_inv rb_abs rb_used 2147483647 "- 1"
proof (unfold_locales, goal_cases)
  case (1 s m k v)
  then show ?case
    using rbtree_set_new [of s m k v] by (auto simp: rb_inv_def rbtree_engine_def)
next
  case (2 s k)
  then show ?case
    using rbtree_get [of s k] by (simp add: rb_inv_def rbtree_engine_def)
next
  case (3 s m k)
  then show ?case
    using rbtree_delete_stored [of s k m] by (auto simp: rb_inv_def rbtree_engine_def)
next
  case (4 s m k v)
  then show ?case
    using rbtree_modify_stored [of s k m v] by (auto simp: rb_inv_def rbtree_engine_def)
next
  case (5 s k v m)
  then show ?case
    using rbtree_absent(2) [of s k "Some v" m] by (simp add: rb_inv_def rbtree_engine_def)
qed simp

section \<open>Creation, sequences of calls, destruction\<close>

lemma create_ok:
  assumes "mem_good m"
  obtains T m' where "kvstore_rbtree_create m = Inr (0, T, m')" "rb_inv T" "rb_abs T = (\<lambda>_. None)" "rb_used T = 0"
    "mem_good m'" "rb_count T = 0" "mem_live m' = mem_live m + 2"
proof -
  obtain T m' where c: "kvstore_rbtree_create m = Inr (0, T, m')" "rb_count T = 0" "mem_good m'"
    "mem_live m' = mem_live m + 2" and r: "rep T Tip"
    using assms by (simp add: kvstore_rbtree_create_def kvstore_malloc_good Let_def rep_def nil_ok_def fresh_node_def)
  have "rb_tree T = Tip" using rb_tree_rep [OF r] .
  then have "rb_inv T" "rb_abs T = (\<lambda>_. None)" "rb_used T = 0"
    using r c(2) by (simp_all add: rb_inv_def rb_wf_def rb_used_def rb_abs_def red_black_def fun_eq_iff)
  with c that show thesis by blast
qed

text \<open>A sequence of calls of the entry points, and what a map does that never overwrites.\<close>

datatype rb_op = RSet string string | RGet string | RDel string | RMod string string
datatype rb_reply = Status int | Val cstr

fun rb_do :: "rb_op \<Rightarrow> rbtree \<Rightarrow> mem \<Rightarrow> (rb_reply \<times> rbtree \<times> mem) res" where
  "rb_do (RSet k v) T m = rbind (kvs_rbtree_set T (Some k) (Some v) m) (\<lambda>(r, T, m). Inr (Status r, T, m))"
| "rb_do (RGet k) T m = rbind (kvs_rbtree_get T (Some k)) (\<lambda>(r, T). Inr (Val r, T, m))"
| "rb_do (RDel k) T m = rbind (kvs_rbtree_delete T (Some k) m) (\<lambda>(r, T, m). Inr (Status r, T, m))"
| "rb_do (RMod k v) T m = rbind (kvs_rbtree_modify T (Some k) (Some v) m) (\<lambda>(r, T, m). Inr (Status r, T, m))"

fun rb_run :: "rb_op list \<Rightarrow> rbtree \<Rightarrow> mem \<Rightarrow> (rb_reply list \<times> rbtree \<times> mem) res" where
  "rb_run [] T m = Inr ([], T, m)"
| "rb_run (x # xs) T m =
     rbind (rb_do x T m) (\<lambda>(r, T, m). rbind (rb_run xs T m) (\<lambda>(rs, T, m). Inr (r # rs, T, m)))"

fun rb_spec :: "rb_op \<Rightarrow> (string \<Rightarrow> string option) \<Rightarrow> rb_reply \<times> (string \<Rightarrow> string option)" where
  "rb_spec (RSet k v) M = (Status 0, if M k = None then M(k \<mapsto> v) else M)"
| "rb_spec (RGet k) M = (Val (M k), M)"
| "rb_spec (RDel k) M = (if M k = None then (Status (- 1), M) else (Status 0, M(k := None)))"
| "rb_spec (RMod k v) M = (if M k = None then (Status (- 1), M) else (Status 0, M(k \<mapsto> v)))"

fun rb_specs :: "rb_op list \<Rightarrow> (string \<Rightarrow> string option) \<Rightarrow> rb_reply list \<times> (string \<Rightarrow> string option)" where
  "rb_specs [] M = ([], M)"
| "rb_specs (x # xs) M =
     (let (r, M1) = rb_spec x M; (rs, M2) = rb_specs xs M1 in (r # rs, M2))"

fun sets :: "rb_op list \<Rightarrow> nat" where
  "sets [] = 0"
| "sets (RSet k v # xs) = Suc (sets xs)"
| "sets (x # xs) = sets xs"

lemma rb_do_ok:
  assumes wf: "rb_wf T" and m: "mem_good m" and c: "rb_count T < INT_MAX" "- INT_MAX \<le> rb_count T"
  shows "\<exists>T' m'. rb_do x T m = Inr (fst (rb_spec x (rb_abs T)), T', m') \<and> rb_wf T' \<and> mem_good m' \<and>
    rb_abs T' = snd (rb_spec x (rb_abs T)) \<and> \<bar>rb_count T' - rb_count T\<bar> \<le> 1 \<and>
    mem_live m' = mem_live m + 3 * int (sets [x])"
proof (cases x)
  case (RSet k v)
  then show ?thesis
    using rbtree_set_new [OF wf m _ c(1), of k v] rbtree_set_stored [OF wf m _ c(1), of k v]
    by (cases "rb_abs T k = None") force+
next
  case (RGet k)
  then show ?thesis using rbtree_get [OF wf, of k] wf m by simp
next
  case (RDel k)
  then show ?thesis
    using rbtree_absent(1) [OF wf, of k m] rbtree_delete_stored [OF wf _ c(2), of k m] wf m
    by (cases "rb_abs T k = None") force+
next
  case (RMod k v)
  then show ?thesis
    using rbtree_absent(2) [OF wf, of k "Some v" m] rbtree_modify_stored [OF wf _ m, of k v] wf m
    by (cases "rb_abs T k = None") force+
qed

lemma rb_run_ok:
  assumes "rb_wf T" "mem_good m" "\<bar>rb_count T\<bar> + int (length xs) \<le> INT_MAX"
  shows "\<exists>T' m'. rb_run xs T m = Inr (fst (rb_specs xs (rb_abs T)), T', m') \<and> rb_wf T' \<and> mem_good m' \<and>
    rb_abs T' = snd (rb_specs xs (rb_abs T)) \<and> mem_live m' = mem_live m + 3 * int (sets xs)"
  using assms
proof (induction xs arbitrary: T m)
  case (Cons x xs)
  have "rb_count T < INT_MAX" "- INT_MAX \<le> rb_count T"
    using Cons.prems(3) by auto
  then obtain T1 m1 where T1: "rb_do x T m = Inr (fst (rb_spec x (rb_abs T)), T1, m1)" "rb_wf T1" "mem_good m1"
    "rb_abs T1 = snd (rb_spec x (rb_abs T))" "\<bar>rb_count T1 - rb_count T\<bar> \<le> 1"
    "mem_live m1 = mem_live m + 3 * int (sets [x])"
    using rb_do_ok [OF Cons.prems(1,2)] by blast
  have "\<bar>rb_count T1\<bar> + int (length xs) \<le> INT_MAX"
    using T1(5) Cons.prems(3) by simp
  then obtain T' m' where "rb_run xs T1 m1 = Inr (fst (rb_specs xs (rb_abs T1)), T', m')" "rb_wf T'" "mem_good m'"
    "rb_abs T' = snd (rb_specs xs (rb_abs T1))" "mem_live m' = mem_live m1 + 3 * int (sets xs)"
    using Cons.IH [OF T1(2,3)] by blast
  moreover have "int (sets (x # xs)) = int (sets [x]) + int (sets xs)"
    by (cases x) auto
  ultimately show ?case
    using T1 by (simp add: case_prod_unfold Let_def)
qed simp

lemma destory_loop_faults:
  assumes "rep T t" "red_black t" "node \<noteq> rb_nil T" "length (contents t) < n"
  shows "destory_loop n T node = Inl Uninit_Read"
  using assms
proof (induction n arbitrary: T t node)
  case (Suc n)
  have root: "rb_root T = ptr (rb_nil T) t"
    using Suc.prems(1) by (simp add: rep_def)
  show ?case
  proof (cases "t = Tip")
    case True
    then have "rbtree_mini T (rb_root T) = Inl Uninit_Read"
      using Suc.prems(1) root by (auto simp: rbtree_mini_def steps_def rd_def rep_def nil_ok_def)
    then show ?thesis using Suc.prems(3) by simp
  next
    case False
    obtain ctx y c k v r where y: "t = plug ctx (Bin Tip y c k v r)" "rbtree_mini T (rb_root T) = Inr y"
      using mini_loop_ok [of T "[]" t "steps T"] False Suc.prems(1) rep_size(2) [OF Suc.prems(1)] root
      by (auto simp: rbtree_mini_def)
    obtain z T1 t1 where T1: "rbtree_delete T y = Inr (z, T1)" "z \<noteq> 0" "z \<noteq> rb_nil T" "rep T1 t1" "red_black t1"
      "same_tree T T1" "map snd (contents t1) = map snd (cleft ctx @ contents Tip @ contents r @ cright ctx)"
      using rbtree_delete_ok [OF Suc.prems(1,2) [unfolded y(1)]] by blast
    have "length (contents t1) < n"
      using arg_cong [OF T1(7), of length] Suc.prems(4) by (simp add: y(1) contents_plug)
    then have "destory_loop n T1 z = Inl Uninit_Read"
      using Suc.IH [OF T1(4,5)] T1(3,6) by (simp add: same_tree_def)
    moreover have "y \<noteq> rb_nil T"
      using rep_distinct_ptr(1) [OF Suc.prems(1) [unfolded y(1)]] .
    ultimately show ?thesis
      using Suc.prems(3) y(2) T1(1,2) by simp
  qed
qed simp

section \<open>Properties\<close>

text \<open>
  C15: the store over the tree engine, end to end, for requests on which it behaves as a map: GET and MOD of any
  key, SET of keys that are not stored, DEL of keys that are, each with all its words. From
  \<open>kvstore_rbtree_create\<close> on, the coroutine server answers every sequence of up to \<open>INT_MAX\<close> such requests with
  exactly the replies that a map gives (cut to 1023 characters) and leaves the tree storing that map, with all the
  rotations that they cause. A SET of a stored key reports success and changes nothing; DEL of an absent key and
  incomplete or unknown commands are outside of the claim.
\<close>

theorem rbtree_session_refines_map:
  assumes "mem_good m0" and "length ts \<le> 2147483647" and "\<forall>t \<in> set ts. sendable t"
    and "length sents = length ts" and "- 1 \<notin> set sents"
    and "kv_run False (- 1) (map words ts) (\<lambda>_. None) = Some (replies, M)"
  shows "\<exists>T m T' m'. kvstore_rbtree_create m0 = Inr (0, T, m) \<and>
           server_reader rbtree_engine (zip (map Rx_Data ts) sents) T m =
             Inr (False, map (take 1023) replies, T', m') \<and>
           rb_inv T' \<and> rb_abs T' = M"
proof -
  obtain T m where T: "kvstore_rbtree_create m0 = Inr (0, T, m)" "rb_inv T" "rb_abs T = (\<lambda>_. None)"
    "rb_used T = 0" "mem_good m"
    by (rule create_ok [OF assms(1)])
  have "rb_used T + length ts \<le> 2147483647" "nul_free (rb_abs T)"
    "kv_run False (- 1) (map words ts) (rb_abs T) = Some (replies, M)"
    using T assms by (simp_all add: nul_free_def)
  from rbt.low.session [OF T(2,5) this(1,2) assms(3-5) this(3)] T(1) show ?thesis by blast
qed

theorem rbtree_session_refines_map_witness:
  "\<exists>T m T' m'. kvstore_rbtree_create good_mem = Inr (0, T, m) \<and>
     server_reader rbtree_engine (zip (map Rx_Data [''SET a 1'', ''GET a'']) [7, 1]) T m =
       Inr (False, map (take 1023) [''SUCCESS'', ''1''], T', m') \<and>
     rb_inv T' \<and> rb_abs T' = [''a'' \<mapsto> ''1'']"
proof (rule rbtree_session_refines_map)
  show "kv_run False (- 1) (map words [''SET a 1'', ''GET a'']) (\<lambda>_. None) =
      Some ([''SUCCESS'', ''1''], [''a'' \<mapsto> ''1''])"
    unfolding list.map session_words by simp
  show "\<forall>t \<in> set [''SET a 1'', ''GET a'']. sendable t"
    unfolding list.set using session_sendable by blast
qed simp_all

text \<open>
  C16: every sequence of calls of the entry points after creation returns, keeps the heap a
  red-black search tree, and answers as a map that does not overwrite: setting a stored key reports success and
  changes nothing. Every set keeps three blocks of memory for good, whatever is deleted later.
\<close>

theorem rbtree_calls_keep_the_tree:
  assumes "mem_good m0" and "length xs \<le> 2147483647"
  shows "\<exists>T m T' m'. kvstore_rbtree_create m0 = Inr (0, T, m) \<and>
           rb_run xs T m = Inr (fst (rb_specs xs (\<lambda>_. None)), T', m') \<and>
           rep T' (rb_tree T') \<and> red_black (rb_tree T') \<and> bst (rb_tree T') \<and>
           rb_abs T' = snd (rb_specs xs (\<lambda>_. None)) \<and> mem_live m' = mem_live m + 3 * int (sets xs)"
proof -
  obtain T m where T: "kvstore_rbtree_create m0 = Inr (0, T, m)" "rb_inv T" "rb_abs T = (\<lambda>_. None)"
    "mem_good m" "rb_count T = 0"
    by (rule create_ok [OF assms(1)])
  moreover obtain T' m' where "rb_run xs T m = Inr (fst (rb_specs xs (rb_abs T)), T', m')" "rb_wf T'"
    "rb_abs T' = snd (rb_specs xs (rb_abs T))" "mem_live m' = mem_live m + 3 * int (sets xs)"
    using rb_run_ok [of T m xs] T assms(2) by (auto simp: rb_inv_def)
  ultimately show ?thesis
    using rb_wfD(1-3) [of T'] by auto
qed

theorem rbtree_calls_keep_the_tree_witness:
  "\<exists>T m T' m'. kvstore_rbtree_create good_mem = Inr (0, T, m) \<and>
     rb_run [RSet ''b'' ''1'', RSet ''a'' ''2'', RSet ''b'' ''3'', RDel ''a'', RGet ''b''] T m =
       Inr ([Status 0, Status 0, Status 0, Status 0, Val (Some ''1'')], T', m') \<and>
     red_black (rb_tree T') \<and> bst (rb_tree T') \<and> mem_live m' = mem_live m + 9"
proof -
  let ?xs = "[RSet ''b'' ''1'', RSet ''a'' ''2'', RSet ''b'' ''3'', RDel ''a'', RGet ''b'']"
  have s: "fst (rb_specs ?xs (\<lambda>_. None)) = [Status 0, Status 0, Status 0, Status 0, Val (Some ''1'')]" "sets ?xs = 3"
    by simp_all
  show ?thesis
    using rbtree_calls_keep_the_tree [OF good_mem_good, of ?xs, unfolded s] by (simp only: list.size) auto
qed

text \<open>
  C17: a search in a tree that stores \<open>n\<close> keys finds a node exactly for the stored keys and is logarithmic. With
  \<open>d\<close> the binary logarithm of \<open>n + 1\<close>, rounded down, \<open>2 d + 1\<close> tests of the loop condition are enough for the
  loop of \<open>rbtree_search\<close>, and it calls \<open>strcmp\<close>, up to twice per node, at most \<open>4 d\<close> times.
\<close>

theorem rbtree_search_is_logarithmic:
  assumes "rb_wf T" and "Suc (rb_used T) < 2 ^ Suc d"
  shows "\<exists>node. search_loop (Suc (2 * d)) T (Some k) (rb_root T) = Inr node \<and>
           rbtree_search T (Some k) = Inr node \<and> (node = rb_nil T \<longleftrightarrow> rb_abs T k = None) \<and>
           search_strcmps (steps T) T k (rb_root T) \<le> 4 * d"
proof -
  note D = rb_wfD [OF assms(1)]
  have h: "height (rb_tree T) < Suc (2 * d)"
    using red_black_height [OF D(2), of d] assms(2) by (simp add: rb_used_def)
  have root: "rb_root T = ptr (rb_nil T) (rb_tree T)"
    using D(1) by (simp add: rep_def)
  have cost: "search_strcmps (steps T) T k (rb_root T) \<le> 4 * d"
    using search_strcmps_le [of T "[]" "rb_tree T" "steps T" k] D(1) h root by simp
  note short = search_loop_ok [of T "[]" "rb_tree T" "Suc (2 * d)" k, simplified plug.simps, OF D(1,3) h]
    and long = search_loop_ok [of T "[]" "rb_tree T" "steps T" k, simplified plug.simps, OF D(1,3)
      le_less_trans [OF height_le rep_size(2) [OF D(1)]]]
  show ?thesis
  proof (cases "k \<in> keys (rb_tree T)")
    case True
    from True short root obtain ctx l a c v r where
      1: "rb_tree T = plug ctx (Bin l a c k v r)" "search_loop (Suc (2 * d)) T (Some k) (rb_root T) = Inr a"
      by metis
    from True long root obtain ctx' l' a' c' v' r' where
      2: "rb_tree T = plug ctx' (Bin l' a' c' k v' r')" "rbtree_search T (Some k) = Inr a'"
      unfolding rbtree_search_def by metis
    have "(k, a) \<in> set (map (\<lambda>x. (key_of x, fst x)) (contents (rb_tree T)))"
      by (simp add: 1(1) contents_plug)
    moreover have "(k, a') \<in> set (map (\<lambda>x. (key_of x, fst x)) (contents (rb_tree T)))"
      by (simp add: 2(1) contents_plug)
    moreover have "distinct (map fst (map (\<lambda>x. (key_of x, fst x)) (contents (rb_tree T))))"
      using D(3) by (simp add: bst_def strict_sorted_iff comp_def)
    ultimately have "a = a'"
      by (metis map_of_eq_Some_iff option.inject)
    moreover have "a \<noteq> rb_nil T"
      using rep_distinct_ptr(1) [OF D(1) [unfolded 1(1)]] .
    ultimately show ?thesis
      using 1(2) 2(2) True rb_abs_None [OF assms(1), of k] cost by auto
  next
    case False
    then show ?thesis
      using short long root rb_abs_None [OF assms(1), of k] cost by (simp add: rbtree_search_def)
  qed
qed

text \<open>A tree that stores one key.\<close>

definition demo_tree :: rbtree where
  "demo_tree = \<lparr>rb_root = 2, rb_nil = 1, rb_count = 1,
     rb_heap = [1 \<mapsto> fresh_node\<lparr>nkey := Some [], ncolor := Some BLACK\<rparr>, 2 \<mapsto> mk B 1 1 1 ''a'' (VPtr ''1'')],
     rb_fresh = 3\<rparr>"

lemma demo_tree_ok: "rb_wf demo_tree" "rb_abs demo_tree ''a'' = Some ''1''" "rb_used demo_tree = 1"
proof -
  have r: "rep demo_tree (Bin Tip 2 B ''a'' (VPtr ''1'') Tip)"
    by (simp add: rep_def demo_tree_def nil_ok_def fresh_node_def)
  show "rb_wf demo_tree"
    by (rule rb_wfI [OF r]) (simp_all add: red_black_def)
  show "rb_abs demo_tree ''a'' = Some ''1''" "rb_used demo_tree = 1"
    by (simp_all add: rb_abs_def rb_used_def rb_tree_rep [OF r])
qed

theorem rbtree_search_is_logarithmic_witness:
  "\<exists>node. search_loop 3 demo_tree (Some ''a'') (rb_root demo_tree) = Inr node \<and>
     rbtree_search demo_tree (Some ''a'') = Inr node \<and> node \<noteq> rb_nil demo_tree \<and>
     search_strcmps (steps demo_tree) demo_tree ''a'' (rb_root demo_tree) \<le> 4"
proof -
  have "Suc (rb_used demo_tree) < 2 ^ Suc 1" "Suc (2 * 1) = (3 :: nat)"
    by (simp_all add: demo_tree_ok)
  from rbtree_search_is_logarithmic [OF demo_tree_ok(1) this(1), of "''a''", unfolded this(2)]
  show ?thesis using demo_tree_ok(2) by (simp only: mult_1_right) auto
qed

text \<open>
  C24: destroying a tree that stores a key always reads memory that was never written. The loop takes out
  every node and then asks for the smallest node of the empty tree, whose nil node has no left link.
\<close>

theorem rbtree_destroy_reads_unwritten:
  assumes "rb_wf T" and "rb_abs T k = Some v"
  shows "kvstore_rbtree_destory T m = Inl Uninit_Read"
proof -
  note D = rb_wfD [OF assms(1)]
  have "k \<in> keys (rb_tree T)"
    using rb_abs_None [OF assms(1), of k] assms(2) by simp
  then have "rb_root T \<noteq> rb_nil T"
    using D(1) ptr_nil_iff [of "rb_nil T" "rb_tree T"] by (auto simp: rep_def)
  moreover have "length (contents (rb_tree T)) < steps T"
    using rep_size(2) [OF D(1)] by (simp add: addrs_contents)
  ultimately have "destory_loop (steps T) T (rb_root T) = Inl Uninit_Read"
    using destory_loop_faults [OF D(1,2)] by blast
  moreover have "rd nkey T (rb_nil T) = Inr []"
    using D(1) by (auto simp: rep_def nil_ok_def rd_def)
  ultimately show ?thesis by (simp add: kvstore_rbtree_destory_def)
qed

theorem rbtree_destroy_reads_unwritten_witness:
  "rb_abs demo_tree ''a'' = Some ''1'' \<and> kvstore_rbtree_destory demo_tree good_mem = Inl Uninit_Read"
  using rbtree_destroy_reads_unwritten [OF demo_tree_ok(1,2), of good_mem] demo_tree_ok(2) by blast

end
