(* ===== verification/NtyProg.thy ===== *)
theory NtyProg
  imports Prelude
begin

unbundle bit_operations_syntax

text \<open>
  The coroutines of the key-value store's server, \<open>server\<close> and \<open>server_reader\<close> of \<open>src/kv_store/ntyco_entry.c\<close>, and
  the hooked system calls that they make (\<open>src/kv_store/Ntyco/nty_socket.c\<close>). A coroutine gives up the processor
  in the hooks only, so its code is a set of program points, one for each call in which it yields, and
  steps between them. A step is what the coroutine does from one yield to the next, given the answers of
  the kernel in between. What a request does to the store is the subject of \<open>KvServer\<close>; here only the length of
  its reply matters.
\<close>

abbreviation POLLIN :: u16 where "POLLIN \<equiv> 1"
abbreviation POLLOUT :: u16 where "POLLOUT \<equiv> 4"
abbreviation POLLERR :: u16 where "POLLERR \<equiv> 8"
abbreviation POLLHUP :: u16 where "POLLHUP \<equiv> 16"

section \<open>The hooks\<close>

datatype errno = EAGAIN | ECONNABORTED | EMFILE | ENFILE | EOTHER

text \<open>
  The kernel's answers during a step: \<open>socket\<close>, the calls of \<open>fcntl\<close> for it and in \<open>nty_socket\<close>, \<open>accept\<close> with
  \<open>errno\<close> and its \<open>fcntl\<close>, \<open>recv\<close> and \<open>send\<close>; the length of the reply to a request; whether memory for a new
  coroutine and for the saved stack can be allocated, and how deep the stack is at the yield. \<open>server_reader\<close> gets
  the address of the variable \<open>cli_fd\<close> of \<open>server\<close>, on the stack that all coroutines share: \<open>io_arg\<close> is
  what it finds there, given what \<open>server\<close> stored.
\<close>

record io =
  io_socket :: int
  io_fcntl :: int
  io_fcntl2 :: int
  io_accept :: "int \<times> errno"
  io_accept_fcntl :: int
  io_arg :: "int \<Rightarrow> int"
  io_recv :: int
  io_reply :: nat
  io_send :: int
  io_calloc :: bool
  io_depth :: nat
  io_realloc :: bool

definition hook_socket :: "int \<Rightarrow> int \<Rightarrow> int" where
  "hook_socket fd ret = (if fd = - 1 then - 1 else if ret = - 1 then - 1 else fd)"

definition nty_socket :: "int \<Rightarrow> int \<Rightarrow> int \<Rightarrow> int" where
  "nty_socket fd ret ret2 =
     (let fd = hook_socket fd ret in if fd = - 1 then - 1 else if ret2 = - 1 then - 1 else fd)"

text \<open>What \<open>accept\<close> does after its poll; \<^term>\<open>None\<close> is the \<open>continue\<close> that polls again.\<close>

definition hook_accept :: "int \<times> errno \<Rightarrow> int \<Rightarrow> int option" where
  "hook_accept answer ret =
     (case answer of (sockfd, e) \<Rightarrow>
        if sockfd < 0 then (if e = EAGAIN then None else Some (- 1))
        else if ret = - 1 then Some (- 1) else Some sockfd)"

text \<open>\<open>send\<close> up to its first poll, and from one poll to the next: it returns, or it has sent so much and polls.\<close>

datatype sending = Returns int | Sent int

definition hook_send :: "int \<Rightarrow> int \<Rightarrow> sending" where
  "hook_send len ret =
     (if ret = 0 then Returns 0
      else
        let sent = (if 0 < ret then ret else 0)
        in if sent < len then Sent sent
           else Returns (if ret \<le> 0 \<and> sent = 0 then ret else sent))"

definition hook_send_more :: "int \<Rightarrow> int \<Rightarrow> int \<Rightarrow> sending" where
  "hook_send_more len sent ret =
     (if ret \<le> 0 then Returns (if sent = 0 then ret else sent)
      else if sent + ret < len then Sent (sent + ret) else Returns (sent + ret))"

section \<open>The two functions\<close>

text \<open>
  The points: the starts of \<open>server\<close> and of \<open>server_reader\<close> for a descriptor, and the calls of \<open>accept\<close>, \<open>recv\<close> and
  \<open>send\<close> that they wait in; for \<open>send\<close> with the length of the reply and how much of it has been sent.
\<close>

datatype prog = Server | Accepting int | Reader int | Receiving int | Sending int int int

text \<open>A step ends in a poll or with the return of the function.\<close>

datatype ending = Polls "(int \<times> u16) list" prog | Exits

definition poll_accept :: "int \<Rightarrow> ending" where
  "poll_accept fd = Polls [(fd, POLLIN OR POLLERR OR POLLHUP)] (Accepting fd)"

definition poll_recv :: "int \<Rightarrow> ending" where
  "poll_recv fd = Polls [(fd, POLLIN OR POLLERR OR POLLHUP)] (Receiving fd)"

text \<open>\<open>server\<close> up to its first \<open>accept\<close>, and its loop after \<open>accept\<close>; a new coroutine reads from what \<open>accept\<close> returned.\<close>

definition server :: "io \<Rightarrow> prog list \<times> ending" where
  "server a =
     (let fd = nty_socket (io_socket a) (io_fcntl a) (io_fcntl2 a)
      in if fd < 0 then ([], Exits) else ([], poll_accept fd))"

definition server_accept :: "io \<Rightarrow> int \<Rightarrow> prog list \<times> ending" where
  "server_accept a fd =
     (case hook_accept (io_accept a) (io_accept_fcntl a) of
        None \<Rightarrow> ([], poll_accept fd)
      | Some cli_fd \<Rightarrow> ([Reader cli_fd], poll_accept fd))"

text \<open>The loop of \<open>server_reader\<close> after \<open>send\<close> and after \<open>recv\<close>.\<close>

definition reader_send :: "int \<Rightarrow> int \<Rightarrow> sending \<Rightarrow> ending" where
  "reader_send fd len r =
     (case r of
        Returns ret \<Rightarrow> if ret = - 1 then Exits else poll_recv fd
      | Sent sent \<Rightarrow> Polls [(fd, POLLOUT OR POLLERR OR POLLHUP)] (Sending fd len sent))"

definition reader_recv :: "io \<Rightarrow> int \<Rightarrow> ending" where
  "reader_recv a fd =
     (let ret = io_recv a; len = int (io_reply a)
      in if 0 < ret then reader_send fd len (hook_send len (io_send a))
         else if ret = 0 then Exits else poll_recv fd)"

fun step :: "io \<Rightarrow> prog \<Rightarrow> prog list \<times> ending" where
  "step a Server = server a"
| "step a (Accepting fd) = server_accept a fd"
| "step a (Reader fd) = ([], poll_recv (io_arg a fd))"
| "step a (Receiving fd) = ([], reader_recv a fd)"
| "step a (Sending fd len sent) = ([], reader_send fd len (hook_send_more len sent (io_send a)))"

section \<open>Descriptors\<close>

text \<open>The descriptors that a coroutine has open at a program point.\<close>

fun prog_fds :: "prog \<Rightarrow> int list" where
  "prog_fds Server = []"
| "prog_fds (Accepting fd) = [fd]"
| "prog_fds (Reader fd) = [fd]"
| "prog_fds (Receiving fd) = [fd]"
| "prog_fds (Sending fd len sent) = [fd]"

text \<open>
  When all goes well: new descriptors are not in use, \<open>accept\<close> fails only because no connection is waiting, and
  setting the flag of a new descriptor succeeds; a new coroutine still finds the descriptor in \<open>cli_fd\<close>; the
  stack is not deeper than its limit and can be saved.
\<close>

definition good_io :: "int set \<Rightarrow> nat \<Rightarrow> io \<Rightarrow> bool" where
  "good_io used max_depth a \<longleftrightarrow>
     io_socket a \<notin> used \<and> (0 \<le> fst (io_accept a) \<longrightarrow> fst (io_accept a) \<notin> used) \<and>
     (fst (io_accept a) < 0 \<longrightarrow> snd (io_accept a) = EAGAIN) \<and> io_accept_fcntl a \<noteq> - 1 \<and>
     (\<forall>fd. io_arg a fd = fd) \<and> io_depth a \<le> max_depth \<and> io_realloc a"

text \<open>
  A step waits for one descriptor, which the coroutine had open or which is new, and hands a new one
  to a coroutine that it creates.
\<close>

lemma step_cases:
  assumes "good_io used d a" and "set (prog_fds p) \<subseteq> used" and "\<forall>fd \<in> set (prog_fds p). 0 \<le> fd"
  obtains (exits) "step a p = ([], Exits)"
  | (opens) fd ev p' where "step a p = ([], Polls [(fd, ev)] p')" "prog_fds p' = [fd]" "fd \<notin> used" "0 \<le> fd"
      "ev AND POLLIN \<noteq> 0 \<or> ev AND POLLOUT \<noteq> 0"
  | (polls) fd ev p' where "step a p = ([], Polls [(fd, ev)] p')" "prog_fds p' = [fd]" "prog_fds p = [fd]"
      "ev AND POLLIN \<noteq> 0 \<or> ev AND POLLOUT \<noteq> 0"
  | (accepts) fd ev p' cli where "step a p = ([Reader cli], Polls [(fd, ev)] p')" "prog_fds p' = [fd]" "prog_fds p = [fd]"
      "ev AND POLLIN \<noteq> 0 \<or> ev AND POLLOUT \<noteq> 0" "cli \<notin> used" "0 \<le> cli"
proof (cases p)
  case Server
  have "server a = ([], Exits) \<or> server a = ([], poll_accept (io_socket a)) \<and> 0 \<le> io_socket a"
    by (simp add: server_def nty_socket_def hook_socket_def Let_def)
  then show thesis
    using Server exits opens [of "io_socket a" _ "Accepting (io_socket a)"] assms(1)
    by (auto simp: poll_accept_def good_io_def)
next
  case (Accepting fd)
  have "hook_accept (io_accept a) (io_accept_fcntl a) = (if fst (io_accept a) < 0 then None else Some (fst (io_accept a)))"
    using assms(1) by (cases "io_accept a") (simp add: hook_accept_def good_io_def)
  then show thesis
    using Accepting polls [of fd _ p] accepts [of "fst (io_accept a)" fd _ p] assms(1)
    by (cases "fst (io_accept a) < 0") (auto simp: server_accept_def poll_accept_def good_io_def)
next
  case (Reader fd)
  then show thesis
    using polls [of fd _ "Receiving fd"] assms(1) by (simp add: poll_recv_def good_io_def)
next
  case (Receiving fd)
  have "reader_recv a fd = Exits \<or> (\<exists>ev p'. reader_recv a fd = Polls [(fd, ev)] p' \<and> prog_fds p' = [fd] \<and>
      (ev AND POLLIN \<noteq> 0 \<or> ev AND POLLOUT \<noteq> 0))"
    by (auto simp: reader_recv_def reader_send_def poll_recv_def Let_def split: sending.splits)
  then show thesis
    using Receiving exits polls by fastforce
next
  case (Sending fd len sent)
  have "reader_send fd len r = Exits \<or> (\<exists>ev p'. reader_send fd len r = Polls [(fd, ev)] p' \<and> prog_fds p' = [fd] \<and>
      (ev AND POLLIN \<noteq> 0 \<or> ev AND POLLOUT \<noteq> 0))" for r
    by (auto simp: reader_send_def poll_recv_def split: sending.splits)
  then show thesis
    using Sending exits polls by fastforce
qed

end
