(* ===== verification/Ntyco.thy ===== *)
theory Ntyco
  imports Prelude NtyProg
begin

unbundle bit_operations_syntax

text \<open>
  The coroutine library beneath the key-value store's server, \<open>src/kv_store/Ntyco\<close>: coroutines
  (\<open>nty_coroutine.c\<close>), the scheduler (\<open>nty_schedule.c\<close>), its epoll descriptor (\<open>nty_epoll.c\<close>) and
  \<open>nty_poll_inner\<close> of \<open>nty_socket.c\<close>, in the configuration with \<open>_USE_UCONTEXT\<close> and
  \<open>CANCEL_FD_WAIT_UINT64\<close>, and \<open>ntyco_entry\<close>, which runs the store's server on it. A context switch is a call:
  from a resume to its next yield a coroutine makes a step of its program (\<open>NtyProg\<close>). What is left on the
  saved stack across a yield, the program point and the descriptors of the \<open>nty_poll_inner\<close> that it yielded
  in, is part of the coroutine. The macros of \<open>nty_queue.h\<close> and \<open>nty_tree.h\<close> are lists, those of the trees sorted by the key.
\<close>

section \<open>State\<close>

abbreviation (input) NTY_COROUTINE_STATUS_WAIT_READ :: nat where "NTY_COROUTINE_STATUS_WAIT_READ \<equiv> 0"
abbreviation (input) NTY_COROUTINE_STATUS_WAIT_WRITE :: nat where "NTY_COROUTINE_STATUS_WAIT_WRITE \<equiv> 1"
abbreviation (input) NTY_COROUTINE_STATUS_NEW :: nat where "NTY_COROUTINE_STATUS_NEW \<equiv> 2"
abbreviation (input) NTY_COROUTINE_STATUS_READY :: nat where "NTY_COROUTINE_STATUS_READY \<equiv> 3"
abbreviation (input) NTY_COROUTINE_STATUS_EXITED :: nat where "NTY_COROUTINE_STATUS_EXITED \<equiv> 4"
abbreviation (input) NTY_COROUTINE_STATUS_SLEEPING :: nat where "NTY_COROUTINE_STATUS_SLEEPING \<equiv> 6"
abbreviation (input) NTY_COROUTINE_STATUS_EXPIRED :: nat where "NTY_COROUTINE_STATUS_EXPIRED \<equiv> 7"
abbreviation (input) NTY_COROUTINE_STATUS_FDEOF :: nat where "NTY_COROUTINE_STATUS_FDEOF \<equiv> 8"
abbreviation (input) NTY_COROUTINE_STATUS_DETACH :: nat where "NTY_COROUTINE_STATUS_DETACH \<equiv> 9"

definition BIT :: "nat \<Rightarrow> u32" where
  "BIT n = push_bit n 1"

definition CLEARBIT :: "nat \<Rightarrow> u32" where
  "CLEARBIT n = NOT (push_bit n 1)"

abbreviation (input) NTY_CO_MAX_STACKSIZE :: nat where "NTY_CO_MAX_STACKSIZE \<equiv> 131072"
abbreviation EPOLLHUP :: u32 where "EPOLLHUP \<equiv> 16"

text \<open>
  The fields of \<open>nty_coroutine\<close> that the library uses. \<open>co_prog\<close> stands for \<open>func\<close> and \<open>arg\<close> and then for the program
  point on the saved stack, where also \<open>co_polls\<close> is.
\<close>

record nty_coroutine =
  co_status :: u32
  co_fd :: int
  co_events :: u16
  co_ops :: u32
  co_sleep_usecs :: u64
  co_id :: int
  co_birth :: u64
  co_stack_size :: nat
  co_polls :: "(int \<times> u16) list"
  co_prog :: prog

text \<open>
  \<open>sc_cos\<close> is the heap of coroutines by address (0 is NULL), \<open>sc_watched\<close> the descriptors that the epoll
  descriptor watches for coroutines.
\<close>

record nty_schedule =
  sc_birth :: u64
  spawned_coroutines :: int
  default_timeout :: u64
  curr_thread :: nat
  poller_fd :: int
  sc_eventfd :: int
  sc_ready :: "nat list"
  sc_busy :: "nat list"
  sc_sleeping :: "nat list"
  sc_waiting :: "nat list"
  sc_cos :: "nat \<Rightarrow> nty_coroutine option"
  sc_fresh :: nat
  sc_watched :: "int list"

definition co_at :: "nty_schedule \<Rightarrow> nat \<Rightarrow> nty_coroutine res" where
  "co_at s x =
     (if x = 0 then Inl Null_Deref
      else case sc_cos s x of None \<Rightarrow> Inl Use_After_Free | Some c \<Rightarrow> Inr c)"

definition upd_co :: "nat \<Rightarrow> (nty_coroutine \<Rightarrow> nty_coroutine) \<Rightarrow> nty_schedule \<Rightarrow> nty_schedule res" where
  "upd_co x f s = rbind (co_at s x) (\<lambda>c. Inr (s\<lparr>sc_cos := (sc_cos s)(x \<mapsto> f c)\<rparr>))"

section \<open>The ordered sets\<close>

text \<open>
  What the macros generated by \<open>RB_GENERATE\<close> do to the elements in order. An element with the same key
  stops an insertion and is returned. Removing an element that is not in the tree follows links of
  another tree, or of none.
\<close>

definition RB_FIND :: "(nat \<Rightarrow> 'k) \<Rightarrow> 'k \<Rightarrow> nat list \<Rightarrow> nat option" where
  "RB_FIND key k xs = find (\<lambda>y. key y = k) xs"

definition RB_INSERT :: "(nat \<Rightarrow> 'k::linorder) \<Rightarrow> nat \<Rightarrow> nat list \<Rightarrow> nat option \<times> nat list" where
  "RB_INSERT key x xs =
     (case RB_FIND key (key x) xs of Some y \<Rightarrow> (Some y, xs) | None \<Rightarrow> (None, insort_key key x xs))"

definition RB_REMOVE :: "nat \<Rightarrow> nat list \<Rightarrow> nat list res" where
  "RB_REMOVE x xs = (if x \<in> set xs then Inr (remove1 x xs) else Inl Out_Of_Bounds)"

definition RB_MIN :: "nat list \<Rightarrow> nat option" where
  "RB_MIN xs = (case xs of [] \<Rightarrow> None | x # _ \<Rightarrow> Some x)"

definition sleep_key :: "nty_schedule \<Rightarrow> nat \<Rightarrow> u64" where
  "sleep_key s x = (case sc_cos s x of None \<Rightarrow> 0 | Some c \<Rightarrow> co_sleep_usecs c)"

definition wait_key :: "nty_schedule \<Rightarrow> nat \<Rightarrow> int" where
  "wait_key s x = (case sc_cos s x of None \<Rightarrow> - 1 | Some c \<Rightarrow> co_fd c)"

section \<open>Sleeping and waiting\<close>

definition nty_coroutine_diff_usecs :: "u64 \<Rightarrow> u64 \<Rightarrow> u64" where
  "nty_coroutine_diff_usecs t1 t2 = t2 - t1"

text \<open>The loop that moves the time on until no other coroutine has it; each turn passes one that has.\<close>

fun sleep_insert :: "nat \<Rightarrow> nat \<Rightarrow> nty_schedule \<Rightarrow> nty_schedule res" where
  "sleep_insert 0 x s = Inl Diverges"
| "sleep_insert (Suc n) x s =
     (case RB_INSERT (sleep_key s) x (sc_sleeping s) of
        (Some _, _) \<Rightarrow>
          rbind (upd_co x (\<lambda>c. c\<lparr>co_sleep_usecs := co_sleep_usecs c + 1\<rparr>) s) (sleep_insert n x)
      | (None, xs) \<Rightarrow>
          upd_co x (\<lambda>c. c\<lparr>co_status := co_status c OR BIT NTY_COROUTINE_STATUS_SLEEPING\<rparr>)
            (s\<lparr>sc_sleeping := xs\<rparr>))"

definition nty_schedule_sched_sleepdown :: "nat \<Rightarrow> u64 \<Rightarrow> u64 \<Rightarrow> nty_schedule \<Rightarrow> nty_schedule res" where
  "nty_schedule_sched_sleepdown x msecs now s =
     rbind (co_at s x) (\<lambda>c.
     rbind (case RB_FIND (sleep_key s) (co_sleep_usecs c) (sc_sleeping s) of
              None \<Rightarrow> Inr s
            | Some y \<Rightarrow> rbind (RB_REMOVE y (sc_sleeping s)) (\<lambda>xs. Inr (s\<lparr>sc_sleeping := xs\<rparr>))) (\<lambda>s.
     rbind (upd_co x (\<lambda>c. c\<lparr>co_sleep_usecs := nty_coroutine_diff_usecs (sc_birth s) now + msecs * 1000\<rparr>) s) (\<lambda>s.
       if msecs = 0 then Inr s else sleep_insert (Suc (length (sc_sleeping s))) x s)))"

definition nty_schedule_desched_sleepdown :: "nat \<Rightarrow> nty_schedule \<Rightarrow> nty_schedule res" where
  "nty_schedule_desched_sleepdown x s =
     rbind (co_at s x) (\<lambda>c.
       if co_status c AND BIT NTY_COROUTINE_STATUS_SLEEPING \<noteq> 0 then
         rbind (RB_REMOVE x (sc_sleeping s)) (\<lambda>xs.
           upd_co x (\<lambda>c. c\<lparr>co_status :=
               (co_status c AND CLEARBIT NTY_COROUTINE_STATUS_SLEEPING OR BIT NTY_COROUTINE_STATUS_READY)
                 AND CLEARBIT NTY_COROUTINE_STATUS_EXPIRED\<rparr>) (s\<lparr>sc_sleeping := xs\<rparr>))
       else Inr s)"

definition nty_schedule_search_wait :: "int \<Rightarrow> nty_schedule \<Rightarrow> (nat \<times> nty_schedule) res" where
  "nty_schedule_search_wait fd s =
     (case RB_FIND (wait_key s) fd (sc_waiting s) of
        None \<Rightarrow> Inl Null_Deref
      | Some x \<Rightarrow> rbind (upd_co x (\<lambda>c. c\<lparr>co_status := 0\<rparr>) s) (\<lambda>s. Inr (x, s)))"

definition nty_schedule_desched_wait :: "int \<Rightarrow> nty_schedule \<Rightarrow> (nat \<times> nty_schedule) res" where
  "nty_schedule_desched_wait fd s =
     (case RB_FIND (wait_key s) fd (sc_waiting s) of
        None \<Rightarrow> Inl Null_Deref
      | Some x \<Rightarrow>
          rbind (RB_REMOVE x (sc_waiting s)) (\<lambda>xs.
          rbind (upd_co x (\<lambda>c. c\<lparr>co_status := 0\<rparr>) (s\<lparr>sc_waiting := xs\<rparr>)) (\<lambda>s.
          rbind (nty_schedule_desched_sleepdown x s) (\<lambda>s. Inr (x, s)))))"

text \<open>
  The status takes the numbers of the two waiting states, not their bits: 0 for reading, and 1, the bit of
  reading, for writing.
\<close>

definition nty_schedule_sched_wait :: "nat \<Rightarrow> int \<Rightarrow> u16 \<Rightarrow> u64 \<Rightarrow> u64 \<Rightarrow> nty_schedule \<Rightarrow> nty_schedule res" where
  "nty_schedule_sched_wait x fd events timeout now s =
     rbind (co_at s x) (\<lambda>c.
       if co_status c AND BIT NTY_COROUTINE_STATUS_WAIT_READ \<noteq> 0 \<or>
          co_status c AND BIT NTY_COROUTINE_STATUS_WAIT_WRITE \<noteq> 0 then Inl Assert_Fail
       else
         rbind (if events AND POLLIN \<noteq> 0 then Inr (co_status c OR of_nat NTY_COROUTINE_STATUS_WAIT_READ)
                else if events AND POLLOUT \<noteq> 0 then Inr (co_status c OR of_nat NTY_COROUTINE_STATUS_WAIT_WRITE)
                else Inl Assert_Fail) (\<lambda>st.
         rbind (upd_co x (\<lambda>c. c\<lparr>co_status := st, co_fd := fd, co_events := events\<rparr>) s) (\<lambda>s.
           case RB_INSERT (wait_key s) x (sc_waiting s) of
             (Some _, _) \<Rightarrow> Inl Assert_Fail
           | (None, xs) \<Rightarrow>
               let s = s\<lparr>sc_waiting := xs\<rparr>
               in if timeout = 1 then Inr s else nty_schedule_sched_sleepdown x timeout now s)))"

definition nty_schedule_cancel_wait :: "nat \<Rightarrow> nty_schedule \<Rightarrow> nty_schedule res" where
  "nty_schedule_cancel_wait x s = rbind (RB_REMOVE x (sc_waiting s)) (\<lambda>xs. Inr (s\<lparr>sc_waiting := xs\<rparr>))"

section \<open>The life of a scheduler\<close>

text \<open>The descriptors that \<open>nty_schedule_free\<close> closes.\<close>

definition nty_schedule_free :: "nty_schedule \<Rightarrow> int list" where
  "nty_schedule_free s = filter (\<lambda>fd. 0 < fd) [poller_fd s, sc_eventfd s]"

text \<open>
  \<open>nty_epoller_ev_register_trigger\<close>, given what \<open>eventfd\<close> and \<open>epoll_ctl\<close> return. It has no
  \<open>return\<close>; its only caller drops the value.
\<close>

definition nty_epoller_ev_register_trigger :: "int \<Rightarrow> int \<Rightarrow> nty_schedule \<Rightarrow> nty_schedule res" where
  "nty_epoller_ev_register_trigger created ctl s =
     rbind (if sc_eventfd s = 0 then (if created = - 1 then Inl Assert_Fail else Inr (s\<lparr>sc_eventfd := created\<rparr>))
            else Inr s) (\<lambda>s. if ctl = - 1 then Inl Assert_Fail else Inr s)"

text \<open>
  \<open>nty_schedule_create\<close>, given the results of the allocations and of the system calls. Like the function
  above it ends without a \<open>return\<close> when it succeeds: then the status is \<^term>\<open>None\<close>.
\<close>

definition nty_schedule_create ::
  "bool \<Rightarrow> bool \<Rightarrow> int \<Rightarrow> int \<Rightarrow> int \<Rightarrow> u64 \<Rightarrow> (int option \<times> nty_schedule option) res" where
  "nty_schedule_create alloc_ok stack_ok epfd evfd ctl now =
     (if \<not> alloc_ok then Inr (Some (- 1), None)
      else if epfd = - 1 then Inr (Some (- 2), None)
      else
        let s = \<lparr>sc_birth = 0, spawned_coroutines = 0, default_timeout = 0, curr_thread = 0, poller_fd = epfd,
                 sc_eventfd = 0, sc_ready = [], sc_busy = [], sc_sleeping = [], sc_waiting = [],
                 sc_cos = (\<lambda>_. None), sc_fresh = 1, sc_watched = []\<rparr>
        in rbind (nty_epoller_ev_register_trigger evfd ctl s) (\<lambda>s.
             if \<not> stack_ok then Inl Assert_Fail
             else Inr (None, Some (s\<lparr>default_timeout := 3000000, sc_birth := now\<rparr>))))"

definition nty_schedule_expired :: "u64 \<Rightarrow> nty_schedule \<Rightarrow> (nat option \<times> nty_schedule) res" where
  "nty_schedule_expired now s =
     (case RB_MIN (sc_sleeping s) of
        None \<Rightarrow> Inr (None, s)
      | Some x \<Rightarrow>
          rbind (co_at s x) (\<lambda>c.
            if co_sleep_usecs c \<le> nty_coroutine_diff_usecs (sc_birth s) now then
              rbind (RB_REMOVE x (sc_sleeping s)) (\<lambda>xs. Inr (Some x, s\<lparr>sc_sleeping := xs\<rparr>))
            else Inr (None, s)))"

definition nty_schedule_isdone :: "nty_schedule \<Rightarrow> bool" where
  "nty_schedule_isdone s \<longleftrightarrow> sc_waiting s = [] \<and> sc_busy s = [] \<and> sc_sleeping s = [] \<and> sc_ready s = []"

definition nty_schedule_min_timeout :: "u64 \<Rightarrow> nty_schedule \<Rightarrow> u64 res" where
  "nty_schedule_min_timeout now s =
     (case RB_MIN (sc_sleeping s) of
        None \<Rightarrow> Inr (default_timeout s)
      | Some x \<Rightarrow>
          rbind (co_at s x) (\<lambda>c.
            let t = nty_coroutine_diff_usecs (sc_birth s) now
            in Inr (if t < co_sleep_usecs c then co_sleep_usecs c - t else 0)))"

text \<open>
  How long \<open>nty_schedule_epoll\<close> waits: seconds and nanoseconds from microseconds, and the milliseconds that
  \<open>nty_epoller_wait\<close> makes of them. These are a \<open>double\<close>, converted to the \<open>int\<close> that \<open>epoll_wait\<close> takes; the
  conversion of a number above \<open>INT_MAX\<close> is undefined.
\<close>

definition epoll_timespec :: "u64 \<Rightarrow> u64 \<times> u64" where
  "epoll_timespec usecs =
     (let sec = usecs div 1000000
      in (sec, if sec \<noteq> 0 then (usecs mod 1000) * 1000 else usecs * 1000))"

definition nty_epoller_wait :: "u64 \<times> u64 \<Rightarrow> int res" where
  "nty_epoller_wait t =
     (let ms = uint (fst t) * 1000 + uint (snd t) div 1000000
      in if INT_MAX < ms then Inl Int_Overflow else Inr ms)"

text \<open>\<open>nty_schedule_epoll\<close>: \<^term>\<open>None\<close> when it does not wait, otherwise the milliseconds.\<close>

definition nty_schedule_epoll :: "u64 \<Rightarrow> nty_schedule \<Rightarrow> int option res" where
  "nty_schedule_epoll now s =
     rbind (nty_schedule_min_timeout now s) (\<lambda>usecs.
       if usecs \<noteq> 0 \<and> sc_ready s = [] then rbind (nty_epoller_wait (epoll_timespec usecs)) (\<lambda>ms. Inr (Some ms))
       else Inr None)"

section \<open>Coroutines\<close>

definition nty_coroutine_free :: "nat \<Rightarrow> nty_schedule \<Rightarrow> nty_schedule res" where
  "nty_coroutine_free x s =
     (if x = 0 then Inr s
      else rbind (co_at s x) (\<lambda>_.
             Inr (s\<lparr>spawned_coroutines := spawned_coroutines s - 1, sc_cos := (sc_cos s)(x := None)\<rparr>)))"

text \<open>\<open>_save_stack\<close> for a stack that is \<open>depth\<close> bytes deep, given whether \<open>realloc\<close> succeeds.\<close>

definition save_stack :: "nat \<Rightarrow> bool \<Rightarrow> nat \<Rightarrow> nty_schedule \<Rightarrow> nty_schedule res" where
  "save_stack depth realloc_ok x s =
     (if NTY_CO_MAX_STACKSIZE < depth then Inl Assert_Fail
      else rbind (co_at s x) (\<lambda>c.
             if co_stack_size c < depth \<and> \<not> realloc_ok then Inl Assert_Fail
             else upd_co x (\<lambda>c. c\<lparr>co_stack_size := depth\<rparr>) s))"

definition nty_coroutine_yield :: "nat \<Rightarrow> bool \<Rightarrow> nat \<Rightarrow> nty_schedule \<Rightarrow> nty_schedule res" where
  "nty_coroutine_yield depth realloc_ok x s =
     rbind (upd_co x (\<lambda>c. c\<lparr>co_ops := 0\<rparr>) s) (\<lambda>s.
     rbind (co_at s x) (\<lambda>c.
       if co_status c AND BIT NTY_COROUTINE_STATUS_EXITED = 0 then save_stack depth realloc_ok x s else Inr s))"

text \<open>\<open>nty_coroutine_create\<close> with a scheduler, given whether \<open>calloc\<close> succeeds; \<open>p\<close> is \<open>func\<close> with \<open>arg\<close>.\<close>

definition nty_coroutine_create :: "bool \<Rightarrow> prog \<Rightarrow> u64 \<Rightarrow> nty_schedule \<Rightarrow> (int \<times> nty_schedule) res" where
  "nty_coroutine_create ok p now s =
     (if \<not> ok then Inr (- 2, s)
      else if spawned_coroutines s = INT_MAX then Inl Int_Overflow
      else
        let x = sc_fresh s;
            c = \<lparr>co_status = BIT NTY_COROUTINE_STATUS_NEW, co_fd = - 1, co_events = 0, co_ops = 0,
                 co_sleep_usecs = 0, co_id = spawned_coroutines s, co_birth = now, co_stack_size = 0, co_polls = [],
                 co_prog = p\<rparr>
        in Inr (0, s\<lparr>sc_cos := (sc_cos s)(x \<mapsto> c), sc_fresh := Suc x,
                     spawned_coroutines := spawned_coroutines s + 1, sc_ready := sc_ready s @ [x]\<rparr>))"

definition nty_coroutine_detach :: "nty_schedule \<Rightarrow> nty_schedule res" where
  "nty_coroutine_detach s =
     upd_co (curr_thread s) (\<lambda>c. c\<lparr>co_status := co_status c OR BIT NTY_COROUTINE_STATUS_DETACH\<rparr>) s"

text \<open>\<open>nty_coroutine_renice\<close> up to its yield; the result says whether it yields.\<close>

definition nty_coroutine_renice :: "nat \<Rightarrow> nty_schedule \<Rightarrow> (bool \<times> nty_schedule) res" where
  "nty_coroutine_renice x s =
     rbind (upd_co x (\<lambda>c. c\<lparr>co_ops := co_ops c + 1\<rparr>) s) (\<lambda>s.
     rbind (co_at s x) (\<lambda>c.
       Inr (if co_ops c < 5 then (False, s) else (True, s\<lparr>sc_ready := sc_ready s @ [x]\<rparr>))))"

text \<open>\<open>nty_coroutine_sleep\<close>: it yields only for a time of 0.\<close>

definition nty_coroutine_sleep :: "u64 \<Rightarrow> u64 \<Rightarrow> nty_schedule \<Rightarrow> (bool \<times> nty_schedule) res" where
  "nty_coroutine_sleep msecs now s =
     (let x = curr_thread s
      in if msecs = 0 then Inr (True, s\<lparr>sc_ready := sc_ready s @ [x]\<rparr>)
         else rbind (nty_schedule_sched_sleepdown x msecs now s) (\<lambda>s. Inr (False, s)))"

section \<open>Polling\<close>

text \<open>
  The two loops of \<open>nty_poll_inner\<close>, before and after its yield. \<open>epoll_ctl\<close> fails for a negative descriptor, which
  the code does not notice.
\<close>

fun poll_add :: "nat \<Rightarrow> (int \<times> u16) list \<Rightarrow> u64 \<Rightarrow> u64 \<Rightarrow> nty_schedule \<Rightarrow> nty_schedule res" where
  "poll_add x [] timeout now s = Inr s"
| "poll_add x ((fd, events) # fds) timeout now s =
     rbind (upd_co x (\<lambda>c. c\<lparr>co_events := events\<rparr>) (if 0 \<le> fd then s\<lparr>sc_watched := List.insert fd (sc_watched s)\<rparr> else s)) (\<lambda>s.
     rbind (nty_schedule_sched_wait x fd events timeout now s) (poll_add x fds timeout now))"

fun poll_del :: "(int \<times> u16) list \<Rightarrow> nty_schedule \<Rightarrow> nty_schedule res" where
  "poll_del [] s = Inr s"
| "poll_del ((fd, events) # fds) s =
     rbind (nty_schedule_desched_wait fd (s\<lparr>sc_watched := removeAll fd (sc_watched s)\<rparr>)) (\<lambda>(_, s). poll_del fds s)"

text \<open>
  \<open>nty_poll_inner\<close> up to its yield; the result says whether it yields. For a timeout of 0 it calls \<open>poll\<close> and returns;
  a negative one becomes \<open>INT_MAX\<close>.
\<close>

definition nty_poll_inner :: "nat \<Rightarrow> (int \<times> u16) list \<Rightarrow> int \<Rightarrow> u64 \<Rightarrow> nty_schedule \<Rightarrow> (bool \<times> nty_schedule) res" where
  "nty_poll_inner x fds timeout now s =
     (if timeout = 0 then Inr (False, s)
      else
        rbind (poll_add x fds (word_of_int (if timeout < 0 then INT_MAX else timeout)) now s) (\<lambda>s.
        rbind (upd_co x (\<lambda>c. c\<lparr>co_polls := fds\<rparr>) s) (\<lambda>s. Inr (True, s))))"

section \<open>Steps of coroutines and the scheduler's loop\<close>

text \<open>
  The surroundings by the number of the resume: the kernel's answers, given the descriptors that the coroutines
  have open, the readings of the clock, and what \<open>epoll_wait\<close> reports, given the watched descriptors.
\<close>

record co_world =
  cw_io :: "nat \<Rightarrow> int list \<Rightarrow> io"
  cw_clock :: "nat \<Rightarrow> u64"
  cw_epoll :: "nat \<Rightarrow> int list \<Rightarrow> (int \<times> u32) list"

definition open_fds :: "nty_schedule \<Rightarrow> int list" where
  "open_fds s =
     concat (map (\<lambda>x. case sc_cos s x of None \<Rightarrow> [] | Some c \<Rightarrow> prog_fds (co_prog c)) [0..<sc_fresh s])"

fun do_creates :: "bool \<Rightarrow> prog list \<Rightarrow> u64 \<Rightarrow> nty_schedule \<Rightarrow> nty_schedule res" where
  "do_creates ok [] now s = Inr s"
| "do_creates ok (p # ps) now s = rbind (nty_coroutine_create ok p now s) (\<lambda>(_, s). do_creates ok ps now s)"

text \<open>The end of a step: a poll in a hook, always with the timeout 1, or the end of \<open>_exec\<close>; then the yield.\<close>

definition do_ending :: "ending \<Rightarrow> io \<Rightarrow> u64 \<Rightarrow> nat \<Rightarrow> nty_schedule \<Rightarrow> nty_schedule res" where
  "do_ending e a now x s =
     rbind (case e of
              Polls fds p \<Rightarrow>
                rbind (upd_co x (\<lambda>c. c\<lparr>co_prog := p\<rparr>) s) (\<lambda>s.
                rbind (nty_poll_inner x fds 1 now s) (\<lambda>(_, s). Inr s))
            | Exits \<Rightarrow>
                upd_co x (\<lambda>c. c\<lparr>co_status := co_status c OR
                  (BIT NTY_COROUTINE_STATUS_EXITED OR BIT NTY_COROUTINE_STATUS_FDEOF OR
                   BIT NTY_COROUTINE_STATUS_DETACH)\<rparr>) s)
       (nty_coroutine_yield (io_depth a) (io_realloc a) x)"

definition nty_coroutine_init :: "nty_coroutine \<Rightarrow> nty_coroutine" where
  "nty_coroutine_init c = c\<lparr>co_status := BIT NTY_COROUTINE_STATUS_READY\<rparr>"

text \<open>\<open>nty_coroutine_resume\<close> from the switch to the coroutine on: its program runs until it yields.\<close>

definition run_slice :: "io \<Rightarrow> u64 \<Rightarrow> nat \<Rightarrow> nty_schedule \<Rightarrow> (int \<times> nty_schedule) res" where
  "run_slice a now x s =
     rbind (co_at s x) (\<lambda>c.
     let (ps, e) = step a (co_prog c)
     in rbind (do_creates (io_calloc a) ps now s) (\<lambda>s.
        rbind (do_ending e a now x s) (\<lambda>s.
        let s = s\<lparr>curr_thread := 0\<rparr>
        in rbind (co_at s x) (\<lambda>c.
             if co_status c AND BIT NTY_COROUTINE_STATUS_EXITED \<noteq> 0 then
               if co_status c AND BIT NTY_COROUTINE_STATUS_DETACH \<noteq> 0
               then rbind (nty_coroutine_free x s) (\<lambda>s. Inr (- 1, s)) else Inr (- 1, s)
             else Inr (0, s)))))"

definition nty_coroutine_resume :: "io \<Rightarrow> u64 \<Rightarrow> nat \<Rightarrow> nty_schedule \<Rightarrow> (int \<times> nty_schedule) res" where
  "nty_coroutine_resume a now x s =
     rbind (co_at s x) (\<lambda>c.
     rbind (if co_status c AND BIT NTY_COROUTINE_STATUS_NEW \<noteq> 0 then upd_co x nty_coroutine_init s else Inr s) (\<lambda>s.
     rbind (poll_del (co_polls c) (s\<lparr>curr_thread := x\<rparr>)) (\<lambda>s.
     rbind (upd_co x (\<lambda>c. c\<lparr>co_polls := []\<rparr>) s) (run_slice a now x))))"

text \<open>The three loops in a turn of \<open>nty_schedule_run\<close>. \<open>i\<close> numbers the resumes and clock readings.\<close>

fun run_expired :: "nat \<Rightarrow> co_world \<Rightarrow> nat \<Rightarrow> nty_schedule \<Rightarrow> (nat \<times> nty_schedule) res" where
  "run_expired 0 w i s = Inl Diverges"
| "run_expired (Suc n) w i s =
     rbind (nty_schedule_expired (cw_clock w i) s) (\<lambda>(e, s).
       case e of
         None \<Rightarrow> Inr (Suc i, s)
       | Some x \<Rightarrow>
           rbind (nty_coroutine_resume (cw_io w i (open_fds s)) (cw_clock w i) x s) (\<lambda>(_, s). run_expired n w (Suc i) s))"

fun run_ready :: "nat \<Rightarrow> nat \<Rightarrow> co_world \<Rightarrow> nat \<Rightarrow> nty_schedule \<Rightarrow> (nat \<times> nty_schedule) res" where
  "run_ready 0 l w i s = Inl Diverges"
| "run_ready (Suc n) l w i s =
     (case sc_ready s of
        [] \<Rightarrow> Inr (i, s)
      | x # xs \<Rightarrow>
          let s = s\<lparr>sc_ready := xs\<rparr>
          in rbind (co_at s x) (\<lambda>c.
               if co_status c AND BIT NTY_COROUTINE_STATUS_FDEOF \<noteq> 0 then
                 rbind (nty_coroutine_free x s) (\<lambda>s. Inr (i, s))
               else
                 rbind (nty_coroutine_resume (cw_io w i (open_fds s)) (cw_clock w i) x s) (\<lambda>(_, s).
                   if x = l then Inr (Suc i, s) else run_ready n l w (Suc i) s)))"

fun run_events :: "(int \<times> u32) list \<Rightarrow> co_world \<Rightarrow> nat \<Rightarrow> nty_schedule \<Rightarrow> (nat \<times> nty_schedule) res" where
  "run_events [] w i s = Inr (i, s)"
| "run_events ((fd, events) # evs) w i s =
     rbind (nty_schedule_search_wait fd s) (\<lambda>(x, s).
     rbind (if events AND EPOLLHUP \<noteq> 0
            then upd_co x (\<lambda>c. c\<lparr>co_status := co_status c OR BIT NTY_COROUTINE_STATUS_FDEOF\<rparr>) s else Inr s) (\<lambda>s.
     rbind (nty_coroutine_resume (cw_io w i (open_fds s)) (cw_clock w i) x s) (\<lambda>(_, s). run_events evs w (Suc i) s)))"

definition run_turn :: "nat \<Rightarrow> co_world \<Rightarrow> nat \<Rightarrow> nty_schedule \<Rightarrow> (nat \<times> nty_schedule) res" where
  "run_turn fuel w i s =
     rbind (run_expired fuel w i s) (\<lambda>(i, s).
     rbind (run_ready (Suc (length (sc_ready s))) (if sc_ready s = [] then 0 else last (sc_ready s)) w i s) (\<lambda>(i, s).
     rbind (nty_schedule_epoll (cw_clock w i) s) (\<lambda>ms.
       run_events (case ms of None \<Rightarrow> [] | Some _ \<Rightarrow> rev (cw_epoll w i (sc_watched s))) w (Suc i) s)))"

text \<open>\<open>nty_schedule_run\<close> for at most \<open>n\<close> turns; the result says whether every coroutine is done, after which the
  code calls \<open>nty_schedule_free\<close>.\<close>

fun nty_schedule_run :: "nat \<Rightarrow> nat \<Rightarrow> co_world \<Rightarrow> nat \<Rightarrow> nty_schedule \<Rightarrow> (bool \<times> nty_schedule) res" where
  "nty_schedule_run 0 fuel w i s = Inr (nty_schedule_isdone s, s)"
| "nty_schedule_run (Suc n) fuel w i s =
     (if nty_schedule_isdone s then Inr (True, s)
      else rbind (run_turn fuel w i s) (\<lambda>(i, s). nty_schedule_run n fuel w i s))"

text \<open>
  \<open>ntyco_entry\<close>, which starts one coroutine for \<open>server\<close>: the first \<open>nty_coroutine_create\<close> makes the scheduler. \<open>port_ok\<close> and \<open>ok\<close> say whether the
  two calls of \<open>calloc\<close> succeed, the other arguments are those of \<open>nty_schedule_create\<close>. Without a scheduler
  \<open>nty_schedule_run\<close> returns at once.
\<close>

definition ntyco_entry ::
  "bool \<Rightarrow> bool \<Rightarrow> bool \<Rightarrow> int \<Rightarrow> int \<Rightarrow> int \<Rightarrow> bool \<Rightarrow> nat \<Rightarrow> nat \<Rightarrow> co_world \<Rightarrow> (bool \<times> nty_schedule) option res" where
  "ntyco_entry port_ok alloc_ok stack_ok epfd evfd ctl ok n fuel w =
     (if \<not> port_ok then Inl Null_Deref
      else
        rbind (nty_schedule_create alloc_ok stack_ok epfd evfd ctl (cw_clock w 0)) (\<lambda>(_, sched).
          case sched of
            None \<Rightarrow> Inr None
          | Some s \<Rightarrow>
              rbind (nty_coroutine_create ok Server (cw_clock w 0) s) (\<lambda>(_, s).
              rbind (nty_schedule_run n fuel w 0 s) (\<lambda>r. Inr (Some r)))))"

end
