(* ===== verification/NtySafe.thy ===== *)
theory NtySafe
  imports Ntyco
begin

text \<open>
  What the scheduler of the coroutine library keeps while it runs the store's server: every coroutine is in one
  queue, waits for a descriptor of its own, and is freed when its function has returned.
\<close>

section \<open>Status bits\<close>

lemma BIT_values [simp]:
  "BIT 0 = 1" "BIT (Suc 0) = 2" "BIT 2 = 4" "BIT 3 = 8" "BIT 4 = 16" "BIT 6 = 64" "BIT 7 = 128" "BIT 8 = 256" "BIT 9 = 512"
  by (simp_all add: BIT_def push_bit_eq_mult)

section \<open>The invariant\<close>

text \<open>The queues hold every coroutine but the running ones \<open>X\<close> once; \<open>D\<close> are those that exist.\<close>

definition queues_ok :: "nat set \<Rightarrow> nat set \<Rightarrow> nat list \<Rightarrow> nat list \<Rightarrow> nat \<Rightarrow> bool" where
  "queues_ok X D rs ws next_free \<longleftrightarrow>
     distinct rs \<and> distinct ws \<and> set rs \<inter> set ws = {} \<and> X \<inter> set rs = {} \<and> X \<inter> set ws = {} \<and>
     D = X \<union> set rs \<union> set ws \<and> (\<forall>y \<in> D. 0 < y \<and> y < next_free)"

definition ready_ok :: "(nat \<Rightarrow> nty_coroutine option) \<Rightarrow> nat list \<Rightarrow> bool" where
  "ready_ok H rs \<longleftrightarrow> (\<forall>y \<in> set rs. \<exists>c. H y = Some c \<and> co_polls c = [] \<and> co_status c \<in> {0, 4, 8})"

definition wfd :: "(nat \<Rightarrow> nty_coroutine option) \<Rightarrow> nat \<Rightarrow> int" where
  "wfd H y = (case H y of None \<Rightarrow> - 1 | Some c \<Rightarrow> co_fd c)"

definition waits_ok :: "(nat \<Rightarrow> nty_coroutine option) \<Rightarrow> nat list \<Rightarrow> int set \<Rightarrow> bool" where
  "waits_ok H ws F \<longleftrightarrow>
     (\<forall>y \<in> set ws. \<exists>c ev. H y = Some c \<and> co_polls c = [(co_fd c, ev)] \<and> co_fd c \<in> set (prog_fds (co_prog c))) \<and>
     inj_on (wfd H) (set ws) \<and> F = wfd H ` set ws"

text \<open>No two coroutines have a descriptor in common.\<close>

definition own_ok :: "(nat \<Rightarrow> nty_coroutine option) \<Rightarrow> bool" where
  "own_ok H \<longleftrightarrow>
     (\<forall>x c. H x = Some c \<longrightarrow> (\<forall>fd \<in> set (prog_fds (co_prog c)). 0 \<le> fd)) \<and>
     (\<forall>x y c d. H x = Some c \<longrightarrow> H y = Some d \<longrightarrow> x \<noteq> y \<longrightarrow>
        set (prog_fds (co_prog c)) \<inter> set (prog_fds (co_prog d)) = {})"

text \<open>The descriptors of all coroutines but \<open>x\<close>.\<close>

definition others :: "nat \<Rightarrow> (nat \<Rightarrow> nty_coroutine option) \<Rightarrow> int set" where
  "others x H = {fd. \<exists>y c. y \<noteq> x \<and> H y = Some c \<and> fd \<in> set (prog_fds (co_prog c))}"

text \<open>
  Every coroutine that exists is running, ready or waiting, and only one of these. One that waits does so
  for a descriptor that no other waits for, in a call of \<open>nty_poll_inner\<close> for it, and these descriptors are what
  epoll watches.
\<close>

definition sched_inv :: "nat set \<Rightarrow> nty_schedule \<Rightarrow> bool" where
  "sched_inv X s \<longleftrightarrow>
     queues_ok X (dom (sc_cos s)) (sc_ready s) (sc_waiting s) (sc_fresh s) \<and> ready_ok (sc_cos s) (sc_ready s) \<and>
     waits_ok (sc_cos s) (sc_waiting s) (set (sc_watched s)) \<and> own_ok (sc_cos s) \<and> default_timeout s = 3000000 \<and>
     sc_sleeping s = [] \<and> sc_busy s = [] \<and> spawned_coroutines s = int (card (dom (sc_cos s)))"

definition running :: "nat \<Rightarrow> nty_schedule \<Rightarrow> bool" where
  "running x s \<longleftrightarrow> sched_inv {x} s \<and>
     (\<exists>c. sc_cos s x = Some c \<and> co_polls c = [] \<and> co_status c \<in> {0, 8})"

lemma wait_key_wfd [simp]: "wait_key s = wfd (sc_cos s)"
  by (simp add: wait_key_def wfd_def fun_eq_iff)

lemma ready_ok_upd [simp]: "x \<notin> set rs \<Longrightarrow> ready_ok (H(x := v)) rs = ready_ok H rs"
  by (auto simp: ready_ok_def)

lemma ready_ok_append [simp]: "ready_ok H (rs @ ys) \<longleftrightarrow> ready_ok H rs \<and> ready_ok H ys"
  by (auto simp: ready_ok_def)

lemma waits_ok_upd [simp]: "x \<notin> set ws \<Longrightarrow> waits_ok (H(x := v)) ws F = waits_ok H ws F"
proof -
  assume x: "x \<notin> set ws"
  then have "wfd (H(x := v)) y = wfd H y" if "y \<in> set ws" for y
    using that by (auto simp: wfd_def)
  then have "wfd (H(x := v)) ` set ws = wfd H ` set ws" "inj_on (wfd (H(x := v))) (set ws) = inj_on (wfd H) (set ws)"
    by (simp_all cong: image_cong inj_on_cong)
  moreover have "(\<exists>c ev. (H(x := v)) y = Some c \<and> co_polls c = [(co_fd c, ev)] \<and> co_fd c \<in> set (prog_fds (co_prog c))) =
      (\<exists>c ev. H y = Some c \<and> co_polls c = [(co_fd c, ev)] \<and> co_fd c \<in> set (prog_fds (co_prog c)))" if "y \<in> set ws" for y
    using x that by auto
  ultimately show ?thesis by (simp add: waits_ok_def)
qed

lemma own_ok_keep:
  assumes "own_ok H" "H x = Some c" "co_prog c' = co_prog c"
  shows "own_ok (H(x \<mapsto> c'))"
proof -
  have "\<exists>d. H y = Some d \<and> co_prog d = co_prog e" if "(H(x \<mapsto> c')) y = Some e" for y e
    using assms(2,3) that by (cases "y = x") auto
  then obtain old where old: "H y = Some (old y e)" "co_prog (old y e) = co_prog e"
    if "(H(x \<mapsto> c')) y = Some e" for y e
    by metis
  show ?thesis
    unfolding own_ok_def
  proof (intro conjI allI impI)
    fix y d assume y: "(H(x \<mapsto> c')) y = Some d"
    show "\<forall>fd \<in> set (prog_fds (co_prog d)). 0 \<le> fd"
      using assms(1) old [OF y] unfolding own_ok_def by metis
    fix z e assume z: "(H(x \<mapsto> c')) z = Some e" and ne: "y \<noteq> z"
    have "set (prog_fds (co_prog (old y d))) \<inter> set (prog_fds (co_prog (old z e))) = {}"
      using assms(1) old(1) [OF y] old(1) [OF z] ne unfolding own_ok_def by blast
    then show "set (prog_fds (co_prog d)) \<inter> set (prog_fds (co_prog e)) = {}"
      using old(2) [OF y] old(2) [OF z] by simp
  qed
qed

lemma own_ok_drop: "own_ok H \<Longrightarrow> own_ok (H(x := None))"
  by (auto simp: own_ok_def)

lemma own_ok_put:
  assumes "own_ok H" "\<forall>fd \<in> set (prog_fds (co_prog c)). 0 \<le> fd" "set (prog_fds (co_prog c)) \<inter> others x H = {}"
  shows "own_ok (H(x \<mapsto> c))"
proof -
  have "set (prog_fds (co_prog c)) \<inter> set (prog_fds (co_prog d)) = {}" if "H y = Some d" "y \<noteq> x" for y d
    using assms(3) that unfolding others_def by blast
  then show ?thesis
    using assms(1,2) unfolding own_ok_def by (simp add: Int_commute)
qed

lemma others_keep: "others x (H(x := v)) = others x H"
  by (auto simp: others_def)

lemma own_ok_others: "own_ok H \<Longrightarrow> H x = Some c \<Longrightarrow> set (prog_fds (co_prog c)) \<inter> others x H = {}"
  unfolding own_ok_def others_def by blast

lemma waits_others:
  assumes "waits_ok H ws F" "x \<notin> set ws"
  shows "F \<subseteq> others x H"
proof
  fix fd assume "fd \<in> F"
  then obtain y where y: "y \<in> set ws" "fd = wfd H y"
    using assms(1) by (auto simp: waits_ok_def)
  moreover obtain c where "H y = Some c" "co_fd c \<in> set (prog_fds (co_prog c))"
    using assms(1) y(1) by (auto simp: waits_ok_def)
  ultimately show "fd \<in> others x H"
    using assms(2) by (auto simp: others_def wfd_def)
qed

lemma queues_running:
  assumes "queues_ok {x} D rs ws n"
  shows "x \<notin> set rs" "x \<notin> set ws" "x \<in> D" "0 < x" "n \<notin> D" "n \<notin> set rs" "n \<notin> set ws" "n \<noteq> x" "finite D"
  using assms by (auto simp: queues_ok_def)

lemma running_curr [simp]: "running x (s\<lparr>curr_thread := i\<rparr>) = running x s"
  by (simp add: running_def sched_inv_def)

lemma sched_inv_curr [simp]: "sched_inv X (s\<lparr>curr_thread := i\<rparr>) = sched_inv X s"
  by (simp add: sched_inv_def)

section \<open>The parts of a resume\<close>

lemma start_ready:
  assumes inv: "sched_inv {} s" and r: "sc_ready s = x # xs"
  shows "\<exists>c. sc_cos s x = Some c \<and> co_polls c = [] \<and> co_status c \<in> {0, 4, 8} \<and> 0 < x \<and>
    sched_inv {x} (s\<lparr>sc_ready := xs\<rparr>)"
proof -
  obtain c where c: "sc_cos s x = Some c" "co_polls c = []" "co_status c \<in> {0, 4, 8}"
    using inv r by (auto simp: sched_inv_def ready_ok_def)
  have q: "queues_ok {} (dom (sc_cos s)) (x # xs) (sc_waiting s) (sc_fresh s)"
    using inv r by (simp add: sched_inv_def)
  then have "queues_ok {x} (dom (sc_cos s)) xs (sc_waiting s) (sc_fresh s)"
    unfolding queues_ok_def by auto
  moreover have "ready_ok (sc_cos s) xs"
    using inv r by (auto simp: sched_inv_def ready_ok_def)
  ultimately have "sched_inv {x} (s\<lparr>sc_ready := xs\<rparr>)"
    using inv by (simp add: sched_inv_def)
  moreover have "0 < x"
    using q by (auto simp: queues_ok_def)
  ultimately show ?thesis using c by blast
qed

lemma find_waiting:
  assumes inv: "sched_inv X s" and fd: "fd \<in> set (sc_watched s)"
  shows "\<exists>x c ev. RB_FIND (wfd (sc_cos s)) fd (sc_waiting s) = Some x \<and> x \<in> set (sc_waiting s) \<and>
    sc_cos s x = Some c \<and> co_polls c = [(fd, ev)] \<and> co_fd c = fd \<and> 0 < x"
proof -
  have w: "waits_ok (sc_cos s) (sc_waiting s) (set (sc_watched s))"
    using inv by (simp add: sched_inv_def)
  then obtain z where z: "z \<in> set (sc_waiting s)" "wfd (sc_cos s) z = fd"
    using fd by (auto simp: waits_ok_def)
  then have "RB_FIND (wfd (sc_cos s)) fd (sc_waiting s) \<noteq> None"
    by (auto simp: RB_FIND_def find_None_iff)
  then obtain x where x: "RB_FIND (wfd (sc_cos s)) fd (sc_waiting s) = Some x" by auto
  then have xs: "x \<in> set (sc_waiting s)" "wfd (sc_cos s) x = fd"
    by (auto simp: RB_FIND_def find_Some_iff)
  then obtain c ev where c: "sc_cos s x = Some c" "co_polls c = [(co_fd c, ev)]"
    using w by (auto simp: waits_ok_def)
  moreover have "co_fd c = fd" using xs(2) c(1) by (simp add: wfd_def)
  moreover have "0 < x"
    using inv c(1) by (auto simp: sched_inv_def queues_ok_def)
  ultimately show ?thesis using x xs by auto
qed

text \<open>The end of a wait: the descriptor is no longer watched and the coroutine runs.\<close>

lemma waits_ok_remove:
  assumes w: "waits_ok H ws F" and x: "x \<in> set ws" "wfd H x = fd" and d: "distinct ws"
  shows "waits_ok (H(x := v)) (remove1 x ws) (F - {fd})"
proof -
  have nfd: "wfd H y \<noteq> fd" if y: "y \<in> set ws" "y \<noteq> x" for y
    using w x y unfolding waits_ok_def inj_on_def by blast
  have "wfd (H(x := v)) ` (set ws - {x}) = wfd H ` (set ws - {x})"
    by (intro image_cong) (auto simp: wfd_def)
  also have "\<dots> = wfd H ` set ws - {fd}"
  proof (intro equalityI subsetI)
    fix k assume "k \<in> wfd H ` (set ws - {x})"
    then obtain y where "y \<in> set ws" "y \<noteq> x" "k = wfd H y" by blast
    with nfd show "k \<in> wfd H ` set ws - {fd}" by blast
  next
    fix k assume "k \<in> wfd H ` set ws - {fd}"
    then obtain y where "y \<in> set ws" "k = wfd H y" "k \<noteq> fd" by blast
    with x(2) show "k \<in> wfd H ` (set ws - {x})" by blast
  qed
  finally have "F - {fd} = wfd (H(x := v)) ` set (remove1 x ws)"
    using w d by (simp add: waits_ok_def)
  moreover have "\<exists>c ev. (H(x := v)) y = Some c \<and> co_polls c = [(co_fd c, ev)] \<and> co_fd c \<in> set (prog_fds (co_prog c))"
    if "y \<in> set (remove1 x ws)" for y
  proof -
    have "y \<noteq> x" "y \<in> set ws" using that d by auto
    with w show ?thesis by (simp add: waits_ok_def)
  qed
  moreover have "inj_on (wfd (H(x := v))) (set (remove1 x ws))"
  proof -
    have "inj_on (wfd H) (set ws - {x})"
      using w by (auto simp: waits_ok_def intro: inj_on_subset)
    moreover have "wfd (H(x := v)) y = wfd H y" if "y \<in> set ws - {x}" for y
      using that by (simp add: wfd_def)
    ultimately have "inj_on (wfd (H(x := v))) (set ws - {x})"
      by (simp only: inj_on_cong [of "set ws - {x}" "wfd (H(x := v))" "wfd H"])
    then show ?thesis using d by simp
  qed
  ultimately show ?thesis by (simp add: waits_ok_def)
qed

lemma stop_waiting:
  assumes inv: "sched_inv {} s" and fd: "fd \<in> set (sc_watched s)"
    and x: "RB_FIND (wfd (sc_cos s)) fd (sc_waiting s) = Some x" and c: "sc_cos s x = Some c" "co_polls c = [(fd, ev)]"
    and s1: "s1 = s\<lparr>sc_cos := (sc_cos s)(x \<mapsto> c\<lparr>co_status := st\<rparr>)\<rparr>"
  shows "\<exists>s2. rbind (poll_del (co_polls c) (s1\<lparr>curr_thread := x\<rparr>)) (upd_co x (\<lambda>c. c\<lparr>co_polls := []\<rparr>)) = Inr s2 \<and>
    running x s2 \<and> curr_thread s2 = x \<and> sc_ready s2 = sc_ready s \<and> set (sc_watched s2) = set (sc_watched s) - {fd} \<and>
    sc_cos s2 = (sc_cos s)(x \<mapsto> c\<lparr>co_status := 0, co_polls := []\<rparr>) \<and> sc_fresh s2 = sc_fresh s"
proof -
  have f: "RB_FIND (wfd (sc_cos s)) fd (sc_waiting s) = Some x" "x \<in> set (sc_waiting s)" "0 < x" "co_fd c = fd"
    using find_waiting [OF inv fd] x c(1) by auto
  have wk: "wfd (sc_cos s1) = wfd (sc_cos s)"
    using c(1) by (auto simp: s1 wfd_def fun_eq_iff)
  let ?c = "c\<lparr>co_status := 0, co_polls := []\<rparr>"
  let ?s2 = "s\<lparr>sc_cos := (sc_cos s)(x \<mapsto> ?c), sc_waiting := remove1 x (sc_waiting s), curr_thread := x,
      sc_watched := removeAll fd (sc_watched s)\<rparr>"
  have run: "rbind (poll_del (co_polls c) (s1\<lparr>curr_thread := x\<rparr>)) (upd_co x (\<lambda>c. c\<lparr>co_polls := []\<rparr>)) = Inr ?s2"
    using f c(2) wk
    by (simp add: nty_schedule_desched_wait_def RB_REMOVE_def upd_co_def co_at_def s1
        nty_schedule_desched_sleepdown_def)
  have q: "queues_ok {} (dom (sc_cos s)) (sc_ready s) (sc_waiting s) (sc_fresh s)"
    and rd: "ready_ok (sc_cos s) (sc_ready s)"
    and w: "waits_ok (sc_cos s) (sc_waiting s) (set (sc_watched s))" and own: "own_ok (sc_cos s)"
    using inv by (simp_all add: sched_inv_def)
  have "own_ok ((sc_cos s)(x \<mapsto> ?c))" by (rule own_ok_keep [OF own c(1)]) simp
  moreover have q2: "queues_ok {x} (dom (sc_cos s)) (sc_ready s) (remove1 x (sc_waiting s)) (sc_fresh s)"
    using q f(2) unfolding queues_ok_def by auto
  moreover have "waits_ok ((sc_cos s)(x \<mapsto> ?c)) (remove1 x (sc_waiting s)) (set (sc_watched s) - {fd})"
    using waits_ok_remove [OF w f(2)] c(1) f(4) q by (simp add: wfd_def queues_ok_def)
  moreover have "set (removeAll fd (sc_watched s)) = set (sc_watched s) - {fd}"
    by simp
  moreover have "insert x (dom (sc_cos s)) = dom (sc_cos s)"
    using c(1) by auto
  ultimately have "sched_inv {x} ?s2"
    using rd queues_running(1) [OF q2] inv by (simp add: sched_inv_def)
  with run show ?thesis by (intro exI [of _ ?s2]) (simp add: running_def)
qed

lemma create_running:
  assumes r: "running x s" and c: "co_polls c = []" "co_status c = 4"
    and own: "\<forall>fd \<in> set (prog_fds (co_prog c)). 0 \<le> fd" "set (prog_fds (co_prog c)) \<inter> others (sc_fresh s) (sc_cos s) = {}"
  shows "running x (s\<lparr>sc_cos := (sc_cos s)(sc_fresh s \<mapsto> c), sc_fresh := Suc (sc_fresh s),
     spawned_coroutines := spawned_coroutines s + 1, sc_ready := sc_ready s @ [sc_fresh s]\<rparr>)"
proof -
  have q: "queues_ok {x} (dom (sc_cos s)) (sc_ready s) (sc_waiting s) (sc_fresh s)"
    using r by (simp add: running_def sched_inv_def)
  note n = queues_running [OF q]
  have "queues_ok {x} (insert (sc_fresh s) (dom (sc_cos s))) (sc_ready s @ [sc_fresh s]) (sc_waiting s) (Suc (sc_fresh s))"
    using q n unfolding queues_ok_def by (auto simp: less_Suc_eq)
  moreover have "own_ok ((sc_cos s)(sc_fresh s \<mapsto> c))"
    using r own by (intro own_ok_put) (simp_all add: running_def sched_inv_def)
  ultimately show ?thesis
    using r n c by (simp add: running_def sched_inv_def ready_ok_def)
qed

lemma others_mono:
  assumes "fd \<notin> others x H" "n \<noteq> x" "fd \<notin> set (prog_fds (co_prog c))"
  shows "fd \<notin> others x (H(n \<mapsto> c))"
  using assms by (auto simp: others_def)

lemma create_child:
  assumes r: "running x s" and cur: "curr_thread s = x"
    and cli: "0 \<le> cli" "cli \<notin> others (sc_fresh s) (sc_cos s)"
  shows "safe (\<lambda>s'. running x s' \<and> curr_thread s' = x \<and> sc_watched s' = sc_watched s \<and> sc_cos s' x = sc_cos s x \<and>
      (\<forall>fd. fd \<noteq> cli \<longrightarrow> fd \<notin> others x (sc_cos s) \<longrightarrow> fd \<notin> others x (sc_cos s')) \<and> (\<exists>ys. sc_ready s' = sc_ready s @ ys))
    (do_creates ok [Reader cli] now s)"
proof -
  let ?c = "\<lparr>co_status = 4, co_fd = - 1, co_events = 0, co_ops = 0, co_sleep_usecs = 0, co_id = spawned_coroutines s,
    co_birth = now, co_stack_size = 0, co_polls = [], co_prog = Reader cli\<rparr>"
  have "sc_fresh s \<noteq> x"
    using r queues_running(8) [of x "dom (sc_cos s)"] unfolding running_def sched_inv_def by blast
  moreover have "running x (s\<lparr>sc_cos := (sc_cos s)(sc_fresh s \<mapsto> ?c), sc_fresh := Suc (sc_fresh s),
     spawned_coroutines := spawned_coroutines s + 1, sc_ready := sc_ready s @ [sc_fresh s]\<rparr>)"
    by (rule create_running [OF r]) (use cli in simp_all)
  ultimately show ?thesis
    using r cur by (simp add: nty_coroutine_create_def Let_def others_mono)
qed

text \<open>Nothing looks at what a yield changes.\<close>

lemma sched_inv_touch:
  assumes inv: "sched_inv X s" and c: "sc_cos s x = Some c"
    and c': "co_polls c' = co_polls c" "co_fd c' = co_fd c" "co_status c' = co_status c" "co_prog c' = co_prog c"
  shows "sched_inv X (s\<lparr>sc_cos := (sc_cos s)(x \<mapsto> c')\<rparr>)"
proof -
  let ?H = "(sc_cos s)(x \<mapsto> c')"
  have d: "insert x (dom (sc_cos s)) = dom (sc_cos s)"
    using c by auto
  have "ready_ok ?H rs = ready_ok (sc_cos s) rs" for rs
    using c c' by (auto simp: ready_ok_def)
  moreover have "wfd ?H = wfd (sc_cos s)"
    using c c' by (auto simp: wfd_def fun_eq_iff)
  then have "waits_ok ?H ws F = waits_ok (sc_cos s) ws F" for ws F
    using c c' by (auto simp: waits_ok_def)
  moreover have "own_ok ?H" if "own_ok (sc_cos s)"
    by (rule own_ok_keep [OF that c c'(4)])
  ultimately show ?thesis
    using inv d by (simp add: sched_inv_def)
qed

lemma yield_keeps:
  assumes c: "sc_cos s x = Some c" "0 < x" and sl: "depth \<le> NTY_CO_MAX_STACKSIZE" "ok"
  shows "\<exists>c' s'. nty_coroutine_yield depth ok x s = Inr s' \<and> s' = s\<lparr>sc_cos := (sc_cos s)(x \<mapsto> c')\<rparr> \<and>
    co_polls c' = co_polls c \<and> co_fd c' = co_fd c \<and> co_status c' = co_status c \<and> co_prog c' = co_prog c"
  using assms by (auto simp: nty_coroutine_yield_def save_stack_def upd_co_def co_at_def)

text \<open>A coroutine that polls one descriptor of its own starts to wait for it.\<close>

lemma no_waiter:
  assumes "waits_ok H ws F" "fd \<notin> F" "x \<notin> set ws"
  shows "RB_FIND (wfd (H(x := v))) fd ws = None"
proof -
  have "wfd (H(x := v)) y \<noteq> fd" if y: "y \<in> set ws" for y
  proof -
    have "y \<noteq> x" using y assms(3) by blast
    moreover have "wfd H y \<noteq> fd" using assms(1,2) y by (auto simp: waits_ok_def)
    ultimately show ?thesis by (simp add: wfd_def)
  qed
  then show ?thesis by (auto simp: RB_FIND_def find_None_iff)
qed

lemma waits_ok_insert:
  assumes w: "waits_ok H ws F" and x: "x \<notin> set ws"
    and c: "co_polls c = [(fd, ev)]" "co_fd c = fd" "fd \<notin> F" "fd \<in> set (prog_fds (co_prog c))" and ws': "set ws' = insert x (set ws)"
  shows "waits_ok (H(x \<mapsto> c)) ws' (insert fd F)"
proof -
  have same: "wfd (H(x \<mapsto> c)) y = wfd H y" if "y \<in> set ws" for y
    using x that by (auto simp: wfd_def)
  then have img: "wfd (H(x \<mapsto> c)) ` set ws = F"
    using w by (simp add: waits_ok_def cong: image_cong)
  have kx: "wfd (H(x \<mapsto> c)) x = fd" using c by (simp add: wfd_def)
  with img have "insert fd F = wfd (H(x \<mapsto> c)) ` set ws'"
    using ws' by simp
  moreover have "inj_on (wfd (H(x \<mapsto> c))) (set ws)"
    using w same by (simp add: waits_ok_def cong: inj_on_cong)
  then have "inj_on (wfd (H(x \<mapsto> c))) (set ws')"
    using x kx img c(3) ws' by simp
  moreover have "\<exists>c' ev. (H(x \<mapsto> c)) y = Some c' \<and> co_polls c' = [(co_fd c', ev)] \<and> co_fd c' \<in> set (prog_fds (co_prog c'))"
    if "y \<in> set ws'" for y
    using w x c that ws' by (cases "y = x") (auto simp: waits_ok_def)
  ultimately show ?thesis by (simp add: waits_ok_def)
qed

lemma poll_waits:
  assumes r: "running x s" and fd: "fd \<notin> others x (sc_cos s)" "0 \<le> fd" and ev: "ev AND POLLIN \<noteq> 0 \<or> ev AND POLLOUT \<noteq> 0"
    and p: "prog_fds p = [fd]"
  shows "\<exists>c s'. rbind (upd_co x (\<lambda>c. c\<lparr>co_prog := p\<rparr>) s) (nty_poll_inner x [(fd, ev)] 1 now) = Inr (True, s') \<and>
    sched_inv {} s' \<and> sc_ready s' = sc_ready s \<and>
    set (sc_watched s) \<subseteq> set (sc_watched s') \<and> sc_cos s' x = Some c \<and> co_status c AND BIT 4 = 0"
proof -
  obtain c where c: "sc_cos s x = Some c" "co_polls c = []" "co_status c \<in> {0, 8}"
    and inv: "sched_inv {x} s"
    using r by (auto simp: running_def)
  have q: "queues_ok {x} (dom (sc_cos s)) (sc_ready s) (sc_waiting s) (sc_fresh s)"
    and w: "waits_ok (sc_cos s) (sc_waiting s) (set (sc_watched s))" and own: "own_ok (sc_cos s)"
    using inv by (simp_all add: sched_inv_def)
  note n = queues_running [OF q]
  have nw: "fd \<notin> set (sc_watched s)"
    using waits_others [OF w n(2)] fd(1) by blast
  define st where "st = (if ev AND POLLIN \<noteq> 0 then co_status c else co_status c OR 1)"
  define c' where "c' = c\<lparr>co_prog := p, co_status := st, co_fd := fd, co_events := ev\<rparr>"
  let ?s0 = "s\<lparr>sc_cos := (sc_cos s)(x \<mapsto> c\<lparr>co_prog := p\<rparr>)\<rparr>"
  let ?H = "(sc_cos s)(x \<mapsto> c')"
  let ?ws = "insort_key (wfd ?H) x (sc_waiting s)"
  let ?c = "c'\<lparr>co_polls := [(fd, ev)]\<rparr>"
  let ?s' = "s\<lparr>sc_cos := (sc_cos s)(x \<mapsto> ?c), sc_waiting := ?ws, sc_watched := List.insert fd (sc_watched s)\<rparr>"
  have st: "st AND 16 = 0"
    using c(3) by (auto simp: st_def)
  have find: "RB_FIND (wfd ?H) fd (sc_waiting s) = None"
    using no_waiter [OF w nw n(2)] .
  have kx: "wfd ?H x = fd" by (simp add: wfd_def c'_def)
  have no: "co_status c AND 1 = 0" "co_status c AND 2 = 0"
    using c(3) by auto
  have upd0: "upd_co x (\<lambda>c. c\<lparr>co_prog := p\<rparr>) s = Inr ?s0"
    using c(1) n(4) by (simp add: upd_co_def co_at_def)
  have upd: "rbind (upd_co x (\<lambda>c. c\<lparr>co_events := ev\<rparr>) (?s0\<lparr>sc_watched := W\<rparr>)) f =
      f (s\<lparr>sc_watched := W, sc_cos := (sc_cos s)(x \<mapsto> c\<lparr>co_prog := p, co_events := ev\<rparr>)\<rparr>)" for W f
    using n(4) by (simp add: upd_co_def co_at_def)
  have wait: "nty_schedule_sched_wait x fd ev 1 now
        (s\<lparr>sc_watched := W, sc_cos := (sc_cos s)(x \<mapsto> c\<lparr>co_prog := p, co_events := ev\<rparr>)\<rparr>) =
      Inr (s\<lparr>sc_watched := W, sc_cos := ?H, sc_waiting := ?ws\<rparr>)" for W
    using n(4) no ev find kx
    by (auto simp: nty_schedule_sched_wait_def upd_co_def co_at_def RB_INSERT_def st_def c'_def BIT_values)
  have "nty_poll_inner x [(fd, ev)] 1 now ?s0 = Inr (True, ?s')"
    using n(4) fd(2) upd [of "List.insert fd (sc_watched s)"] wait [of "List.insert fd (sc_watched s)"]
    by (simp add: nty_poll_inner_def) (simp add: upd_co_def co_at_def)
  then have run: "rbind (upd_co x (\<lambda>c. c\<lparr>co_prog := p\<rparr>) s) (nty_poll_inner x [(fd, ev)] 1 now) = Inr (True, ?s')"
    using upd0 by simp
  have "queues_ok {} (dom (sc_cos s)) (sc_ready s) ?ws (sc_fresh s)"
    using q n unfolding queues_ok_def by (auto simp: set_insort_key distinct_insort)
  moreover have "waits_ok ((sc_cos s)(x \<mapsto> ?c)) ?ws (insert fd (set (sc_watched s)))"
    by (rule waits_ok_insert [OF w n(2) _ _ nw]) (auto simp: c'_def set_insort_key p)
  moreover have "own_ok ((sc_cos s)(x \<mapsto> ?c))"
    by (rule own_ok_put [OF own]) (use fd p in \<open>simp_all add: c'_def\<close>)
  moreover have "insert x (dom (sc_cos s)) = dom (sc_cos s)"
    using n(3) by (rule insert_absorb)
  ultimately have "sched_inv {} ?s'"
    using inv n by (simp add: sched_inv_def)
  with run show ?thesis
    by (intro exI [of _ ?c] exI [of _ ?s']) (auto simp: c'_def st)
qed

definition ended :: "nat \<Rightarrow> nty_schedule \<Rightarrow> bool" where
  "ended x s \<longleftrightarrow>
     (\<exists>c. sc_cos s x = Some c \<and>
       (sched_inv {} s \<and> co_status c AND BIT 4 = 0 \<or>
        sched_inv {x} s \<and> co_status c AND BIT 4 \<noteq> 0 \<and> co_status c AND BIT 9 \<noteq> 0))"

lemma ended_yield:
  assumes e: "ended x s" "0 < x" and sl: "depth \<le> NTY_CO_MAX_STACKSIZE" "ok"
  shows "\<exists>s'. nty_coroutine_yield depth ok x s = Inr s' \<and> ended x s' \<and>
    sc_watched s' = sc_watched s \<and> sc_ready s' = sc_ready s"
proof -
  obtain c where c: "sc_cos s x = Some c"
    and i: "sched_inv {} s \<and> co_status c AND BIT 4 = 0 \<or>
      sched_inv {x} s \<and> co_status c AND BIT 4 \<noteq> 0 \<and> co_status c AND BIT 9 \<noteq> 0"
    using e(1) unfolding ended_def by blast
  obtain c' s' where y: "nty_coroutine_yield depth ok x s = Inr s'" "s' = s\<lparr>sc_cos := (sc_cos s)(x \<mapsto> c')\<rparr>"
    and c': "co_polls c' = co_polls c" "co_fd c' = co_fd c" "co_status c' = co_status c" "co_prog c' = co_prog c"
    using yield_keeps [OF c e(2) sl] by blast
  note t = sched_inv_touch [OF _ c c', folded y(2)]
  have "ended x s'"
    using i t c'(3) unfolding ended_def by (intro exI [of _ c']) (auto simp: y(2))
  with y show ?thesis by auto
qed

lemma do_ending_polls:
  assumes r: "running x s" and a: "io_depth a \<le> NTY_CO_MAX_STACKSIZE" "io_realloc a"
    and fd: "fd \<notin> others x (sc_cos s)" "0 \<le> fd" "ev AND POLLIN \<noteq> 0 \<or> ev AND POLLOUT \<noteq> 0" "prog_fds p = [fd]"
  shows "\<exists>s'. do_ending (Polls [(fd, ev)] p) a now x s = Inr s' \<and> ended x s' \<and>
    set (sc_watched s) \<subseteq> set (sc_watched s') \<and> sc_ready s' = sc_ready s"
proof -
  obtain c s1 where s1: "rbind (upd_co x (\<lambda>c. c\<lparr>co_prog := p\<rparr>) s) (nty_poll_inner x [(fd, ev)] 1 now) = Inr (True, s1)"
      "sched_inv {} s1" "sc_ready s1 = sc_ready s" "set (sc_watched s) \<subseteq> set (sc_watched s1)" "sc_cos s1 x = Some c"
      "co_status c AND BIT 4 = 0"
    using poll_waits [OF r fd] by blast
  have x: "0 < x"
    using r by (auto simp: running_def sched_inv_def queues_ok_def)
  have "ended x s1" using s1 by (auto simp: ended_def)
  then obtain s2 where "nty_coroutine_yield (io_depth a) (io_realloc a) x s1 = Inr s2" "ended x s2"
    "sc_watched s2 = sc_watched s1" "sc_ready s2 = sc_ready s1"
    using ended_yield [OF _ x a] by blast
  with s1 show ?thesis
    by (auto simp: do_ending_def res_simps)
qed

lemma do_ending_exits:
  assumes r: "running x s" and a: "io_depth a \<le> NTY_CO_MAX_STACKSIZE" "io_realloc a"
  shows "\<exists>s'. do_ending Exits a now x s = Inr s' \<and> ended x s' \<and> sc_watched s' = sc_watched s \<and> sc_ready s' = sc_ready s"
proof -
  obtain c where c: "sc_cos s x = Some c" "co_polls c = []" "co_status c \<in> {0, 8}" and inv: "sched_inv {x} s"
    using r by (auto simp: running_def)
  have q: "queues_ok {x} (dom (sc_cos s)) (sc_ready s) (sc_waiting s) (sc_fresh s)" and own: "own_ok (sc_cos s)"
    using inv by (simp_all add: sched_inv_def)
  note n = queues_running [OF q]
  let ?c = "c\<lparr>co_status := co_status c OR (BIT 4 OR BIT 8 OR BIT 9)\<rparr>"
  let ?s = "s\<lparr>sc_cos := (sc_cos s)(x \<mapsto> ?c)\<rparr>"
  have "own_ok ((sc_cos s)(x \<mapsto> ?c))" by (rule own_ok_keep [OF own c(1)]) simp
  moreover have "insert x (dom (sc_cos s)) = dom (sc_cos s)"
    using n(3) by (rule insert_absorb)
  ultimately have "sched_inv {x} ?s"
    using inv n by (simp add: sched_inv_def)
  then have "ended x ?s"
    using c(3) by (auto simp: ended_def)
  then obtain s2 where "nty_coroutine_yield (io_depth a) (io_realloc a) x ?s = Inr s2" "ended x s2"
    "sc_watched s2 = sc_watched ?s" "sc_ready s2 = sc_ready ?s"
    using ended_yield [OF _ n(4) a] by blast
  then show ?thesis
    using c(1) n(4) by (simp add: do_ending_def upd_co_def co_at_def)
qed

text \<open>A coroutine that ended leaves its address free, and nothing refers to it.\<close>

lemma free_ended:
  assumes inv: "sched_inv {x} s"
  shows "\<exists>s'. nty_coroutine_free x s = Inr s' \<and> sched_inv {} s' \<and> sc_ready s' = sc_ready s \<and> sc_watched s' = sc_watched s"
proof -
  have q: "queues_ok {x} (dom (sc_cos s)) (sc_ready s) (sc_waiting s) (sc_fresh s)"
    using inv by (simp add: sched_inv_def)
  note n = queues_running [OF q]
  obtain c where c: "sc_cos s x = Some c" using n(3) by blast
  let ?s' = "s\<lparr>spawned_coroutines := spawned_coroutines s - 1, sc_cos := (sc_cos s)(x := None)\<rparr>"
  have "queues_ok {} (dom (sc_cos s) - {x}) (sc_ready s) (sc_waiting s) (sc_fresh s)"
    using q n unfolding queues_ok_def by auto
  moreover have "card (dom (sc_cos s)) = Suc (card (dom (sc_cos s) - {x}))"
    using card.remove [OF n(9) n(3)] .
  moreover have "own_ok ((sc_cos s)(x := None))"
    using inv by (simp add: sched_inv_def own_ok_drop)
  ultimately have "sched_inv {} ?s'"
    using inv n by (simp add: sched_inv_def)
  moreover have "nty_coroutine_free x s = Inr ?s'"
    using c n(4) by (simp add: nty_coroutine_free_def co_at_def)
  ultimately show ?thesis by (intro exI [of _ ?s']) simp
qed

text \<open>The outcome of a resume: the descriptors \<open>F\<close> are still watched, and the queue only grew.\<close>

definition resumed :: "int set \<Rightarrow> nat list \<Rightarrow> nty_schedule \<Rightarrow> bool" where
  "resumed F rs s \<longleftrightarrow> sched_inv {} s \<and> F \<subseteq> set (sc_watched s) \<and> (\<exists>ys. sc_ready s = rs @ ys)"

lemma finish_ended:
  assumes e: "ended x s" and x: "0 < x" and F: "F \<subseteq> set (sc_watched s)" "\<exists>ys. sc_ready s = rs @ ys"
  shows "safe (\<lambda>(_, s'). resumed F rs s')
    (let s = s\<lparr>curr_thread := 0\<rparr>
     in rbind (co_at s x) (\<lambda>c.
          if co_status c AND BIT 4 \<noteq> 0 then
            if co_status c AND BIT 9 \<noteq> 0
            then rbind (nty_coroutine_free x s) (\<lambda>s. Inr (- 1, s)) else Inr (- 1, s)
          else Inr (0, s)))"
proof -
  let ?s = "s\<lparr>curr_thread := 0\<rparr>"
  obtain c where c: "sc_cos s x = Some c"
    and i: "sched_inv {} s \<and> co_status c AND BIT 4 = 0 \<or>
      sched_inv {x} ?s \<and> co_status c AND BIT 4 \<noteq> 0 \<and> co_status c AND BIT 9 \<noteq> 0"
    using e unfolding ended_def by auto
  have res: "resumed F rs s'"
    if "sched_inv {} s'" "sc_ready s' = sc_ready s" "sc_watched s' = sc_watched s" for s'
    using that F by (simp add: resumed_def)
  from i show ?thesis
  proof
    assume "sched_inv {} s \<and> co_status c AND BIT 4 = 0"
    then show ?thesis using c x res [of ?s] by (simp add: co_at_def Let_def)
  next
    assume e: "sched_inv {x} ?s \<and> co_status c AND BIT 4 \<noteq> 0 \<and> co_status c AND BIT 9 \<noteq> 0"
    then obtain s3 where "nty_coroutine_free x ?s = Inr s3" "resumed F rs s3"
      using free_ended [of x ?s] res by auto
    then show ?thesis using e c x by (simp add: co_at_def Let_def)
  qed
qed

text \<open>The descriptors of a coroutine and of the others make up the open ones.\<close>

lemma open_fds_others:
  assumes "queues_ok X (dom (sc_cos s)) rs ws (sc_fresh s)" "sc_cos s x = Some c"
  shows "set (open_fds s) = set (prog_fds (co_prog c)) \<union> others x (sc_cos s)"
proof -
  let ?A = "{fd. \<exists>y d. sc_cos s y = Some d \<and> fd \<in> set (prog_fds (co_prog d))}"
  have "fd \<in> set (open_fds s)" if "sc_cos s y = Some d" "fd \<in> set (prog_fds (co_prog d))" for fd y d
  proof -
    have "y < sc_fresh s"
      using assms(1) that(1) unfolding queues_ok_def by blast
    then show ?thesis
      using that unfolding open_fds_def by (auto intro!: bexI [of _ y])
  qed
  then have "?A \<subseteq> set (open_fds s)" by blast
  moreover have "set (open_fds s) \<subseteq> ?A"
    by (auto simp: open_fds_def dest: sym split: option.splits)
  ultimately have "set (open_fds s) = ?A" by (rule equalityI [rotated])
  moreover have "\<dots> = set (prog_fds (co_prog c)) \<union> others x (sc_cos s)"
    using assms(2) unfolding others_def by (auto, metis option.inject)
  ultimately show ?thesis by (rule trans)
qed

lemma others_open:
  assumes "queues_ok X (dom (sc_cos s)) rs ws (sc_fresh s)" "sc_cos s x = Some c"
  shows "others z (sc_cos s) \<subseteq> set (open_fds s)"
proof
  fix fd assume "fd \<in> others z (sc_cos s)"
  then obtain y d where "sc_cos s y = Some d" "fd \<in> set (prog_fds (co_prog d))"
    by (auto simp: others_def)
  then show "fd \<in> set (open_fds s)"
    using open_fds_others [OF assms(1), of y d] by simp
qed

lemma run_slice_ok:
  assumes r: "running x s" and cur: "curr_thread s = x" and F: "F = set (sc_watched s)"
    and io: "good_io (set (open_fds s)) NTY_CO_MAX_STACKSIZE a"
  shows "safe (\<lambda>(_, s'). resumed F (sc_ready s) s') (run_slice a now x s)"
proof -
  obtain c where c: "sc_cos s x = Some c" and inv: "sched_inv {x} s"
    using r by (auto simp: running_def)
  have q: "queues_ok {x} (dom (sc_cos s)) (sc_ready s) (sc_waiting s) (sc_fresh s)" and own: "own_ok (sc_cos s)"
    using inv by (simp_all add: sched_inv_def)
  note n = queues_running [OF q]
  have fds: "set (open_fds s) = set (prog_fds (co_prog c)) \<union> others x (sc_cos s)"
    by (rule open_fds_others [OF q c])
  have pos: "\<forall>fd \<in> set (prog_fds (co_prog c)). 0 \<le> fd"
    using own c by (auto simp: own_ok_def)
  have apart: "set (prog_fds (co_prog c)) \<inter> others x (sc_cos s) = {}"
    by (rule own_ok_others [OF own c])
  have a: "io_depth a \<le> NTY_CO_MAX_STACKSIZE" "io_realloc a"
    using io by (simp_all add: good_io_def)
  have at: "co_at s x = Inr c" using c n(4) by (simp add: co_at_def)
  have "set (prog_fds (co_prog c)) \<subseteq> set (open_fds s)" using fds by blast
  from io this pos show ?thesis
  proof (cases rule: step_cases)
    case exits
    obtain s' where "do_ending Exits a now x s = Inr s'" "ended x s'" "sc_watched s' = sc_watched s" "sc_ready s' = sc_ready s"
      using do_ending_exits [OF r a] by blast
    then show ?thesis
      using finish_ended [of x s' F "sc_ready s"] n(4) F by (simp add: run_slice_def at exits)
  next
    case (opens fd ev p')
    have "fd \<notin> others x (sc_cos s)" using opens(3) fds by blast
    from do_ending_polls [OF r a this opens(4,5,2)] obtain s' where
      "do_ending (Polls [(fd, ev)] p') a now x s = Inr s'" "ended x s'" "set (sc_watched s) \<subseteq> set (sc_watched s')"
      "sc_ready s' = sc_ready s" by blast
    then show ?thesis
      using finish_ended [of x s' F "sc_ready s"] n(4) F by (simp add: run_slice_def at opens(1))
  next
    case (polls fd ev p')
    have "fd \<notin> others x (sc_cos s)" "0 \<le> fd" using polls(3) apart pos by auto
    from do_ending_polls [OF r a this polls(4,2)] obtain s' where
      "do_ending (Polls [(fd, ev)] p') a now x s = Inr s'" "ended x s'" "set (sc_watched s) \<subseteq> set (sc_watched s')"
      "sc_ready s' = sc_ready s" by blast
    then show ?thesis
      using finish_ended [of x s' F "sc_ready s"] n(4) F by (simp add: run_slice_def at polls(1))
  next
    case (accepts fd ev p' cli)
    have fd: "fd \<notin> others x (sc_cos s)" "0 \<le> fd" "fd \<noteq> cli" using accepts(3,5) apart pos fds by auto
    have "others (sc_fresh s) (sc_cos s) \<subseteq> set (open_fds s)"
      using others_open [OF q c] .
    then have "cli \<notin> others (sc_fresh s) (sc_cos s)" using accepts(5) by blast
    note child = create_child [OF r cur accepts(6) this]
    have "safe (\<lambda>(_, s'). resumed F (sc_ready s) s')
      (rbind (do_creates (io_calloc a) [Reader cli] now s) (\<lambda>s. rbind (do_ending (Polls [(fd, ev)] p') a now x s) (\<lambda>s.
        let s = s\<lparr>curr_thread := 0\<rparr>
        in rbind (co_at s x) (\<lambda>c.
          if co_status c AND BIT 4 \<noteq> 0 then
            if co_status c AND BIT 9 \<noteq> 0
            then rbind (nty_coroutine_free x s) (\<lambda>s. Inr (- 1, s)) else Inr (- 1, s)
          else Inr (0, s)))))"
    proof (rule safe_rbind [OF child], elim conjE exE)
      fix s1 ys
      assume s1: "running x s1" "sc_watched s1 = sc_watched s" "sc_ready s1 = sc_ready s @ ys"
        "\<forall>fd. fd \<noteq> cli \<longrightarrow> fd \<notin> others x (sc_cos s) \<longrightarrow> fd \<notin> others x (sc_cos s1)"
      then have "fd \<notin> others x (sc_cos s1)" using fd by blast
      from do_ending_polls [OF s1(1) a this fd(2) accepts(4,2)] obtain s2 where s2:
        "do_ending (Polls [(fd, ev)] p') a now x s1 = Inr s2" "ended x s2" "set (sc_watched s1) \<subseteq> set (sc_watched s2)"
        "sc_ready s2 = sc_ready s1" by blast
      then show "safe (\<lambda>(_, s'). resumed F (sc_ready s) s') (rbind (do_ending (Polls [(fd, ev)] p') a now x s1) (\<lambda>s.
        let s = s\<lparr>curr_thread := 0\<rparr>
        in rbind (co_at s x) (\<lambda>c.
          if co_status c AND BIT 4 \<noteq> 0 then
            if co_status c AND BIT 9 \<noteq> 0
            then rbind (nty_coroutine_free x s) (\<lambda>s. Inr (- 1, s)) else Inr (- 1, s)
          else Inr (0, s))))"
        using finish_ended [OF s2(2) n(4), of F "sc_ready s"] F s1(2,3) by simp
    qed
    then show ?thesis by (simp only: run_slice_def at rbind.simps accepts(1) Let_def prod.case)
  qed
qed

lemma open_fds_keep:
  assumes "sc_cos s x = Some c" "co_prog c' = co_prog c" "sc_cos s' = (sc_cos s)(x \<mapsto> c')" "sc_fresh s' = sc_fresh s"
  shows "open_fds s' = open_fds s"
  unfolding open_fds_def assms(3,4)
  by (intro arg_cong [where f = concat] map_cong refl) (use assms(1,2) in auto)

lemma resume_ready:
  assumes inv: "sched_inv {} s" and r: "sc_ready s = x # xs" and io: "good_io (set (open_fds s)) NTY_CO_MAX_STACKSIZE a"
  shows "safe (\<lambda>(_, s'). resumed (set (sc_watched s)) xs s') (nty_coroutine_resume a now x (s\<lparr>sc_ready := xs\<rparr>))"
proof -
  obtain c where c: "sc_cos s x = Some c" "co_polls c = []" "co_status c \<in> {0, 4, 8}" "0 < x"
    and i: "sched_inv {x} (s\<lparr>sc_ready := xs\<rparr>)"
    using start_ready [OF inv r] by blast
  define c' where "c' = c\<lparr>co_status := if co_status c = 4 then 8 else co_status c, co_polls := []\<rparr>"
  let ?s = "s\<lparr>sc_ready := xs, curr_thread := x, sc_cos := (sc_cos s)(x \<mapsto> c')\<rparr>"
  have q: "queues_ok {x} (dom (sc_cos s)) xs (sc_waiting s) (sc_fresh s)" and own: "own_ok (sc_cos s)"
    using i by (simp_all add: sched_inv_def)
  note n = queues_running [OF q]
  have "own_ok ((sc_cos s)(x \<mapsto> c'))" by (rule own_ok_keep [OF own c(1)]) (simp add: c'_def)
  moreover have "insert x (dom (sc_cos s)) = dom (sc_cos s)"
    using n(3) by (rule insert_absorb)
  ultimately have "sched_inv {x} ?s"
    using i n by (simp add: sched_inv_def)
  then have run: "running x ?s"
    using c(3) by (auto simp: running_def c'_def)
  have "open_fds ?s = open_fds s"
    by (rule open_fds_keep [OF c(1)]) (simp_all add: c'_def)
  then have "safe (\<lambda>(_, s'). resumed (set (sc_watched s)) xs s') (run_slice a now x ?s)"
    using run_slice_ok [OF run _ _, of "set (sc_watched s)" a now] io by simp
  moreover have "nty_coroutine_resume a now x (s\<lparr>sc_ready := xs\<rparr>) = run_slice a now x ?s"
    using c by (auto simp: nty_coroutine_resume_def co_at_def upd_co_def c'_def nty_coroutine_init_def)
  ultimately show ?thesis by simp
qed

lemma resume_waiting:
  assumes inv: "sched_inv {} s" and fd: "fd \<in> set (sc_watched s)" and io: "good_io (set (open_fds s)) NTY_CO_MAX_STACKSIZE a"
    and x: "RB_FIND (wfd (sc_cos s)) fd (sc_waiting s) = Some x" and c: "sc_cos s x = Some c" and st: "st AND 4 = 0"
  shows "safe (\<lambda>(_, s'). resumed (set (sc_watched s) - {fd}) (sc_ready s) s')
    (nty_coroutine_resume a now x (s\<lparr>sc_cos := (sc_cos s)(x \<mapsto> c\<lparr>co_status := st\<rparr>)\<rparr>))"
proof -
  let ?s1 = "s\<lparr>sc_cos := (sc_cos s)(x \<mapsto> c\<lparr>co_status := st\<rparr>)\<rparr>"
  obtain ev where ev: "co_polls c = [(fd, ev)]" "0 < x"
    using find_waiting [OF inv fd] x c by auto
  obtain s2 where s2: "rbind (poll_del (co_polls c) (?s1\<lparr>curr_thread := x\<rparr>)) (upd_co x (\<lambda>c. c\<lparr>co_polls := []\<rparr>)) = Inr s2"
    and r: "running x s2" "curr_thread s2 = x" "sc_ready s2 = sc_ready s" "set (sc_watched s2) = set (sc_watched s) - {fd}"
    and H: "sc_cos s2 = (sc_cos s)(x \<mapsto> c\<lparr>co_status := 0, co_polls := []\<rparr>)" "sc_fresh s2 = sc_fresh s"
    using stop_waiting [OF inv fd x c ev(1) refl] by blast
  have "open_fds s2 = open_fds s"
    by (rule open_fds_keep [OF c _ H]) simp
  then have run: "safe (\<lambda>(_, s'). resumed (set (sc_watched s) - {fd}) (sc_ready s) s') (run_slice a now x s2)"
    using run_slice_ok [OF r(1,2) r(4) [symmetric], of a now] io r(3) by simp
  obtain s3 where s3: "poll_del (co_polls c) (?s1\<lparr>curr_thread := x\<rparr>) = Inr s3" "upd_co x (\<lambda>c. c\<lparr>co_polls := []\<rparr>) s3 = Inr s2"
    using s2 by (cases "poll_del (co_polls c) (?s1\<lparr>curr_thread := x\<rparr>)") auto
  have "co_at ?s1 x = Inr (c\<lparr>co_status := st\<rparr>)"
    using ev(2) by (simp add: co_at_def)
  then show ?thesis
    using run st s3 by (simp add: nty_coroutine_resume_def)
qed

section \<open>The loops\<close>

lemma run_ready_ok:
  assumes "sched_inv {} s" "sc_ready s = p @ q" "p \<noteq> []" "last p = l" "length p \<le> n"
    and w: "\<And>i used. good_io (set used) NTY_CO_MAX_STACKSIZE (cw_io w i used)"
  shows "safe (\<lambda>(_, s'). sched_inv {} s') (run_ready n l w i s)"
  using assms(1-5)
proof (induction n arbitrary: i s p q)
  case (Suc n)
  then obtain x p' where p: "p = x # p'" by (cases p) auto
  let ?s = "s\<lparr>sc_ready := p' @ q\<rparr>"
  have rd: "sc_ready s = x # (p' @ q)" using Suc.prems p by simp
  obtain c where c: "sc_cos s x = Some c" "co_status c \<in> {0, 4, 8}" "0 < x" "co_polls c = []"
    using start_ready [OF Suc.prems(1) rd] by blast
  have eof: "co_status c AND BIT 8 = 0" "co_at ?s x = Inr c" "open_fds ?s = open_fds s"
    using c by (auto simp: co_at_def open_fds_def)
  have "safe (\<lambda>(_, s'). sched_inv {} s')
    (rbind (nty_coroutine_resume (cw_io w i (open_fds s)) (cw_clock w i) x ?s) (\<lambda>(_, s).
      if x = l then Inr (Suc i, s) else run_ready n l w (Suc i) s))"
  proof (rule safe_rbind [OF resume_ready [OF Suc.prems(1) rd w]], clarify)
    fix r s'
    assume "resumed (set (sc_watched s)) (p' @ q) s'"
    then obtain ys where s': "sched_inv {} s'" "sc_ready s' = p' @ (q @ ys)"
      by (auto simp: resumed_def)
    show "safe (\<lambda>(_, s'). sched_inv {} s') (if x = l then Inr (Suc i, s') else run_ready n l w (Suc i) s')"
    proof (cases "x = l")
      case False
      then have "p' \<noteq> []" "last p' = l" "length p' \<le> n"
        using Suc.prems p by auto
      with Suc.IH [OF s'] False show ?thesis by simp
    qed (use s' in simp)
  qed
  then show ?case using rd eof by simp
qed simp

lemma run_events_ok:
  assumes "sched_inv {} s" "fst ` set evs \<subseteq> set (sc_watched s)" "distinct (map fst evs)"
    and w: "\<And>i used. good_io (set used) NTY_CO_MAX_STACKSIZE (cw_io w i used)"
  shows "safe (\<lambda>(_, s'). sched_inv {} s') (run_events evs w i s)"
  using assms(1-3)
proof (induction evs arbitrary: i s)
  case (Cons e evs)
  obtain fd ev where e: "e = (fd, ev)" by force
  have fd: "fd \<in> set (sc_watched s)" using Cons.prems e by simp
  obtain x c ev' where c: "RB_FIND (wfd (sc_cos s)) fd (sc_waiting s) = Some x" "sc_cos s x = Some c" "0 < x"
      "co_polls c = [(fd, ev')]"
    using find_waiting [OF Cons.prems(1) fd] by blast
  define st :: u32 where "st = (if ev AND EPOLLHUP \<noteq> 0 then 256 else 0)"
  let ?s = "s\<lparr>sc_cos := (sc_cos s)(x \<mapsto> c\<lparr>co_status := st\<rparr>)\<rparr>"
  have st: "st AND 4 = 0" by (simp add: st_def)
  have fds: "open_fds ?s = open_fds s"
    by (rule open_fds_keep [OF c(2)]) simp_all
  have "safe (\<lambda>(_, s'). sched_inv {} s')
    (rbind (nty_coroutine_resume (cw_io w i (open_fds s)) (cw_clock w i) x ?s) (\<lambda>(_, s). run_events evs w (Suc i) s))"
  proof (rule safe_rbind [OF resume_waiting [OF Cons.prems(1) fd w c(1,2) st]], clarify)
    fix r s'
    assume s': "resumed (set (sc_watched s) - {fd}) (sc_ready s) s'"
    have "fst ` set evs \<subseteq> set (sc_watched s) - {fd}"
      using Cons.prems(2,3) e by auto
    then show "safe (\<lambda>(_, s'). sched_inv {} s') (run_events evs w (Suc i) s')"
      using Cons.IH [of s' "Suc i"] s' Cons.prems(3) by (auto simp: resumed_def)
  qed
  then show ?case
    using c(1-3) fds by (simp add: e nty_schedule_search_wait_def upd_co_def co_at_def st_def split: if_splits)
qed simp

lemma default_wait: "nty_epoller_wait (epoll_timespec 3000000) = Inr 3000"
  by (simp add: nty_epoller_wait_def epoll_timespec_def Let_def)

lemma run_turn_ok:
  assumes inv: "sched_inv {} s" and w: "\<And>i used. good_io (set used) NTY_CO_MAX_STACKSIZE (cw_io w i used)"
    and ep: "\<And>i F. fst ` set (cw_epoll w i F) \<subseteq> set F \<and> distinct (map fst (cw_epoll w i F))" and fuel: "0 < fuel"
  shows "safe (\<lambda>(_, s'). sched_inv {} s') (run_turn fuel w i s)"
proof -
  let ?l = "if sc_ready s = [] then 0 else last (sc_ready s)"
  have e: "run_expired fuel w i s = Inr (Suc i, s)"
    using inv fuel by (cases fuel) (auto simp: nty_schedule_expired_def RB_MIN_def sched_inv_def)
  have r: "safe (\<lambda>(_, s'). sched_inv {} s') (run_ready (Suc (length (sc_ready s))) ?l w (Suc i) s)"
  proof (cases "sc_ready s = []")
    case False
    then show ?thesis
      by (intro run_ready_ok [OF inv, of "sc_ready s" "[]"]) (auto intro: w)
  qed (use inv in simp)
  have "safe (\<lambda>(_, s'). sched_inv {} s')
    (rbind (run_ready (Suc (length (sc_ready s))) ?l w (Suc i) s) (\<lambda>(i, s).
     rbind (nty_schedule_epoll (cw_clock w i) s) (\<lambda>ms.
       run_events (case ms of None \<Rightarrow> [] | Some _ \<Rightarrow> rev (cw_epoll w i (sc_watched s))) w (Suc i) s)))"
  proof (rule safe_rbind [OF r], clarify)
    fix j s'
    assume s': "sched_inv {} s'"
    obtain ms where ms: "nty_schedule_epoll (cw_clock w j) s' = Inr ms"
      using s' default_wait by (cases "sc_ready s' = []") (auto simp: nty_schedule_epoll_def nty_schedule_min_timeout_def RB_MIN_def sched_inv_def)
    show "safe (\<lambda>(_, s'). sched_inv {} s') (rbind (nty_schedule_epoll (cw_clock w j) s') (\<lambda>ms.
       run_events (case ms of None \<Rightarrow> [] | Some _ \<Rightarrow> rev (cw_epoll w j (sc_watched s'))) w (Suc j) s'))"
    proof (cases ms)
      case (Some k)
      have "fst ` set (rev (cw_epoll w j (sc_watched s'))) \<subseteq> set (sc_watched s')"
        "distinct (map fst (rev (cw_epoll w j (sc_watched s'))))"
        using ep [of j "sc_watched s'"] by (simp_all add: rev_map [symmetric])
      from run_events_ok [OF s' this w] show ?thesis by (simp add: ms Some)
    qed (simp add: ms s')
  qed
  then show ?thesis by (simp add: run_turn_def e)
qed

lemma schedule_run_keeps:
  assumes "sched_inv {} s" and "\<And>i used. good_io (set used) NTY_CO_MAX_STACKSIZE (cw_io w i used)"
    and "\<And>i F. fst ` set (cw_epoll w i F) \<subseteq> set F \<and> distinct (map fst (cw_epoll w i F))" and "0 < fuel"
  shows "safe (\<lambda>(finished, s'). sched_inv {} s' \<and>
      (finished \<longrightarrow> spawned_coroutines s' = 0 \<and> sc_watched s' = [])) (nty_schedule_run n fuel w i s)"
  using assms(1)
proof (induction n arbitrary: i s)
  case 0
  then show ?case
    by (auto simp: nty_schedule_isdone_def sched_inv_def queues_ok_def waits_ok_def)
next
  case (Suc n)
  show ?case
  proof (cases "nty_schedule_isdone s")
    case True
    with Suc.prems show ?thesis
      by (auto simp: nty_schedule_isdone_def sched_inv_def queues_ok_def waits_ok_def)
  next
    case False
    have "safe (\<lambda>(_, s'). sched_inv {} s') (run_turn fuel w i s)"
      using assms(2-4) by (intro run_turn_ok [OF Suc.prems]) auto
    then have "safe (\<lambda>(finished, s'). sched_inv {} s' \<and>
        (finished \<longrightarrow> spawned_coroutines s' = 0 \<and> sc_watched s' = []))
      (rbind (run_turn fuel w i s) (\<lambda>(i, s). nty_schedule_run n fuel w i s))"
      by (rule safe_rbind) (auto intro: Suc.IH)
    with False show ?thesis by simp
  qed
qed

text \<open>The scheduler with the first coroutine.\<close>

lemma first_coroutine:
  assumes "nty_schedule_create a b epfd evfd ctl now = Inr (r, Some s)" "nty_coroutine_create ok Server now' s = Inr (r', s')"
  shows "sched_inv {} s'"
  using assms
  by (auto simp: nty_schedule_create_def nty_epoller_ev_register_trigger_def nty_coroutine_create_def Let_def
      sched_inv_def queues_ok_def ready_ok_def waits_ok_def own_ok_def split: if_splits)


text \<open>A client connects, sends a request, gets the reply and closes the connection.\<close>

definition demo_world :: co_world where
  "demo_world = \<lparr>
     cw_io = (\<lambda>i used. let new = 1 + foldr max used 6 in
       \<lparr>io_socket = new, io_fcntl = 0, io_fcntl2 = 0, io_accept = (new, EAGAIN), io_accept_fcntl = 0, io_arg = (\<lambda>fd. fd),
        io_recv = (if i < 8 then 5 else 0), io_reply = 4, io_send = 4, io_calloc = True, io_depth = 100, io_realloc = True\<rparr>),
     cw_clock = (\<lambda>i. of_nat i),
     cw_epoll = (\<lambda>i F. if 8 \<in> set F then [(8, 1)] else if 7 \<in> set F then [(7, 1)] else [])\<rparr>"

lemma foldr_max_upper: "(fd::int) \<in> set used \<Longrightarrow> fd \<le> foldr max used m"
  by (induction used) auto

lemma foldr_max_lower: "m \<le> foldr max used (m::int)"
  by (induction used) auto

lemma demo_world_good: "good_io (set used) NTY_CO_MAX_STACKSIZE (cw_io demo_world i used)"
proof -
  have "1 + foldr max used 6 \<notin> set used" "0 \<le> 1 + foldr max used (6::int)"
    using foldr_max_upper [of "1 + foldr max used 6" used 6] foldr_max_lower [of 6 used] by auto
  then show ?thesis by (simp add: good_io_def demo_world_def Let_def)
qed


section \<open>Time limits\<close>

text \<open>
  C39: \<open>nty_schedule_desched_wait\<close> clears the status before \<open>nty_schedule_desched_sleepdown\<close> reads it. So a wait with a
  time limit that ends by its event leaves the coroutine in the tree of sleeping ones; when the coroutine is freed,
  the next turn of the scheduler reads freed memory.
\<close>

theorem timed_waiter_stays_asleep:
  assumes "nty_schedule_desched_wait fd s = Inr (x, s')" and "sc_sleeping s = x # ys"
  shows "sc_sleeping s' = x # ys \<and>
    (\<exists>s''. nty_coroutine_free x s' = Inr s'' \<and> (\<forall>now. nty_schedule_expired now s'' = Inl Use_After_Free))"
proof -
  obtain z xs c where z: "RB_FIND (wfd (sc_cos s)) fd (sc_waiting s) = Some z" "RB_REMOVE z (sc_waiting s) = Inr xs"
      "sc_cos s z = Some c" "0 < z"
    using assms(1)
    by (auto simp: nty_schedule_desched_wait_def upd_co_def co_at_def res_simps split: option.splits if_splits)
  then have "nty_schedule_desched_wait fd s =
      Inr (z, s\<lparr>sc_waiting := xs, sc_cos := (sc_cos s)(z \<mapsto> c\<lparr>co_status := 0\<rparr>)\<rparr>)"
    by (simp add: nty_schedule_desched_wait_def nty_schedule_desched_sleepdown_def upd_co_def co_at_def)
  then have s': "s' = s\<lparr>sc_waiting := xs, sc_cos := (sc_cos s)(x \<mapsto> c\<lparr>co_status := 0\<rparr>)\<rparr>" and x: "0 < x"
    using assms(1) z(4) by auto
  let ?s = "s'\<lparr>spawned_coroutines := spawned_coroutines s' - 1, sc_cos := (sc_cos s')(x := None)\<rparr>"
  have "nty_coroutine_free x s' = Inr ?s"
    using x by (simp add: s' nty_coroutine_free_def co_at_def)
  moreover have "nty_schedule_expired now ?s = Inl Use_After_Free" for now
    using x assms(2) by (simp add: s' nty_schedule_expired_def RB_MIN_def co_at_def)
  ultimately show ?thesis using assms(2) by (auto simp: s')
qed

definition demo_timed :: "nty_schedule res" where
  "demo_timed =
     rbind (nty_schedule_create True True 3 4 0 0) (\<lambda>(_, sched).
     case sched of
       None \<Rightarrow> Inl Null_Deref
     | Some s \<Rightarrow> rbind (nty_coroutine_create True Server 0 s) (\<lambda>(_, s).
         rbind (nty_poll_inner 1 [(7, POLLIN)] 5 100 s) (\<lambda>(_, s). Inr s)))"

theorem timed_waiter_stays_asleep_witness:
  "\<exists>s s'. demo_timed = Inr s \<and> nty_schedule_desched_wait 7 s = Inr (1, s') \<and> sc_sleeping s' = [1] \<and>
     (\<exists>s''. nty_coroutine_free 1 s' = Inr s'' \<and> (\<forall>now. nty_schedule_expired now s'' = Inl Use_After_Free))"
proof -
  have "\<exists>s s'. demo_timed = Inr s \<and> nty_schedule_desched_wait 7 s = Inr (1, s') \<and> sc_sleeping s = [1]"
    by (simp add: demo_timed_def nty_schedule_create_def nty_epoller_ev_register_trigger_def nty_coroutine_create_def
        Let_def nty_poll_inner_def upd_co_def co_at_def nty_schedule_sched_wait_def RB_INSERT_def RB_FIND_def wfd_def
        nty_schedule_sched_sleepdown_def nty_schedule_desched_wait_def nty_schedule_desched_sleepdown_def RB_REMOVE_def)
  then obtain s s' where s: "demo_timed = Inr s" "nty_schedule_desched_wait 7 s = Inr (1, s')" "sc_sleeping s = [1]"
    by blast
  from timed_waiter_stays_asleep [OF s(2,3)] s(1,2) show ?thesis by blast
qed

text \<open>
  C38: the time that \<open>nty_schedule_epoll\<close> hands to \<open>epoll_wait\<close>. The wait never lasts past the next time at which a coroutine
  wakes up. It is exact to a millisecond for times below a second; above that it drops the part below a
  second. A time of more than \<open>INT_MAX\<close> milliseconds overflows in the conversion to \<open>int\<close>.
\<close>

theorem epoll_never_oversleeps:
  "let ms = (if uint usecs < 1000000 then uint usecs div 1000 else uint usecs div 1000000 * 1000)
   in nty_epoller_wait (epoll_timespec usecs) = (if INT_MAX < ms then Inl Int_Overflow else Inr ms) \<and> ms * 1000 \<le> uint usecs"
proof -
  have sec: "uint (usecs div 1000000) = uint usecs div 1000000"
    by (simp add: uint_div)
  show ?thesis
  proof (cases "uint usecs < 1000000")
    case True
    then have z: "usecs div 1000000 = 0"
      using sec by (simp add: word_uint_eq_iff)
    have "uint (usecs * 1000) = uint usecs * 1000"
      using True by (subst uint_mult_lem [THEN iffD1]) simp_all
    with True z show ?thesis
      by (simp add: nty_epoller_wait_def epoll_timespec_def)
  next
    case False
    then have nz: "usecs div 1000000 \<noteq> 0"
      using sec by (auto simp: word_uint_eq_iff)
    have "uint (usecs mod 1000) = uint usecs mod 1000"
      by (simp add: uint_mod)
    moreover have m: "uint usecs mod 1000 < 1000" by simp
    ultimately have "uint (usecs mod 1000 * 1000) = uint usecs mod 1000 * 1000"
      by (subst uint_mult_lem [THEN iffD1]) simp_all
    with m have "uint (usecs mod 1000 * 1000) div 1000000 = 0" by simp
    with False nz sec show ?thesis
      by (simp add: nty_epoller_wait_def epoll_timespec_def Let_def)
  qed
qed

end
