(* ===== verification/Spec2Isabelle.thy ===== *)
theory Spec2Isabelle
  imports Prelude KvEngine KvHash KvArray KvStore KvServer KcpBase KcpSend KcpRecv KcpAck KcpInput
    KcpFlush KcpSafe Tunnel MemPool Sessions KvClient Gateway EventLoop GatewayFlow TunnelClient
    RbTree RbShape RbInsert RbSearch RbDelete KvRbtree NtyProg Ntyco NtySafe
begin

text \<open>
  \<^bold>\<open>A verification development for the game accelerator.\<close>

  \<^bold>\<open>The program.\<close> A game client (\<open>src/client\<close>) speaks to a gateway (\<open>src/gateway\<close>) over a reliable
  transport on UDP, KCP (\<open>src/third_party/kcp\<close>). The gateway registers clients, looks up the address of
  a route in a key-value store (\<open>src/kv_store\<close>) over TCP, opens a socket to the game server, and relays
  payloads in both directions. The packets inside the transport and the conversion of addresses are
  in \<open>src/common\<close>; a UDP echo server (\<open>src/test_server\<close>) stands in for a game server.

  \<^bold>\<open>How code becomes definitions.\<close> A structure of the code is a record, a function is a definition over
  it that returns the changed state. What can go wrong is a value of the type \<open>fault\<close>: a NULL
  dereference, a failed assertion, a deadlock, an access out of bounds, a read of memory that was not
  written or was freed, a signed overflow, a division by zero, a loop that does not end; a result of type
  \<open>'a res\<close> is a fault or a value. Integers have the width of the code where overflow matters
  (\<open>u8\<close> to \<open>u64\<close> as words, C's \<open>int\<close> as \<open>int\<close> with the overflow a fault). The surroundings (clock, sockets,
  name conversion, the allocator) are arguments or records of what they answer: \<open>mem\<close>, \<open>world\<close>,
  \<open>client_world\<close>, \<open>kv_world\<close>, \<open>co_world\<close>, \<open>startup\<close>.

  \<^bold>\<open>Theories.\<close>
  \<^item> \<open>Prelude\<close>: integer types, faults, results, the allocator behind \<open>kvstore_malloc\<close> and \<open>kvstore_free\<close>.
  \<^item> \<open>KvEngine\<close>: the contract between a storage engine and the request layer, as the locales
    \<open>kv_engine\<close> and \<open>kv_map_engine\<close>.
  \<^item> \<open>KvHash\<close> (\<open>hash.c\<close>): the hash table with chains, resizing and a mutex. It is a map, resizing keeps it,
    memory is accounted for block by block; interpretation of \<open>kv_map_engine\<close>.
  \<^item> \<open>KvArray\<close> (\<open>kvstore_array.c\<close>): the array of 1024 items; interpretation of \<open>kv_engine\<close>.
  \<^item> \<open>RbTree\<close> (\<open>kvstore_rbtree.c\<close>): every function of the tree engine on a heap of nodes.
    \<open>RbShape\<close> relates heaps to trees and trees with a hole, and proves the rotations; a reflection of
    left and right carries each result to the other side. \<open>RbInsert\<close> and \<open>RbDelete\<close> follow the two
    loops that restore the invariant, \<open>RbSearch\<close> the searches. \<open>KvRbtree\<close> derives what each entry point
    does to the stored map, with the interpretation of \<open>kv_engine\<close>.
  \<^item> \<open>KvStore\<close> (\<open>kv_store.c\<close>): tokenising, the protocol, and that requests over any engine with the contract
    answer as a map does. \<open>KvServer\<close> (\<open>ntyco_entry.c\<close>, \<open>epoll_entry.c\<close>): the two front ends; the
    locale \<open>kv_protocol\<close> carries the results from one request to sessions.
  \<^item> \<open>NtyProg\<close> (\<open>server\<close> and \<open>server_reader\<close> of \<open>ntyco_entry.c\<close>, the hooks \<open>socket\<close>, \<open>accept\<close>, \<open>recv\<close> and \<open>send\<close> of
    \<open>Ntyco/nty_socket.c\<close>): the coroutines of the first front end, as steps from one yield to the next. What a
    request does to the store is in \<open>KvServer\<close>. \<open>Ntyco\<close> (\<open>Ntyco/nty_schedule.c\<close>, \<open>nty_coroutine.c\<close>, \<open>nty_epoll.c\<close>,
    \<open>nty_poll_inner\<close> of \<open>nty_socket.c\<close>, \<open>ntyco_entry\<close>): the coroutine library that runs them. \<open>NtySafe\<close>: the
    scheduler loses no coroutine of the server and uses none after it was freed.
  \<^item> \<open>KvClient\<close> (\<open>gateway/kv_client.cpp\<close>): the gateway's client of the store.
  \<^item> \<open>KcpBase\<close>, \<open>KcpSend\<close>, \<open>KcpRecv\<close>, \<open>KcpAck\<close>, \<open>KcpInput\<close>, \<open>KcpFlush\<close> (\<open>ikcp.c\<close>): the transport in the
    order of the file; \<open>KcpSafe\<close>: no operation faults and memory is accounted for.
  \<^item> \<open>Tunnel\<close> (\<open>common/tunnel_protocol.h\<close>, \<open>common/net_utils.cpp\<close>): packets and addresses.
  \<^item> \<open>MemPool\<close> (\<open>gateway/mem_pool.h\<close>): the pool of blocks with its free list.
  \<^item> \<open>Sessions\<close> (\<open>gateway/session_manager.cpp\<close>, \<open>kcp_session.cpp\<close>): registration, lookup, target
    sockets, the idle sweep and the deferred teardown.
  \<^item> \<open>Gateway\<close> (\<open>gateway/gateway.cpp\<close>): the handlers; \<open>EventLoop\<close> (\<open>gateway/event_loop.cpp\<close>,
    \<open>Gateway::run\<close>): dispatch, timer, batches and start, with the locale \<open>safe_steps\<close> for machines whose
    steps keep an invariant; \<open>GatewayFlow\<close>: what the gateway does with the traffic.
  \<^item> \<open>TunnelClient\<close> (\<open>client/tunnel_client.cpp\<close>, \<open>client/main.cpp\<close>, \<open>test_server/udp_echo_server.cpp\<close>).

  \<^bold>\<open>What is shown.\<close> Of the gateway: while the descriptor of its connection with the store fits into an
  \<open>fd_set\<close>, no input makes it fault, apart from one signed overflow in the
  transport that a forged timestamp causes, and after every batch of events its tables agree, its
  pool is whole and no memory is lost; messages and replies pass unchanged and in order; strangers have
  no effect. Of the client: for texts that fit into its buffer, and apart from the same overflow, it ends,
  with status 0 or 1, and leaks nothing; client and gateway agree on the conversation. Of the transport: sending is fragmentation, receiving returns the next message of the
  stream, the receive window and the timeout keep their bounds. Of the store: with each of the three
  engines, requests are answered as a map answers them, where the engine behaves as a map (the statements
  name the requests that it does not); the tree stays red-black and a search in it is
  logarithmic. Of its coroutines: each is in one queue or freed and no assertion fails, as long as \<open>accept\<close> fails only
  for want of a connection, a reader finds its descriptor on the stack it shares with the others, and epoll
  reports what is watched. Where the code does not do what it means to, a theorem says what it does instead: the hash
  table's lost unlock, stale bytes in the epoll front end, shadowed and ignored settings of stored
  keys, a tree that cannot be destroyed, sessions reaped before their first message, a message
  too large for a block that stops its session, a text that overruns the client's buffer, a timed
  wait that leaves its coroutine among the sleeping ones.

  \<^bold>\<open>Fuel and bounds.\<close> Loops that follow pointers or drain a queue run on fuel, and running out is the
  fault \<open>Diverges\<close>, so a theorem that an operation returns also says that the fuel was enough. The
  tree's loops have the number of nodes ever allocated plus two; a path visits a node once. The
  loop over the ready coroutines has one more than their number, since it stops at the one that was last. The
  draining loop of the gateway has one more than the number of segments in the receive queue and buffer, since every
  message takes one with it. The client's waiting loops run on clock readings that advance. The counters
  limit runs: a session on the hash engine has at most 751619276 requests, one on the tree engine at
  most \<open>INT_MAX\<close>.

  \<^bold>\<open>Not modelled.\<close> Of the coroutine library \<open>src/kv_store/Ntyco\<close>: the switch of contexts and the contents
  of saved stacks (assembly and \<open>ucontext\<close>), the wrappers of socket calls in \<open>nty_socket.c\<close> that the store does
  not call, and the container macros of \<open>nty_tree.h\<close> and \<open>nty_queue.h\<close>, which appear as ordered lists. The load test \<open>src/client/load_test.cpp\<close> and the test program
  \<open>src/kv_store/testcase.c\<close> measure and exercise a running system. Printing, logging and socket options are
  left out throughout; threads other than the lock of the hash table do not occur.
\<close>

end
